(* ===== verification/Prelude.thy ===== *)
theory Prelude
  imports Main "HOL-Library.Word" "HOL-Library.Signed_Division"
begin

text \<open>
  Shared vocabulary of the development: the named collections the component theories fill, and
  the generic facts about truncated integers, options and lists that several of them use.
  Bit-vector values are carried as non-negative \<open>int\<close> together with a dynamic width, because the
  widths of KLEE expressions are run-time data; \<open>take_bit w\<close> is reduction modulo \<open>2 ^ w\<close> and
  \<open>signed_take_bit (w - 1)\<close> is the two's complement reading.
\<close>

unbundle bit_operations_syntax

named_theorems create_ok \<open>each smart constructor denotes the operation it is named after\<close>

section \<open>Truncated integers\<close>

definition in_width :: "nat \<Rightarrow> int \<Rightarrow> bool" where
  "in_width w v \<longleftrightarrow> 0 \<le> v \<and> v < 2 ^ w"

lemma in_width_take_bit [simp, intro]: "in_width w (take_bit w v)"
  by (simp add: in_width_def)

lemma in_width_eq: "in_width w v \<longleftrightarrow> take_bit w v = v"
  by (auto simp: in_width_def take_bit_int_eq_self_iff)

lemma take_bit_in_width [simp]: "in_width w v \<Longrightarrow> take_bit w v = v"
  by (simp add: in_width_eq)

lemma in_width_0 [simp]: "in_width w 0"
  by (simp add: in_width_def)

lemma in_width_1 [simp]: "0 < w \<Longrightarrow> in_width w 1"
  by (simp add: in_width_def)

lemma in_width_Bool: "in_width (Suc 0) v \<longleftrightarrow> v = 0 \<or> v = 1"
  by (auto simp: in_width_def)

lemma in_width_mono: "in_width w v \<Longrightarrow> w \<le> w' \<Longrightarrow> in_width w' v"
  unfolding in_width_def
  by (meson order_less_le_trans one_le_numeral power_increasing)

lemma in_width_of_bool [simp]: "in_width (Suc 0) (of_bool b)"
  by (cases b) (simp_all add: in_width_def)

lemma in_width_and: "in_width w a \<Longrightarrow> in_width w b \<Longrightarrow> in_width w (a AND b)"
  and in_width_or: "in_width w a \<Longrightarrow> in_width w b \<Longrightarrow> in_width w (a OR b)"
  and in_width_xor: "in_width w a \<Longrightarrow> in_width w b \<Longrightarrow> in_width w (a XOR b)"
  by (simp_all add: in_width_eq)

lemma in_width_div: "in_width w a \<Longrightarrow> in_width w b \<Longrightarrow> in_width w (a div b)"
proof -
  assume a: "in_width w a" "in_width w b"
  then have "a div b \<le> a"
    using zdiv_mono2 [of a 1 b] by (cases "b = 0") (auto simp: in_width_def)
  with a show ?thesis
    by (auto simp: in_width_def div_int_pos_iff)
qed

lemma in_width_mod: "in_width w a \<Longrightarrow> in_width w b \<Longrightarrow> in_width w (a mod b)"
  by (cases "b = 0") (auto simp: in_width_def intro: order_less_trans [OF pos_mod_bound])

lemma in_width_drop_bit: "in_width w v \<Longrightarrow> in_width w (drop_bit n v)"
  unfolding in_width_def drop_bit_eq_div
  by (metis div_by_1 int_one_le_iff_zero_less order_le_less_trans pos_imp_zdiv_nonneg_iff
      zdiv_mono2 zero_less_numeral zero_less_one zero_less_power)

lemma mask_and_in_width: "in_width w a \<Longrightarrow> a AND mask w = a"
  by (simp flip: take_bit_eq_mask)

lemma mask_or_in_width: "in_width w a \<Longrightarrow> a OR mask w = (mask w :: int)"
proof -
  assume a: "in_width w a"
  have "take_bit w (a OR - 1) = (mask w :: int)"
    by simp
  then show ?thesis
    using a by (simp only: take_bit_or take_bit_minus_one_eq_mask take_bit_in_width)
qed

lemma take_bit_eq_iff_dvd: "take_bit w x = take_bit w y \<longleftrightarrow> 2 ^ w dvd x - (y :: int)"
  by (simp add: take_bit_eq_mod mod_eq_dvd_iff)

lemma take_bit_eq_shift:
  assumes "in_width w a" "in_width w c"
  shows take_bit_diff_eq_iff: "take_bit w (a - b) = c \<longleftrightarrow> a = take_bit w (b + c)"
    and take_bit_diff_eq_iff': "take_bit w (b - a) = c \<longleftrightarrow> a = take_bit w (b - c)"
proof -
  have "take_bit w (a - b) = take_bit w c \<longleftrightarrow> take_bit w a = take_bit w (b + c)"
    by (simp add: take_bit_eq_iff_dvd algebra_simps)
  then show "take_bit w (a - b) = c \<longleftrightarrow> a = take_bit w (b + c)"
    using assms by simp
  have "take_bit w (b - a) = take_bit w c \<longleftrightarrow> take_bit w (b - c) = take_bit w a"
    by (simp add: take_bit_eq_iff_dvd algebra_simps)
  then show "take_bit w (b - a) = c \<longleftrightarrow> a = take_bit w (b - c)"
    using assms by auto
qed

section \<open>Two's complement values\<close>

definition to_signed :: "nat \<Rightarrow> int \<Rightarrow> int" where
  "to_signed w v = signed_take_bit (w - 1) v"

lemma to_signed_take_bit [simp]: "0 < w \<Longrightarrow> to_signed w (take_bit w v) = to_signed w v"
  by (cases w) (simp_all add: to_signed_def signed_take_bit_take_bit)

lemma take_bit_to_signed [simp]: "0 < w \<Longrightarrow> take_bit w (to_signed w v) = take_bit w v"
  by (cases w) (simp_all add: to_signed_def take_bit_signed_take_bit)

lemma to_signed_inject:
  "0 < w \<Longrightarrow> in_width w a \<Longrightarrow> in_width w b \<Longrightarrow> to_signed w a = to_signed w b \<longleftrightarrow> a = b"
  by (metis take_bit_in_width take_bit_to_signed)

lemma to_signed_Bool: "in_width (Suc 0) v \<Longrightarrow> to_signed (Suc 0) v = - v"
  by (auto simp: to_signed_def in_width_Bool)

section \<open>Options and lists\<close>

fun opt_list :: "'a option list \<Rightarrow> 'a list option" where
  "opt_list [] = Some []"
| "opt_list (None # xs) = None"
| "opt_list (Some x # xs) = map_option ((#) x) (opt_list xs)"

end
