(* ===== verification/APInt.thy ===== *)
theory APInt
  imports Prelude
begin

text \<open>
  Constants (\<open>ConstantExpr\<close>, \<open>include/klee/Expr.h\<close> and \<open>lib/Expr/Expr.cpp\<close>).
  A constant is an \<open>llvm::APInt\<close>: a bit width and a value of that many bits. Every constant
  operation of the class is one definition here, written with the zero/sign extensions,
  truncations and shifts of its C++ body. \<open>APInt\<close> requires the two operands of a binary
  operation to have one width, and a divisor that is not zero; the operations below are total
  and use the left operand's width, and the theorems about them carry these requirements.
\<close>

datatype apint = APInt (bitWidth: nat) (apval: int)

definition ap_ok :: "apint \<Rightarrow> bool" where
  "ap_ok c \<longleftrightarrow> 0 < bitWidth c \<and> in_width (bitWidth c) (apval c)"

text \<open>\<open>ConstantExpr::alloc(v, w)\<close>: the \<open>APInt\<close> constructor truncates.\<close>

definition ce_alloc :: "int \<Rightarrow> nat \<Rightarrow> apint" where
  "ce_alloc v w = APInt w (take_bit w v)"

definition ce_bool :: "bool \<Rightarrow> apint" where
  "ce_bool b = ce_alloc (of_bool b) 1"

section \<open>Predicates on constants\<close>

definition ce_isZero :: "apint \<Rightarrow> bool" where
  "ce_isZero c \<longleftrightarrow> apval c = 0"

definition ce_isOne :: "apint \<Rightarrow> bool" where
  "ce_isOne c \<longleftrightarrow> apval c = 1"

definition ce_isTrue :: "apint \<Rightarrow> bool" where
  "ce_isTrue c \<longleftrightarrow> bitWidth c = 1 \<and> apval c \<noteq> 0"

definition ce_isFalse :: "apint \<Rightarrow> bool" where
  "ce_isFalse c \<longleftrightarrow> bitWidth c = 1 \<and> apval c = 0"

definition ce_isAllOnes :: "apint \<Rightarrow> bool" where
  "ce_isAllOnes c \<longleftrightarrow> apval c = mask (bitWidth c)"

text \<open>
  \<open>getZExtValue(bits)\<close>. The assertion of the source is the branch \<open>None\<close>. For more than 64
  requested bits the source shifts the value right by 64 before it reads 64 bits.
\<close>

definition ce_getZExtValue :: "nat \<Rightarrow> apint \<Rightarrow> int option" where
  "ce_getZExtValue bits c =
     (if bitWidth c \<le> bits
      then Some (take_bit 64 (if bits > 64 then drop_bit 64 (apval c) else apval c))
      else None)"

section \<open>Constant operations\<close>

definition ce_Concat :: "apint \<Rightarrow> apint \<Rightarrow> apint" where
  "ce_Concat l r =
     (let W = bitWidth l + bitWidth r;
          tmp = take_bit W (apval l);
          tmp = take_bit W (push_bit (bitWidth r) tmp)
      in APInt W (tmp OR take_bit W (apval r)))"

text \<open>\<open>APInt::ashr\<close> by a constant amount: the sign bit is copied in from the left.\<close>

definition ap_ashr :: "apint \<Rightarrow> nat \<Rightarrow> int" where
  "ap_ashr c n = take_bit (bitWidth c) (drop_bit n (to_signed (bitWidth c) (apval c)))"

text \<open>A shift by an \<open>APInt\<close> amount limits the amount to the bit width.\<close>

definition ap_limited :: "apint \<Rightarrow> nat \<Rightarrow> nat" where
  "ap_limited c limit = nat (min (apval c) (int limit))"

definition ce_Extract :: "apint \<Rightarrow> nat \<Rightarrow> nat \<Rightarrow> apint" where
  "ce_Extract c off W = APInt W (take_bit W (ap_ashr c off))"

definition ce_ZExt :: "apint \<Rightarrow> nat \<Rightarrow> apint" where
  "ce_ZExt c W = APInt W (take_bit W (apval c))"

definition ce_SExt :: "apint \<Rightarrow> nat \<Rightarrow> apint" where
  "ce_SExt c W = APInt W (take_bit W (to_signed (bitWidth c) (apval c)))"

definition ce_Add :: "apint \<Rightarrow> apint \<Rightarrow> apint" where
  "ce_Add l r = ce_alloc (apval l + apval r) (bitWidth l)"

definition ce_Neg :: "apint \<Rightarrow> apint" where
  "ce_Neg c = ce_alloc (- apval c) (bitWidth c)"

definition ce_Sub :: "apint \<Rightarrow> apint \<Rightarrow> apint" where
  "ce_Sub l r = ce_alloc (apval l - apval r) (bitWidth l)"

definition ce_Mul :: "apint \<Rightarrow> apint \<Rightarrow> apint" where
  "ce_Mul l r = ce_alloc (apval l * apval r) (bitWidth l)"

text \<open>
  Division. A zero divisor violates the precondition of \<open>APInt\<close> and the operation has no
  result; the total functions below give the dividend (quotients) and 0 (remainders) there,
  the values \<open>SDivExpr_create\<close> and its siblings use on \<open>Bool\<close>.
\<close>

definition ce_UDiv :: "apint \<Rightarrow> apint \<Rightarrow> apint" where
  "ce_UDiv l r = (if apval r = 0 then l else ce_alloc (apval l div apval r) (bitWidth l))"

definition ap_signed :: "apint \<Rightarrow> int" where
  "ap_signed c = to_signed (bitWidth c) (apval c)"

definition ce_SDiv :: "apint \<Rightarrow> apint \<Rightarrow> apint" where
  "ce_SDiv l r = (if apval r = 0 then l else ce_alloc (ap_signed l sdiv ap_signed r) (bitWidth l))"

definition ce_URem :: "apint \<Rightarrow> apint \<Rightarrow> apint" where
  "ce_URem l r = (if apval r = 0 then ce_alloc 0 (bitWidth l)
                  else ce_alloc (apval l mod apval r) (bitWidth l))"

definition ce_SRem :: "apint \<Rightarrow> apint \<Rightarrow> apint" where
  "ce_SRem l r = (if apval r = 0 then ce_alloc 0 (bitWidth l)
                  else ce_alloc (ap_signed l smod ap_signed r) (bitWidth l))"

definition ce_And :: "apint \<Rightarrow> apint \<Rightarrow> apint" where
  "ce_And l r = APInt (bitWidth l) (apval l AND apval r)"

definition ce_Or :: "apint \<Rightarrow> apint \<Rightarrow> apint" where
  "ce_Or l r = APInt (bitWidth l) (apval l OR apval r)"

definition ce_Xor :: "apint \<Rightarrow> apint \<Rightarrow> apint" where
  "ce_Xor l r = APInt (bitWidth l) (apval l XOR apval r)"

definition ce_Shl :: "apint \<Rightarrow> apint \<Rightarrow> apint" where
  "ce_Shl l r = ce_alloc (push_bit (ap_limited r (bitWidth l)) (apval l)) (bitWidth l)"

definition ce_LShr :: "apint \<Rightarrow> apint \<Rightarrow> apint" where
  "ce_LShr l r = APInt (bitWidth l) (drop_bit (ap_limited r (bitWidth l)) (apval l))"

definition ce_AShr :: "apint \<Rightarrow> apint \<Rightarrow> apint" where
  "ce_AShr l r = APInt (bitWidth l) (ap_ashr l (ap_limited r (bitWidth l)))"

definition ce_Not :: "apint \<Rightarrow> apint" where
  "ce_Not c = ce_alloc (NOT (apval c)) (bitWidth c)"

definition ce_Eq :: "apint \<Rightarrow> apint \<Rightarrow> apint" where
  "ce_Eq l r = ce_bool (apval l = apval r)"

definition ce_Ne :: "apint \<Rightarrow> apint \<Rightarrow> apint" where
  "ce_Ne l r = ce_bool (apval l \<noteq> apval r)"

definition ce_Ult :: "apint \<Rightarrow> apint \<Rightarrow> apint" where
  "ce_Ult l r = ce_bool (apval l < apval r)"

definition ce_Ule :: "apint \<Rightarrow> apint \<Rightarrow> apint" where
  "ce_Ule l r = ce_bool (apval l \<le> apval r)"

definition ce_Ugt :: "apint \<Rightarrow> apint \<Rightarrow> apint" where
  "ce_Ugt l r = ce_bool (apval l > apval r)"

definition ce_Uge :: "apint \<Rightarrow> apint \<Rightarrow> apint" where
  "ce_Uge l r = ce_bool (apval l \<ge> apval r)"

definition ce_Slt :: "apint \<Rightarrow> apint \<Rightarrow> apint" where
  "ce_Slt l r = ce_bool (ap_signed l < ap_signed r)"

definition ce_Sle :: "apint \<Rightarrow> apint \<Rightarrow> apint" where
  "ce_Sle l r = ce_bool (ap_signed l \<le> ap_signed r)"

definition ce_Sgt :: "apint \<Rightarrow> apint \<Rightarrow> apint" where
  "ce_Sgt l r = ce_bool (ap_signed l > ap_signed r)"

definition ce_Sge :: "apint \<Rightarrow> apint \<Rightarrow> apint" where
  "ce_Sge l r = ce_bool (ap_signed l \<ge> ap_signed r)"

lemmas ce_arith_defs =
  ce_Add_def ce_Sub_def ce_Mul_def ce_UDiv_def ce_SDiv_def ce_URem_def ce_SRem_def
  ce_And_def ce_Or_def ce_Xor_def ce_Shl_def ce_LShr_def ce_AShr_def

lemmas ce_cmp_defs =
  ce_Eq_def ce_Ne_def ce_Ult_def ce_Ule_def ce_Ugt_def ce_Uge_def
  ce_Slt_def ce_Sle_def ce_Sgt_def ce_Sge_def

section \<open>Widths and well-formedness of results\<close>

lemma ap_ok_pos [dest]: "ap_ok c \<Longrightarrow> 0 < bitWidth c"
  and ap_ok_range [dest]: "ap_ok c \<Longrightarrow> in_width (bitWidth c) (apval c)"
  by (simp_all add: ap_ok_def)

lemma ap_ok_APInt [simp]: "ap_ok (APInt w v) \<longleftrightarrow> 0 < w \<and> in_width w v"
  by (simp add: ap_ok_def)

lemma eq_APInt_iff: "c = APInt w v \<longleftrightarrow> bitWidth c = w \<and> apval c = v"
  by (cases c) simp

lemma ce_alloc_sel [simp]:
  "bitWidth (ce_alloc v w) = w" "apval (ce_alloc v w) = take_bit w v"
  "ap_ok (ce_alloc v w) \<longleftrightarrow> 0 < w"
  by (simp_all add: ce_alloc_def)

lemma ce_bool_sel [simp]:
  "bitWidth (ce_bool b) = Suc 0" "apval (ce_bool b) = of_bool b" "ap_ok (ce_bool b)"
  by (simp_all add: ce_bool_def)

lemma ap_ashr_in_width [simp, intro]: "in_width (bitWidth c) (ap_ashr c n)"
  by (simp add: ap_ashr_def)

lemma ce_arith_width [simp]:
  "bitWidth (ce_Add l r) = bitWidth l" "bitWidth (ce_Sub l r) = bitWidth l"
  "bitWidth (ce_Mul l r) = bitWidth l" "bitWidth (ce_UDiv l r) = bitWidth l"
  "bitWidth (ce_SDiv l r) = bitWidth l" "bitWidth (ce_URem l r) = bitWidth l"
  "bitWidth (ce_SRem l r) = bitWidth l" "bitWidth (ce_And l r) = bitWidth l"
  "bitWidth (ce_Or l r) = bitWidth l" "bitWidth (ce_Xor l r) = bitWidth l"
  "bitWidth (ce_Shl l r) = bitWidth l" "bitWidth (ce_LShr l r) = bitWidth l"
  "bitWidth (ce_AShr l r) = bitWidth l"
  by (simp_all add: ce_arith_defs)

lemma ce_arith_ok:
  assumes "ap_ok l" "ap_ok r" "bitWidth r = bitWidth l"
  shows "ap_ok (ce_Add l r)" "ap_ok (ce_Sub l r)" "ap_ok (ce_Mul l r)" "ap_ok (ce_UDiv l r)"
    "ap_ok (ce_SDiv l r)" "ap_ok (ce_URem l r)" "ap_ok (ce_SRem l r)" "ap_ok (ce_And l r)"
    "ap_ok (ce_Or l r)" "ap_ok (ce_Xor l r)" "ap_ok (ce_Shl l r)" "ap_ok (ce_LShr l r)"
    "ap_ok (ce_AShr l r)"
  using assms ap_ok_range [OF assms(2)]
  by (auto simp: ce_arith_defs intro: in_width_and in_width_or in_width_xor in_width_drop_bit)

lemma ce_cmp_sel [simp]:
  "bitWidth (ce_Eq l r) = Suc 0" "bitWidth (ce_Ne l r) = Suc 0" "bitWidth (ce_Ult l r) = Suc 0"
  "bitWidth (ce_Ule l r) = Suc 0" "bitWidth (ce_Ugt l r) = Suc 0" "bitWidth (ce_Uge l r) = Suc 0"
  "bitWidth (ce_Slt l r) = Suc 0" "bitWidth (ce_Sle l r) = Suc 0" "bitWidth (ce_Sgt l r) = Suc 0"
  "bitWidth (ce_Sge l r) = Suc 0"
  "ap_ok (ce_Eq l r)" "ap_ok (ce_Ne l r)" "ap_ok (ce_Ult l r)" "ap_ok (ce_Ule l r)"
  "ap_ok (ce_Ugt l r)" "ap_ok (ce_Uge l r)" "ap_ok (ce_Slt l r)" "ap_ok (ce_Sle l r)"
  "ap_ok (ce_Sgt l r)" "ap_ok (ce_Sge l r)"
  by (simp_all add: ce_cmp_defs)

section \<open>Values of the bit operations\<close>

lemma ap_ashr_truncate:
  assumes "0 < bitWidth c" "n + W \<le> bitWidth c"
  shows "take_bit W (ap_ashr c n) = take_bit W (drop_bit n (apval c))"
proof (rule bit_eqI)
  fix i
  have "i < W \<Longrightarrow> bitWidth c - Suc 0 \<le> n + i \<Longrightarrow> n + i = bitWidth c - Suc 0"
    using assms by linarith
  then show "bit (take_bit W (ap_ashr c n)) i = bit (take_bit W (drop_bit n (apval c))) i"
    using assms by (auto simp: ap_ashr_def to_signed_def bit_simps min_def)
qed

lemma ce_Extract_eq:
  "ap_ok c \<Longrightarrow> off + W \<le> bitWidth c \<Longrightarrow> ce_Extract c off W = APInt W (take_bit W (drop_bit off (apval c)))"
  by (simp add: ce_Extract_def ap_ashr_truncate ap_ok_pos)

lemma ce_Concat_eq:
  assumes "ap_ok l" "ap_ok r"
  shows "ce_Concat l r = APInt (bitWidth l + bitWidth r) (push_bit (bitWidth r) (apval l) OR apval r)"
proof -
  have "take_bit (bitWidth l + bitWidth r) (push_bit (bitWidth r) (apval l)) = push_bit (bitWidth r) (apval l)"
    using assms(1) by (simp add: take_bit_push_bit ap_ok_def)
  moreover have "in_width (bitWidth l + bitWidth r) (apval l)" "in_width (bitWidth l + bitWidth r) (apval r)"
    using assms by (auto intro: in_width_mono)
  ultimately show ?thesis
    by (simp add: ce_Concat_def Let_def)
qed

end
