(* ===== verification/Expr.thy ===== *)
theory Expr
  imports APInt
begin

text \<open>
  The expression language (\<open>include/klee/Expr.h\<close>): one constructor per \<open>Expr\<close> class, the
  binary classes under one constructor that carries its \<open>Expr::Kind\<close>; arrays with their
  constant contents; update lists as the chain of \<open>UpdateNode\<close>s from the most recent write on.
  Next to the syntax, the typing the constructors' assertions demand (\<open>wfe\<close>) and the value of
  an expression as a bit vector under an assignment of bytes to symbolic arrays (\<open>eval\<close>), the
  reference that every later rewriting is compared with.
\<close>

section \<open>Syntax\<close>

text \<open>
  An \<open>Array\<close> object. Arrays are compared by address in the source; \<open>arr_ptr\<close> is that address.
\<close>

record array =
  arr_ptr :: nat
  arr_name :: string
  arr_size :: nat
  arr_domain :: nat
  arr_range :: nat
  constantValues :: "apint list"

definition isSymbolicArray :: "array \<Rightarrow> bool" where
  "isSymbolicArray a \<longleftrightarrow> constantValues a = []"

definition isConstantArray :: "array \<Rightarrow> bool" where
  "isConstantArray a \<longleftrightarrow> \<not> isSymbolicArray a"

text \<open>The binary kinds, in the order of \<open>Expr::Kind\<close>.\<close>

datatype bkind =
    Add | Sub | Mul | UDiv | SDiv | URem | SRem
  | And | Or | Xor | Shl | LShr | AShr
  | Eq | Ne | Ult | Ule | Ugt | Uge | Slt | Sle | Sgt | Sge

datatype expr =
    ConstantExpr apint
  | NotOptimizedExpr expr
  | ReadExpr array updates expr
  | SelectExpr expr expr expr
  | ConcatExpr expr expr
  | ExtractExpr expr nat nat
  | ZExtExpr expr nat
  | SExtExpr expr nat
  | NotExpr expr
  | BinaryExpr bkind expr expr
and updates =
    UNil
  | UpdateNode expr expr updates

text \<open>\<open>CmpExpr::classof\<close>: the kinds from \<open>CmpKindFirst\<close> on.\<close>

fun isCmpKind :: "bkind \<Rightarrow> bool" where
  "isCmpKind Eq = True" | "isCmpKind Ne = True"
| "isCmpKind Ult = True" | "isCmpKind Ule = True" | "isCmpKind Ugt = True" | "isCmpKind Uge = True"
| "isCmpKind Slt = True" | "isCmpKind Sle = True" | "isCmpKind Sgt = True" | "isCmpKind Sge = True"
| "isCmpKind _ = False"

primrec getWidth :: "expr \<Rightarrow> nat" where
  "getWidth (ConstantExpr c) = bitWidth c"
| "getWidth (NotOptimizedExpr e) = getWidth e"
| "getWidth (ReadExpr a u i) = arr_range a"
| "getWidth (SelectExpr c t f) = getWidth t"
| "getWidth (ConcatExpr l r) = getWidth l + getWidth r"
| "getWidth (ExtractExpr e off w) = w"
| "getWidth (ZExtExpr e w) = w"
| "getWidth (SExtExpr e w) = w"
| "getWidth (NotExpr e) = getWidth e"
| "getWidth (BinaryExpr k l r) = (if isCmpKind k then 1 else getWidth l)"

text \<open>The kids, in the order of \<open>getKid(0)\<close>, \<open>getKid(1)\<close>, \<dots>; update lists are not kids.\<close>

primrec kids :: "expr \<Rightarrow> expr list" where
  "kids (ConstantExpr c) = []"
| "kids (NotOptimizedExpr e) = [e]"
| "kids (ReadExpr a u i) = [i]"
| "kids (SelectExpr c t f) = [c, t, f]"
| "kids (ConcatExpr l r) = [l, r]"
| "kids (ExtractExpr e off w) = [e]"
| "kids (ZExtExpr e w) = [e]"
| "kids (SExtExpr e w) = [e]"
| "kids (NotExpr e) = [e]"
| "kids (BinaryExpr k l r) = [l, r]"

primrec ul_size :: "updates \<Rightarrow> nat" where
  "ul_size UNil = 0"
| "ul_size (UpdateNode ix v n) = 1 + ul_size n"

section \<open>Typing\<close>

text \<open>
  The domain of an array is the width of its indices, 32 bits for every array the executor
  makes; the evaluator passes an index as a 32-bit \<open>unsigned\<close>.
\<close>

definition array_ok :: "array \<Rightarrow> bool" where
  "array_ok a \<longleftrightarrow> 0 < arr_domain a \<and> arr_domain a \<le> 32 \<and> 0 < arr_range a \<and>
     (isSymbolicArray a \<or> length (constantValues a) = arr_size a) \<and>
     list_all (\<lambda>c. ap_ok c \<and> bitWidth c = arr_range a) (constantValues a)"

primrec wfe :: "expr \<Rightarrow> bool" and wfu :: "updates \<Rightarrow> array \<Rightarrow> bool" where
  "wfe (ConstantExpr c) = ap_ok c"
| "wfe (NotOptimizedExpr e) = wfe e"
| "wfe (ReadExpr a u i) = (array_ok a \<and> wfu u a \<and> wfe i \<and> getWidth i = arr_domain a)"
| "wfe (SelectExpr c t f) = (wfe c \<and> wfe t \<and> wfe f \<and> getWidth c = 1 \<and> getWidth t = getWidth f)"
| "wfe (ConcatExpr l r) = (wfe l \<and> wfe r)"
| "wfe (ExtractExpr e off w) = (wfe e \<and> 0 < w \<and> off + w \<le> getWidth e)"
| "wfe (ZExtExpr e w) = (wfe e \<and> getWidth e \<le> w)"
| "wfe (SExtExpr e w) = (wfe e \<and> getWidth e \<le> w)"
| "wfe (NotExpr e) = wfe e"
| "wfe (BinaryExpr k l r) = (wfe l \<and> wfe r \<and> getWidth l = getWidth r)"
| "wfu UNil a = True"
| "wfu (UpdateNode ix v n) a =
     (wfe ix \<and> wfe v \<and> wfu n a \<and> getWidth ix = arr_domain a \<and> getWidth v = arr_range a)"

section \<open>Values\<close>

text \<open>
  The bit-vector operation of each binary kind, on operands of width \<open>w\<close>. Comparisons give
  0 or 1. A shift by the width or more gives 0 (or copies of the sign, for \<open>AShr\<close>). Dividing by
  0 is undefined in the source (the executor checks each divisor first); the total function
  gives the dividend as quotient and 0 as remainder.
\<close>

fun sem_bin :: "bkind \<Rightarrow> nat \<Rightarrow> int \<Rightarrow> int \<Rightarrow> int" where
  "sem_bin Add w a b = take_bit w (a + b)"
| "sem_bin Sub w a b = take_bit w (a - b)"
| "sem_bin Mul w a b = take_bit w (a * b)"
| "sem_bin UDiv w a b = (if b = 0 then a else a div b)"
| "sem_bin SDiv w a b = (if b = 0 then a else take_bit w (to_signed w a sdiv to_signed w b))"
| "sem_bin URem w a b = (if b = 0 then 0 else a mod b)"
| "sem_bin SRem w a b = (if b = 0 then 0 else take_bit w (to_signed w a smod to_signed w b))"
| "sem_bin And w a b = a AND b"
| "sem_bin Or w a b = a OR b"
| "sem_bin Xor w a b = a XOR b"
| "sem_bin Shl w a b = (if int w \<le> b then 0 else take_bit w (push_bit (nat b) a))"
| "sem_bin LShr w a b = (if int w \<le> b then 0 else drop_bit (nat b) a)"
| "sem_bin AShr w a b = take_bit w (drop_bit (nat (min b (int w))) (to_signed w a))"
| "sem_bin Eq w a b = of_bool (a = b)"
| "sem_bin Ne w a b = of_bool (a \<noteq> b)"
| "sem_bin Ult w a b = of_bool (a < b)"
| "sem_bin Ule w a b = of_bool (a \<le> b)"
| "sem_bin Ugt w a b = of_bool (a > b)"
| "sem_bin Uge w a b = of_bool (a \<ge> b)"
| "sem_bin Slt w a b = of_bool (to_signed w a < to_signed w b)"
| "sem_bin Sle w a b = of_bool (to_signed w a \<le> to_signed w b)"
| "sem_bin Sgt w a b = of_bool (to_signed w a > to_signed w b)"
| "sem_bin Sge w a b = of_bool (to_signed w a \<ge> to_signed w b)"

type_synonym env = "array \<Rightarrow> nat \<Rightarrow> int"

text \<open>The contents of an array before any update.\<close>

definition initial :: "env \<Rightarrow> array \<Rightarrow> int \<Rightarrow> int" where
  "initial env a i =
     (if isConstantArray a \<and> nat i < arr_size a then apval (constantValues a ! nat i)
      else take_bit (arr_range a) (env a (nat i)))"

primrec eval :: "expr \<Rightarrow> env \<Rightarrow> int" and eval_upd :: "updates \<Rightarrow> env \<Rightarrow> array \<Rightarrow> int \<Rightarrow> int" where
  "eval (ConstantExpr c) env = apval c"
| "eval (NotOptimizedExpr e) env = eval e env"
| "eval (ReadExpr a u i) env = eval_upd u env a (eval i env)"
| "eval (SelectExpr c t f) env = (if eval c env = 1 then eval t env else eval f env)"
| "eval (ConcatExpr l r) env = push_bit (getWidth r) (eval l env) OR eval r env"
| "eval (ExtractExpr e off w) env = take_bit w (drop_bit off (eval e env))"
| "eval (ZExtExpr e w) env = take_bit w (eval e env)"
| "eval (SExtExpr e w) env = take_bit w (to_signed (getWidth e) (eval e env))"
| "eval (NotExpr e) env = take_bit (getWidth e) (NOT (eval e env))"
| "eval (BinaryExpr k l r) env = sem_bin k (getWidth l) (eval l env) (eval r env)"
| "eval_upd UNil env a i = initial env a i"
| "eval_upd (UpdateNode ix v n) env a i =
     (if eval ix env = i then eval v env else eval_upd n env a i)"

section \<open>Every value fits the width of its expression\<close>

lemma sem_bin_in_width:
  assumes "0 < w" "in_width w a" "in_width w b"
  shows "in_width (if isCmpKind k then Suc 0 else w) (sem_bin k w a b)"
  using assms
  by (cases k)
    (auto intro: in_width_and in_width_or in_width_xor in_width_drop_bit in_width_div in_width_mod)

lemma in_width_concat:
  assumes "in_width w a" "in_width v b"
  shows "in_width (w + v) (push_bit v a OR b)"
proof -
  have "in_width (w + v) (push_bit v a)"
    using assms(1) by (simp add: in_width_eq take_bit_push_bit)
  moreover have "in_width (w + v) b"
    using assms(2) by (auto intro: in_width_mono)
  ultimately show ?thesis
    by (rule in_width_or)
qed

lemma initial_in_width: "array_ok a \<Longrightarrow> in_width (arr_range a) (initial env a i)"
  using ap_ok_range [of "constantValues a ! nat i"]
  by (auto simp: initial_def array_ok_def isConstantArray_def list_all_length)

lemma getWidth_pos: "wfe e \<Longrightarrow> 0 < getWidth e"
  by (induction e rule: expr.induct [where ?P2.0 = "\<lambda>_. True"])
    (auto simp: array_ok_def ap_ok_def)

lemma eval_in_width:
  "wfe e \<Longrightarrow> in_width (getWidth e) (eval e env)"
  "wfu u a \<Longrightarrow> array_ok a \<Longrightarrow> in_width (arr_range a) (eval_upd u env a i)"
proof (induction e and u arbitrary: and a i)
  case (BinaryExpr k l r)
  then show ?case
    using sem_bin_in_width [of "getWidth l" "eval l env" "eval r env" k] getWidth_pos by auto
qed (auto intro: in_width_concat initial_in_width)

end
