(* ===== verification/ExprCreate.thy ===== *)
theory ExprCreate
  imports Expr
begin

text \<open>
  The smart constructors (\<open>lib/Expr/Expr.cpp\<close>): each \<open>XExpr::create\<close> folds constants, moves
  constants to the left of sums, merges contiguous extracts and turns operations on \<open>Bool\<close> into
  connectives. The static helpers keep their names (\<open>AddExpr_createPartialR\<close>, \<dots>); a method
  \<open>AddExpr::create\<close> is \<open>Add_create\<close>. The flag \<open>co\<close> is the option \<open>-const-array-opt\<close>, off by
  default. The theorems: every constructor denotes the operation it is named after.
\<close>

section \<open>Views of an expression\<close>

text \<open>\<open>dyn_cast<ConstantExpr>\<close>\<close>

fun as_const :: "expr \<Rightarrow> apint option" where
  "as_const (ConstantExpr c) = Some c"
| "as_const _ = None"

text \<open>\<open>e->getKind() == k && isa<ConstantExpr>(e->getKid(0))\<close>: the constant and the other kid.\<close>

fun constLeft :: "bkind \<Rightarrow> expr \<Rightarrow> (apint \<times> expr) option" where
  "constLeft k (BinaryExpr k' l r) =
     (if k' = k then (case as_const l of Some c \<Rightarrow> Some (c, r) | None \<Rightarrow> None) else None)"
| "constLeft k _ = None"

lemma as_const_Some [simp]: "as_const e = Some c \<longleftrightarrow> e = ConstantExpr c"
  by (cases e) auto

lemma constLeft_Some [simp]: "constLeft k e = Some (c, r) \<longleftrightarrow> e = BinaryExpr k (ConstantExpr c) r"
  by (cases e) (auto split: option.splits)

lemma constLeft_SomeD: "constLeft k e = Some p \<Longrightarrow> e = BinaryExpr k (ConstantExpr (fst p)) (snd p)"
  by (cases p) simp

lemma constLeft_size [termination_simp]: "constLeft k e = Some (c, r) \<Longrightarrow> size r < size e"
  by simp

section \<open>Denoting the same value\<close>

text \<open>
  \<open>eqv e e'\<close>: when \<open>e'\<close> is well formed then \<open>e\<close> is, with the same width, and both have one
  value under every assignment.
\<close>

definition eqv :: "expr \<Rightarrow> expr \<Rightarrow> bool" where
  "eqv e e' \<longleftrightarrow> (wfe e' \<longrightarrow> wfe e \<and> getWidth e = getWidth e' \<and> (\<forall>env. eval e env = eval e' env))"

lemma eqvI:
  "(wfe e' \<Longrightarrow> wfe e) \<Longrightarrow> (wfe e' \<Longrightarrow> getWidth e = getWidth e') \<Longrightarrow>
   (\<And>env. wfe e' \<Longrightarrow> eval e env = eval e' env) \<Longrightarrow> eqv e e'"
  by (simp add: eqv_def)

lemma eqvD:
  assumes "eqv e e'" "wfe e'"
  shows "wfe e" "getWidth e = getWidth e'" "eval e env = eval e' env"
  using assms by (simp_all add: eqv_def)

lemma eqv_refl [simp, intro]: "eqv e e"
  by (simp add: eqv_def)

lemma eqv_trans [trans]: "eqv e e' \<Longrightarrow> eqv e' e'' \<Longrightarrow> eqv e e''"
  by (simp add: eqv_def)

lemma eqv_BinaryExpr: "eqv l l' \<Longrightarrow> eqv r r' \<Longrightarrow> eqv (BinaryExpr k l r) (BinaryExpr k l' r')"
  by (simp add: eqv_def)

lemma eqv_ConcatExpr: "eqv l l' \<Longrightarrow> eqv r r' \<Longrightarrow> eqv (ConcatExpr l r) (ConcatExpr l' r')"
  by (simp add: eqv_def)

lemma eqv_unary:
  assumes "eqv e e'"
  shows "eqv (NotExpr e) (NotExpr e')" "eqv (ZExtExpr e w) (ZExtExpr e' w)"
    "eqv (SExtExpr e w) (SExtExpr e' w)" "eqv (ExtractExpr e off w) (ExtractExpr e' off w)"
    "eqv (NotOptimizedExpr e) (NotOptimizedExpr e')"
  using assms by (auto simp: eqv_def)

lemma eqv_SelectExpr: "eqv c c' \<Longrightarrow> eqv t t' \<Longrightarrow> eqv f f' \<Longrightarrow> eqv (SelectExpr c t f) (SelectExpr c' t' f')"
  by (simp add: eqv_def)

section \<open>The constructor schemes\<close>

text \<open>The macros \<open>BCREATE_R\<close> (also \<open>CMPCREATE_T\<close>) and \<open>BCREATE\<close> (also \<open>CMPCREATE\<close>).\<close>

definition BCREATE_R ::
  "(apint \<Rightarrow> apint \<Rightarrow> apint) \<Rightarrow> (expr \<Rightarrow> apint \<Rightarrow> expr) \<Rightarrow> (apint \<Rightarrow> expr \<Rightarrow> expr) \<Rightarrow>
   (expr \<Rightarrow> expr \<Rightarrow> expr) \<Rightarrow> expr \<Rightarrow> expr \<Rightarrow> expr" where
  "BCREATE_R op partialL partialR gen l r =
     (case as_const l of
        Some cl \<Rightarrow> (case as_const r of Some cr \<Rightarrow> ConstantExpr (op cl cr) | None \<Rightarrow> partialR cl r)
      | None \<Rightarrow> (case as_const r of Some cr \<Rightarrow> partialL l cr | None \<Rightarrow> gen l r))"

definition BCREATE ::
  "(apint \<Rightarrow> apint \<Rightarrow> apint) \<Rightarrow> (expr \<Rightarrow> expr \<Rightarrow> expr) \<Rightarrow> expr \<Rightarrow> expr \<Rightarrow> expr" where
  "BCREATE op gen l r =
     (case (as_const l, as_const r) of
        (Some cl, Some cr) \<Rightarrow> ConstantExpr (op cl cr)
      | _ \<Rightarrow> gen l r)"

text \<open>What a constant operation must do to fold a kind soundly.\<close>

definition folds :: "(apint \<Rightarrow> apint \<Rightarrow> apint) \<Rightarrow> bkind \<Rightarrow> bool" where
  "folds op k \<longleftrightarrow> (\<forall>cl cr. ap_ok cl \<longrightarrow> ap_ok cr \<longrightarrow> bitWidth cl = bitWidth cr \<longrightarrow>
     ap_ok (op cl cr) \<and> bitWidth (op cl cr) = (if isCmpKind k then 1 else bitWidth cl) \<and>
     apval (op cl cr) = sem_bin k (bitWidth cl) (apval cl) (apval cr))"

lemma folds_eqv:
  "folds op k \<Longrightarrow> eqv (ConstantExpr (op cl cr)) (BinaryExpr k (ConstantExpr cl) (ConstantExpr cr))"
  by (auto simp: folds_def eqv_def)

lemma BCREATE_R_eqv:
  assumes "folds op k"
    and "\<And>l cr. eqv (partialL l cr) (BinaryExpr k l (ConstantExpr cr))"
    and "\<And>cl r. eqv (partialR cl r) (BinaryExpr k (ConstantExpr cl) r)"
    and "\<And>l r. eqv (gen l r) (BinaryExpr k l r)"
  shows "eqv (BCREATE_R op partialL partialR gen l r) (BinaryExpr k l r)"
  using assms(2-4) folds_eqv [OF assms(1)]
  by (auto simp: BCREATE_R_def split: option.splits)

lemma BCREATE_eqv:
  assumes "folds op k" "\<And>l r. eqv (gen l r) (BinaryExpr k l r)"
  shows "eqv (BCREATE op gen l r) (BinaryExpr k l r)"
  using assms(2) folds_eqv [OF assms(1)]
  by (auto simp: BCREATE_def split: option.splits)

lemma push_bit_ge: "w \<le> n \<Longrightarrow> take_bit w (push_bit n a) = (0::int)"
  by (simp add: take_bit_push_bit)

lemma drop_bit_ge: "in_width w a \<Longrightarrow> w \<le> n \<Longrightarrow> drop_bit n a = 0"
  using take_bit_eq_self_iff_drop_bit_eq_0 [of n a] in_width_mono [of w a n]
  by (simp add: in_width_eq)

lemma folds_arith:
  "folds ce_Add Add" "folds ce_Sub Sub" "folds ce_Mul Mul" "folds ce_UDiv UDiv"
  "folds ce_SDiv SDiv" "folds ce_URem URem" "folds ce_SRem SRem"
  "folds ce_And And" "folds ce_Or Or" "folds ce_Xor Xor"
  unfolding folds_def
  by (auto simp: ap_ok_def ce_arith_defs ap_signed_def in_width_div in_width_mod
      intro: in_width_and in_width_or in_width_xor)

lemma folds_cmp:
  "folds ce_Eq Eq" "folds ce_Ne Ne" "folds ce_Ult Ult" "folds ce_Ule Ule" "folds ce_Ugt Ugt"
  "folds ce_Uge Uge" "folds ce_Slt Slt" "folds ce_Sle Sle" "folds ce_Sgt Sgt" "folds ce_Sge Sge"
  unfolding folds_def
  by (simp_all add: ce_cmp_defs ap_signed_def)

lemma folds_shift: "folds ce_Shl Shl" "folds ce_LShr LShr" "folds ce_AShr AShr"
  unfolding folds_def
  by (auto simp: ap_ok_def ce_arith_defs ap_limited_def ap_ashr_def min_def push_bit_ge
      intro: drop_bit_ge in_width_drop_bit)

section \<open>Conjunction and disjunction\<close>

definition AndExpr_createPartial :: "expr \<Rightarrow> apint \<Rightarrow> expr" where
  "AndExpr_createPartial l cr =
     (if ce_isAllOnes cr then l
      else if ce_isZero cr then ConstantExpr cr
      else BinaryExpr And l (ConstantExpr cr))"

definition AndExpr_createPartialR :: "apint \<Rightarrow> expr \<Rightarrow> expr" where
  "AndExpr_createPartialR cl r = AndExpr_createPartial r cl"

definition AndExpr_create :: "expr \<Rightarrow> expr \<Rightarrow> expr" where
  "AndExpr_create l r = BinaryExpr And l r"

definition And_create :: "expr \<Rightarrow> expr \<Rightarrow> expr" where
  "And_create = BCREATE_R ce_And AndExpr_createPartial AndExpr_createPartialR AndExpr_create"

definition OrExpr_createPartial :: "expr \<Rightarrow> apint \<Rightarrow> expr" where
  "OrExpr_createPartial l cr =
     (if ce_isAllOnes cr then ConstantExpr cr
      else if ce_isZero cr then l
      else BinaryExpr Or l (ConstantExpr cr))"

definition OrExpr_createPartialR :: "apint \<Rightarrow> expr \<Rightarrow> expr" where
  "OrExpr_createPartialR cl r = OrExpr_createPartial r cl"

definition OrExpr_create :: "expr \<Rightarrow> expr \<Rightarrow> expr" where
  "OrExpr_create l r = BinaryExpr Or l r"

definition Or_create :: "expr \<Rightarrow> expr \<Rightarrow> expr" where
  "Or_create = BCREATE_R ce_Or OrExpr_createPartial OrExpr_createPartialR OrExpr_create"

section \<open>Equality\<close>

definition EqExpr_create :: "expr \<Rightarrow> expr \<Rightarrow> expr" where
  "EqExpr_create l r = (if l = r then ConstantExpr (ce_alloc 1 1) else BinaryExpr Eq l r)"

text \<open>
  The loop of \<open>TryConstArrayOpt\<close> over the constant contents: \<open>eqIdx\<close> builds the comparison of
  the read index with a position, \<open>i\<close> is the position, \<open>n\<close> the number of matches so far and
  \<open>res\<close> the disjunction so far. \<open>None\<close> is the early return after more than 100 matches.
\<close>

fun TryConstArrayOpt_loop ::
  "(apint \<Rightarrow> expr) \<Rightarrow> apint \<Rightarrow> nat \<Rightarrow> apint list \<Rightarrow> nat \<Rightarrow> nat \<Rightarrow> expr \<Rightarrow> expr option" where
  "TryConstArrayOpt_loop eqIdx cl wi [] i n res = Some res"
| "TryConstArrayOpt_loop eqIdx cl wi (v # vs) i n res =
     (if cl = v
      then if Suc n > 100 then None
           else TryConstArrayOpt_loop eqIdx cl wi vs (Suc i) (Suc n)
                  (Or_create res (eqIdx (ce_alloc (int i) wi)))
      else TryConstArrayOpt_loop eqIdx cl wi vs (Suc i) n res)"

definition TryConstArrayOpt :: "(apint \<Rightarrow> expr) \<Rightarrow> apint \<Rightarrow> array \<Rightarrow> updates \<Rightarrow> expr \<Rightarrow> expr" where
  "TryConstArrayOpt eqIdx cl a u ix =
     (if isSymbolicArray a \<or> ul_size u \<noteq> 0 then EqExpr_create (ConstantExpr cl) (ReadExpr a u ix)
      else case TryConstArrayOpt_loop eqIdx cl (getWidth ix) (constantValues a) 0 0
                  (ConstantExpr (ce_alloc 0 1)) of
             Some res \<Rightarrow> res
           | None \<Rightarrow> EqExpr_create (ConstantExpr cl) (ReadExpr a u ix))"

text \<open>
  \<open>EqExpr_createPartialR(cl, r)\<close>. The calls \<open>EqExpr::create(e, c)\<close> with a constant \<open>c\<close> are
  written as what the method does on them: fold when \<open>e\<close> is a constant too, otherwise
  \<open>EqExpr_createPartial(e, c)\<close>; \<open>Eq_create_const\<close> below states that as an equation.
\<close>

fun EqExpr_createPartialR :: "bool \<Rightarrow> apint \<Rightarrow> expr \<Rightarrow> expr" where
  "EqExpr_createPartialR co cl r =
     (if bitWidth cl = 1 then
        if ce_isTrue cl then r
        else (case r of
           BinaryExpr rk a b \<Rightarrow>
             if rk = Eq then
               (case as_const a of
                  Some CE \<Rightarrow> if bitWidth CE = 1 \<and> ce_isFalse CE then b
                             else EqExpr_create (ConstantExpr cl) r
                | None \<Rightarrow> EqExpr_create (ConstantExpr cl) r)
             else if rk = Or then
               And_create
                 (case as_const a of
                    Some v \<Rightarrow> ConstantExpr (ce_Eq v (ce_alloc 0 (getWidth a)))
                  | None \<Rightarrow> EqExpr_createPartialR co (ce_alloc 0 (getWidth a)) a)
                 (case as_const b of
                    Some v \<Rightarrow> ConstantExpr (ce_Eq v (ce_alloc 0 (getWidth b)))
                  | None \<Rightarrow> EqExpr_createPartialR co (ce_alloc 0 (getWidth b)) b)
             else EqExpr_create (ConstantExpr cl) r
         | _ \<Rightarrow> EqExpr_create (ConstantExpr cl) r)
      else (case r of
         SExtExpr src w \<Rightarrow>
           (let trunc = ce_ZExt cl (getWidth src)
            in if cl = ce_SExt trunc (bitWidth cl)
               then (case as_const src of
                       Some v \<Rightarrow> ConstantExpr (ce_Eq v trunc)
                     | None \<Rightarrow> EqExpr_createPartialR co trunc src)
               else ConstantExpr (ce_alloc 0 1))
       | ZExtExpr src w \<Rightarrow>
           (let trunc = ce_ZExt cl (getWidth src)
            in if cl = ce_ZExt trunc (bitWidth cl)
               then (case as_const src of
                       Some v \<Rightarrow> ConstantExpr (ce_Eq v trunc)
                     | None \<Rightarrow> EqExpr_createPartialR co trunc src)
               else ConstantExpr (ce_alloc 0 1))
       | BinaryExpr rk a b \<Rightarrow>
           if rk = Add then
             (case as_const a of
                Some c \<Rightarrow> EqExpr_createPartialR co (ce_Sub cl c) b
              | None \<Rightarrow> EqExpr_create (ConstantExpr cl) r)
           else if rk = Sub then
             (case as_const a of
                Some c \<Rightarrow> EqExpr_createPartialR co (ce_Sub c cl) b
              | None \<Rightarrow> EqExpr_create (ConstantExpr cl) r)
           else EqExpr_create (ConstantExpr cl) r
       | ReadExpr a u ix \<Rightarrow>
           if co then
             TryConstArrayOpt
               (\<lambda>c. case as_const ix of
                      Some v \<Rightarrow> ConstantExpr (ce_Eq v c)
                    | None \<Rightarrow> EqExpr_createPartialR co c ix)
               cl a u ix
           else EqExpr_create (ConstantExpr cl) r
       | _ \<Rightarrow> EqExpr_create (ConstantExpr cl) r))"

declare EqExpr_createPartialR.simps [simp del]

definition EqExpr_createPartial :: "bool \<Rightarrow> expr \<Rightarrow> apint \<Rightarrow> expr" where
  "EqExpr_createPartial co l cr = EqExpr_createPartialR co cr l"

definition Eq_create :: "bool \<Rightarrow> expr \<Rightarrow> expr \<Rightarrow> expr" where
  "Eq_create co = BCREATE_R ce_Eq (EqExpr_createPartial co) (EqExpr_createPartialR co) EqExpr_create"

definition createIsZero :: "bool \<Rightarrow> expr \<Rightarrow> expr" where
  "createIsZero co e = Eq_create co e (ConstantExpr (ce_alloc 0 (getWidth e)))"

lemma Eq_create_const:
  "Eq_create co e (ConstantExpr c) =
     (case as_const e of
        Some v \<Rightarrow> ConstantExpr (ce_Eq v c)
      | None \<Rightarrow> EqExpr_createPartialR co c e)"
  by (simp add: Eq_create_def BCREATE_R_def EqExpr_createPartial_def split: option.split)

definition Ne_create :: "bool \<Rightarrow> expr \<Rightarrow> expr \<Rightarrow> expr" where
  "Ne_create co l r = Eq_create co (ConstantExpr (ce_alloc 0 1)) (Eq_create co l r)"

section \<open>Correctness of the connectives and of equality\<close>

lemma AndExpr_createPartial_ok: "eqv (AndExpr_createPartial l cr) (BinaryExpr And l (ConstantExpr cr))"
proof (rule eqvI)
  fix env assume wf: "wfe (BinaryExpr And l (ConstantExpr cr))"
  then have "in_width (bitWidth cr) (eval l env)"
    using eval_in_width(1) [of l env] by simp
  then show "eval (AndExpr_createPartial l cr) env = eval (BinaryExpr And l (ConstantExpr cr)) env"
    by (simp add: AndExpr_createPartial_def ce_isAllOnes_def ce_isZero_def mask_and_in_width)
qed (auto simp: AndExpr_createPartial_def)

lemma And_swap: "eqv (BinaryExpr And l r) (BinaryExpr And r l)"
  and Or_swap: "eqv (BinaryExpr Or l r) (BinaryExpr Or r l)"
  and Xor_swap: "eqv (BinaryExpr Xor l r) (BinaryExpr Xor r l)"
  and Add_swap: "eqv (BinaryExpr Add l r) (BinaryExpr Add r l)"
  and Mul_swap: "eqv (BinaryExpr Mul l r) (BinaryExpr Mul r l)"
  and Eq_swap: "eqv (BinaryExpr Eq l r) (BinaryExpr Eq r l)"
  by (auto simp: eqv_def ac_simps)

lemma And_create_ok [create_ok]: "eqv (And_create l r) (BinaryExpr And l r)"
  unfolding And_create_def
  by (rule BCREATE_R_eqv [OF folds_arith(8)])
    (auto simp: AndExpr_createPartialR_def AndExpr_create_def
      intro: AndExpr_createPartial_ok eqv_trans [OF AndExpr_createPartial_ok And_swap])

lemma OrExpr_createPartial_ok: "eqv (OrExpr_createPartial l cr) (BinaryExpr Or l (ConstantExpr cr))"
proof (rule eqvI)
  fix env assume wf: "wfe (BinaryExpr Or l (ConstantExpr cr))"
  then have "in_width (bitWidth cr) (eval l env)"
    using eval_in_width(1) [of l env] by simp
  then show "eval (OrExpr_createPartial l cr) env = eval (BinaryExpr Or l (ConstantExpr cr)) env"
    by (simp add: OrExpr_createPartial_def ce_isAllOnes_def ce_isZero_def mask_or_in_width)
qed (auto simp: OrExpr_createPartial_def)

lemma Or_create_ok [create_ok]: "eqv (Or_create l r) (BinaryExpr Or l r)"
  unfolding Or_create_def
  by (rule BCREATE_R_eqv [OF folds_arith(9)])
    (auto simp: OrExpr_createPartialR_def OrExpr_create_def
      intro: OrExpr_createPartial_ok eqv_trans [OF OrExpr_createPartial_ok Or_swap])

lemma EqExpr_create_ok: "eqv (EqExpr_create l r) (BinaryExpr Eq l r)"
  by (simp add: EqExpr_create_def eqv_def)

text \<open>The value of a well-formed expression of width 1.\<close>

lemma eval_Bool: "wfe e \<Longrightarrow> getWidth e = Suc 0 \<Longrightarrow> eval e env = 0 \<or> eval e env = 1"
  using eval_in_width(1) [of e env] by (simp add: in_width_Bool)

lemma eqv_true: "ce_isTrue cl \<Longrightarrow> eqv r (BinaryExpr Eq (ConstantExpr cl) r)"
  using eval_Bool [of r]
  by (fastforce intro!: eqvI simp: ce_isTrue_def ap_ok_def in_width_Bool)

text \<open>An equation between an extension and a constant (the guarded cases of the code).\<close>

lemma eqv_SExt_const:
  assumes "t = ce_ZExt cl (getWidth src)"
  shows "eqv (if cl = ce_SExt t (bitWidth cl) then BinaryExpr Eq src (ConstantExpr t)
              else ConstantExpr (ce_alloc 0 1))
           (BinaryExpr Eq (ConstantExpr cl) (SExtExpr src w))"
proof (rule eqvI)
  assume wf: "wfe (BinaryExpr Eq (ConstantExpr cl) (SExtExpr src w))"
  have pos: "0 < getWidth src"
    using wf by (simp add: getWidth_pos)
  then show "wfe (if cl = ce_SExt t (bitWidth cl) then BinaryExpr Eq src (ConstantExpr t)
      else ConstantExpr (ce_alloc 0 1))"
    using wf by (simp add: assms ce_ZExt_def)
  fix env
  have v: "in_width (getWidth src) (eval src env)"
    using wf eval_in_width(1) [of src env] by simp
  have cl: "bitWidth cl = w" "getWidth src \<le> w"
    using wf by auto
  have "take_bit w (to_signed (getWidth src) (eval src env)) = apval cl \<longleftrightarrow>
      eval src env = apval t \<and> apval cl = take_bit w (to_signed (getWidth src) (apval t))" (is "?l \<longleftrightarrow> ?r")
  proof
    assume l: ?l
    have "take_bit (getWidth src) (apval cl) = eval src env"
      using cl(2) pos v by (simp flip: l add: min_def)
    with l show ?r
      by (simp add: assms ce_ZExt_def)
  qed simp
  moreover have "bitWidth t = getWidth src"
    by (simp add: assms ce_ZExt_def)
  ultimately show "eval (if cl = ce_SExt t (bitWidth cl) then BinaryExpr Eq src (ConstantExpr t)
      else ConstantExpr (ce_alloc 0 1)) env = eval (BinaryExpr Eq (ConstantExpr cl) (SExtExpr src w)) env"
    using wf cl by (auto simp: ce_SExt_def eq_APInt_iff)
qed simp

lemma eqv_ZExt_const:
  assumes "t = ce_ZExt cl (getWidth src)"
  shows "eqv (if cl = ce_ZExt t (bitWidth cl) then BinaryExpr Eq src (ConstantExpr t)
              else ConstantExpr (ce_alloc 0 1))
           (BinaryExpr Eq (ConstantExpr cl) (ZExtExpr src w))"
proof (rule eqvI)
  assume wf: "wfe (BinaryExpr Eq (ConstantExpr cl) (ZExtExpr src w))"
  have pos: "0 < getWidth src"
    using wf by (simp add: getWidth_pos)
  then show "wfe (if cl = ce_ZExt t (bitWidth cl) then BinaryExpr Eq src (ConstantExpr t)
      else ConstantExpr (ce_alloc 0 1))"
    using wf by (simp add: assms ce_ZExt_def)
  fix env
  have v: "in_width (getWidth src) (eval src env)"
    using wf eval_in_width(1) [of src env] by simp
  have cl: "bitWidth cl = w" "getWidth src \<le> w"
    using wf by auto
  then have vw: "in_width w (eval src env)"
    using v by (auto intro: in_width_mono)
  have tw: "bitWidth t = getWidth src" "apval t = take_bit (getWidth src) (apval cl)"
    by (simp_all add: assms ce_ZExt_def)
  have "take_bit w (eval src env) = apval cl \<longleftrightarrow>
      eval src env = apval t \<and> apval cl = take_bit w (apval t)" (is "?l \<longleftrightarrow> ?r")
  proof
    assume ?l
    with vw have "apval cl = eval src env"
      by simp
    with v vw tw(2) show ?r
      by simp
  qed simp
  moreover have "cl = ce_ZExt t (bitWidth cl) \<longleftrightarrow> apval cl = take_bit w (apval t)"
    using cl(1) by (simp add: ce_ZExt_def eq_APInt_iff)
  ultimately have "apval cl = take_bit w (eval src env) \<longleftrightarrow>
      eval src env = apval t \<and> cl = ce_ZExt t (bitWidth cl)"
    by metis
  then show "eval (if cl = ce_ZExt t (bitWidth cl) then BinaryExpr Eq src (ConstantExpr t)
      else ConstantExpr (ce_alloc 0 1)) env = eval (BinaryExpr Eq (ConstantExpr cl) (ZExtExpr src w)) env"
    by simp
qed simp

lemma eqv_not_or:
  assumes "\<not> ce_isTrue cl" "bitWidth cl = 1"
  shows "eqv (BinaryExpr And (BinaryExpr Eq a (ConstantExpr (ce_alloc 0 (getWidth a))))
                             (BinaryExpr Eq b (ConstantExpr (ce_alloc 0 (getWidth b)))))
             (BinaryExpr Eq (ConstantExpr cl) (BinaryExpr Or a b))"
proof (rule eqvI)
  fix env
  assume "wfe (BinaryExpr Eq (ConstantExpr cl) (BinaryExpr Or a b))"
  then show "eval (BinaryExpr And (BinaryExpr Eq a (ConstantExpr (ce_alloc 0 (getWidth a))))
      (BinaryExpr Eq b (ConstantExpr (ce_alloc 0 (getWidth b))))) env =
      eval (BinaryExpr Eq (ConstantExpr cl) (BinaryExpr Or a b)) env"
    using assms eval_Bool [of a env] eval_Bool [of b env] by (auto simp: ce_isTrue_def)
qed (use assms in auto)

lemma eqv_double_negation:
  assumes "\<not> ce_isTrue cl" "bitWidth cl = 1" "bitWidth c = 1" "ce_isFalse c"
  shows "eqv b (BinaryExpr Eq (ConstantExpr cl) (BinaryExpr Eq (ConstantExpr c) b))"
proof (rule eqvI)
  fix env
  assume "wfe (BinaryExpr Eq (ConstantExpr cl) (BinaryExpr Eq (ConstantExpr c) b))"
  then show "eval b env = eval (BinaryExpr Eq (ConstantExpr cl) (BinaryExpr Eq (ConstantExpr c) b)) env"
    using assms eval_Bool [of b env] by (auto simp: ce_isTrue_def ce_isFalse_def)
qed (use assms in auto)

text \<open>\<open>c0 = c1 + b\<close> iff \<open>c0 - c1 = b\<close>, and \<open>c0 = c1 - b\<close> iff \<open>c1 - c0 = b\<close>.\<close>

lemma eqv_move_const:
  "eqv (BinaryExpr Eq (ConstantExpr (ce_Sub cl c)) b)
       (BinaryExpr Eq (ConstantExpr cl) (BinaryExpr Add (ConstantExpr c) b))"
  "eqv (BinaryExpr Eq (ConstantExpr (ce_Sub c cl)) b)
       (BinaryExpr Eq (ConstantExpr cl) (BinaryExpr Sub (ConstantExpr c) b))"
  using take_bit_eq_shift [of "bitWidth c" "apval cl"] eval_in_width(1) [of b]
  by (auto simp: eqv_def ce_arith_ok ap_ok_def ce_Sub_def)

lemma Eq_create_const_ok:
  assumes "\<And>c. eqv (EqExpr_createPartialR co c e) (BinaryExpr Eq (ConstantExpr c) e)"
  shows "eqv (Eq_create co e (ConstantExpr c)) (BinaryExpr Eq e (ConstantExpr c))"
  using assms folds_eqv [OF folds_cmp(1)]
  by (auto simp: Eq_create_const split: option.split intro: eqv_trans [OF _ Eq_swap])

lemma EqExpr_createPartialR_ok:
  "eqv (EqExpr_createPartialR False cl r) (BinaryExpr Eq (ConstantExpr cl) r)"
proof (induction r arbitrary: cl rule: expr.induct [where ?P2.0 = "\<lambda>_. True"])
  case (SExtExpr src w)
  let ?t = "ce_ZExt cl (getWidth src)"
  have "eqv (if cl = ce_SExt ?t (bitWidth cl) then Eq_create False src (ConstantExpr ?t)
             else ConstantExpr (ce_alloc 0 1))
           (BinaryExpr Eq (ConstantExpr cl) (SExtExpr src w))"
    by (rule eqv_trans [OF _ eqv_SExt_const [OF refl]])
      (simp add: Eq_create_const_ok [OF SExtExpr.IH])
  then show ?case
    by (subst EqExpr_createPartialR.simps)
      (auto simp: Let_def EqExpr_create_ok eqv_true split: if_splits simp flip: Eq_create_const)
next
  case (ZExtExpr src w)
  let ?t = "ce_ZExt cl (getWidth src)"
  have "eqv (if cl = ce_ZExt ?t (bitWidth cl) then Eq_create False src (ConstantExpr ?t)
             else ConstantExpr (ce_alloc 0 1))
           (BinaryExpr Eq (ConstantExpr cl) (ZExtExpr src w))"
    by (rule eqv_trans [OF _ eqv_ZExt_const [OF refl]])
      (simp add: Eq_create_const_ok [OF ZExtExpr.IH])
  then show ?case
    by (subst EqExpr_createPartialR.simps)
      (auto simp: Let_def EqExpr_create_ok eqv_true split: if_splits simp flip: Eq_create_const)
next
  case (BinaryExpr rk a b)
  have "eqv (And_create (Eq_create False a (ConstantExpr (ce_alloc 0 (getWidth a))))
                        (Eq_create False b (ConstantExpr (ce_alloc 0 (getWidth b)))))
            (BinaryExpr Eq (ConstantExpr cl) (BinaryExpr Or a b))"
    if "\<not> ce_isTrue cl" "bitWidth cl = 1"
    by (rule eqv_trans [OF And_create_ok eqv_trans [OF eqv_BinaryExpr eqv_not_or [OF that]]])
      (rule Eq_create_const_ok BinaryExpr.IH)+
  then show ?case
    using eqv_trans [OF BinaryExpr.IH(2) eqv_move_const(1)] eqv_trans [OF BinaryExpr.IH(2) eqv_move_const(2)]
    by (subst EqExpr_createPartialR.simps)
      (auto simp: EqExpr_create_ok eqv_true eqv_double_negation split: option.split simp flip: Eq_create_const)
qed (auto simp: EqExpr_createPartialR.simps EqExpr_create_ok eqv_true)

lemma EqExpr_createPartial_ok:
  "eqv (EqExpr_createPartial False l cr) (BinaryExpr Eq l (ConstantExpr cr))"
  unfolding EqExpr_createPartial_def by (rule eqv_trans [OF EqExpr_createPartialR_ok Eq_swap])

lemma Eq_create_ok [create_ok]: "eqv (Eq_create False l r) (BinaryExpr Eq l r)"
  unfolding Eq_create_def
  by (rule BCREATE_R_eqv [OF folds_cmp(1) EqExpr_createPartial_ok EqExpr_createPartialR_ok EqExpr_create_ok])

lemma createIsZero_ok [create_ok]:
  "eqv (createIsZero False e) (BinaryExpr Eq e (ConstantExpr (ce_alloc 0 (getWidth e))))"
  by (simp add: createIsZero_def Eq_create_ok)

lemma Ne_create_ok [create_ok]: "eqv (Ne_create False l r) (BinaryExpr Ne l r)"
proof -
  have "eqv (Ne_create False l r) (BinaryExpr Eq (ConstantExpr (ce_alloc 0 1)) (BinaryExpr Eq l r))"
    unfolding Ne_create_def by (rule eqv_trans [OF Eq_create_ok eqv_BinaryExpr]) (auto intro: Eq_create_ok)
  also have "eqv \<dots> (BinaryExpr Ne l r)"
    by (auto simp: eqv_def)
  finally show ?thesis .
qed

end
