(* ===== verification/ExprArith.thy ===== *)
theory ExprArith
  imports ExprCreate
begin

text \<open>
  The smart constructors of the arithmetic, shift and comparison classes
  (\<open>lib/Expr/Expr.cpp\<close>): sums keep their constant on the left and are reassociated, operations
  on \<open>Bool\<close> become connectives, everything else is folded or allocated. Each is proved to denote
  the bit-vector operation of its kind.
\<close>

section \<open>Exclusive or, sums and differences\<close>

definition XorExpr_createPartialR :: "bool \<Rightarrow> apint \<Rightarrow> expr \<Rightarrow> expr" where
  "XorExpr_createPartialR co cl r =
     (if ce_isZero cl then r
      else if bitWidth cl = 1 then EqExpr_createPartial co r (ce_alloc 0 1)
      else BinaryExpr Xor (ConstantExpr cl) r)"

definition XorExpr_createPartial :: "bool \<Rightarrow> expr \<Rightarrow> apint \<Rightarrow> expr" where
  "XorExpr_createPartial co l cr = XorExpr_createPartialR co cr l"

definition XorExpr_create :: "expr \<Rightarrow> expr \<Rightarrow> expr" where
  "XorExpr_create l r = BinaryExpr Xor l r"

definition Xor_create :: "bool \<Rightarrow> expr \<Rightarrow> expr \<Rightarrow> expr" where
  "Xor_create co = BCREATE_R ce_Xor (XorExpr_createPartial co) (XorExpr_createPartialR co) XorExpr_create"

text \<open>
  \<open>AddExpr_createPartialR\<close> and \<open>SubExpr_createPartialR\<close> recurse through
  \<open>AddExpr::create\<close> and \<open>SubExpr::create\<close> with a constant first operand, written here as what
  the two methods do on it: fold a constant second operand, otherwise the partial constructor.
\<close>

fun AddExpr_createPartialR :: "bool \<Rightarrow> apint \<Rightarrow> expr \<Rightarrow> expr"
  and SubExpr_createPartialR :: "bool \<Rightarrow> apint \<Rightarrow> expr \<Rightarrow> expr" where
  "AddExpr_createPartialR co cl r =
     (if bitWidth cl = 1 then XorExpr_createPartialR co cl r
      else if ce_isZero cl then r
      else (case constLeft Add r of
              Some (k, b) \<Rightarrow>
                (case as_const b of
                   Some d \<Rightarrow> ConstantExpr (ce_Add (ce_Add cl k) d)
                 | None \<Rightarrow> AddExpr_createPartialR co (ce_Add cl k) b)
            | None \<Rightarrow>
                (case constLeft Sub r of
                   Some (k, b) \<Rightarrow>
                     (case as_const b of
                        Some d \<Rightarrow> ConstantExpr (ce_Sub (ce_Add cl k) d)
                      | None \<Rightarrow> SubExpr_createPartialR co (ce_Add cl k) b)
                 | None \<Rightarrow> BinaryExpr Add (ConstantExpr cl) r)))"
| "SubExpr_createPartialR co cl r =
     (if bitWidth cl = 1 then XorExpr_createPartialR co cl r
      else (case constLeft Add r of
              Some (k, b) \<Rightarrow>
                (case as_const b of
                   Some d \<Rightarrow> ConstantExpr (ce_Sub (ce_Sub cl k) d)
                 | None \<Rightarrow> SubExpr_createPartialR co (ce_Sub cl k) b)
            | None \<Rightarrow>
                (case constLeft Sub r of
                   Some (k, b) \<Rightarrow>
                     (case as_const b of
                        Some d \<Rightarrow> ConstantExpr (ce_Add (ce_Sub cl k) d)
                      | None \<Rightarrow> AddExpr_createPartialR co (ce_Sub cl k) b)
                 | None \<Rightarrow> BinaryExpr Sub (ConstantExpr cl) r)))"

declare AddExpr_createPartialR.simps [simp del] SubExpr_createPartialR.simps [simp del]

definition AddExpr_createPartial :: "bool \<Rightarrow> expr \<Rightarrow> apint \<Rightarrow> expr" where
  "AddExpr_createPartial co l cr = AddExpr_createPartialR co cr l"

text \<open>\<open>l - c => l + (-c)\<close>\<close>

definition SubExpr_createPartial :: "bool \<Rightarrow> expr \<Rightarrow> apint \<Rightarrow> expr" where
  "SubExpr_createPartial co l cr =
     AddExpr_createPartial co l (ce_Sub (ce_alloc 0 (bitWidth cr)) cr)"

text \<open>
  \<open>AddExpr::create(c, r)\<close>, \<open>SubExpr::create(c, r)\<close> and \<open>SubExpr::create(l, c)\<close> with a
  constant \<open>c\<close>: the outer calls of the general constructors below.
\<close>

definition Add_createL :: "bool \<Rightarrow> apint \<Rightarrow> expr \<Rightarrow> expr" where
  "Add_createL co c r =
     (case as_const r of Some d \<Rightarrow> ConstantExpr (ce_Add c d) | None \<Rightarrow> AddExpr_createPartialR co c r)"

definition Sub_createL :: "bool \<Rightarrow> apint \<Rightarrow> expr \<Rightarrow> expr" where
  "Sub_createL co c r =
     (case as_const r of Some d \<Rightarrow> ConstantExpr (ce_Sub c d) | None \<Rightarrow> SubExpr_createPartialR co c r)"

definition Sub_createR :: "bool \<Rightarrow> expr \<Rightarrow> apint \<Rightarrow> expr" where
  "Sub_createR co l c =
     (case as_const l of Some d \<Rightarrow> ConstantExpr (ce_Sub d c) | None \<Rightarrow> SubExpr_createPartial co l c)"

function AddExpr_create :: "bool \<Rightarrow> expr \<Rightarrow> expr \<Rightarrow> expr"
  and SubExpr_create :: "bool \<Rightarrow> expr \<Rightarrow> expr \<Rightarrow> expr"
  and Add_create :: "bool \<Rightarrow> expr \<Rightarrow> expr \<Rightarrow> expr"
  and Sub_create :: "bool \<Rightarrow> expr \<Rightarrow> expr \<Rightarrow> expr" where
  "AddExpr_create co l r =
     (if getWidth l = 1 then XorExpr_create l r
      else (case constLeft Add l of
        Some (k, a) \<Rightarrow> Add_createL co k (Add_create co a r)
      | None \<Rightarrow> (case constLeft Sub l of
        Some (k, a) \<Rightarrow> Add_createL co k (Sub_create co r a)
      | None \<Rightarrow> (case constLeft Add r of
        Some (k, b) \<Rightarrow> Add_createL co k (Add_create co l b)
      | None \<Rightarrow> (case constLeft Sub r of
        Some (k, b) \<Rightarrow> Add_createL co k (Sub_create co l b)
      | None \<Rightarrow> BinaryExpr Add l r)))))"
| "SubExpr_create co l r =
     (if getWidth l = 1 then XorExpr_create l r
      else if l = r then ConstantExpr (ce_alloc 0 (getWidth l))
      else (case constLeft Add l of
        Some (k, a) \<Rightarrow> Add_createL co k (Sub_create co a r)
      | None \<Rightarrow> (case constLeft Sub l of
        Some (k, a) \<Rightarrow> Sub_createL co k (Add_create co a r)
      | None \<Rightarrow> (case constLeft Add r of
        Some (k, b) \<Rightarrow> Sub_createR co (Sub_create co l b) k
      | None \<Rightarrow> (case constLeft Sub r of
        Some (k, b) \<Rightarrow> Sub_createR co (Add_create co l b) k
      | None \<Rightarrow> BinaryExpr Sub l r)))))"
| "Add_create co l r =
     (case as_const l of
        Some cl \<Rightarrow> Add_createL co cl r
      | None \<Rightarrow> (case as_const r of
                  Some cr \<Rightarrow> AddExpr_createPartial co l cr
                | None \<Rightarrow> AddExpr_create co l r))"
| "Sub_create co l r =
     (case as_const l of
        Some cl \<Rightarrow> Sub_createL co cl r
      | None \<Rightarrow> (case as_const r of
                  Some cr \<Rightarrow> SubExpr_createPartial co l cr
                | None \<Rightarrow> SubExpr_create co l r))"
  by pat_completeness auto
termination
  by (relation "measure (\<lambda>x. case x of
       Inl (Inl (co, l, r)) \<Rightarrow> 2 * (size l + size r)
     | Inl (Inr (co, l, r)) \<Rightarrow> 2 * (size l + size r)
     | Inr (Inl (co, l, r)) \<Rightarrow> 2 * (size l + size r) + 1
     | Inr (Inr (co, l, r)) \<Rightarrow> 2 * (size l + size r) + 1)")
    (auto dest!: constLeft_SomeD)

declare AddExpr_create.simps [simp del] SubExpr_create.simps [simp del]
  Add_create.simps [simp del] Sub_create.simps [simp del]

text \<open>The methods are the \<open>BCREATE_R\<close> scheme over the helpers, as the macro expands.\<close>

lemma Add_create_scheme:
  "Add_create co = BCREATE_R ce_Add (AddExpr_createPartial co) (AddExpr_createPartialR co) (AddExpr_create co)"
  by (intro ext, subst Add_create.simps)
    (simp add: BCREATE_R_def Add_createL_def split: option.split)

lemma Sub_create_scheme:
  "Sub_create co = BCREATE_R ce_Sub (SubExpr_createPartial co) (SubExpr_createPartialR co) (SubExpr_create co)"
  by (intro ext, subst Sub_create.simps)
    (simp add: BCREATE_R_def Sub_createL_def split: option.split)

lemma Add_Sub_create_const:
  "Add_create co (ConstantExpr c) r = Add_createL co c r"
  "Sub_create co (ConstantExpr c) r = Sub_createL co c r"
  "Sub_create co l (ConstantExpr c) = Sub_createR co l c"
  by (simp_all add: Add_create.simps Sub_create.simps Sub_createR_def Sub_createL_def split: option.split)

section \<open>Correctness of sums and differences\<close>

lemma eqv_same_operands:
  assumes "isCmpKind k = isCmpKind k'"
    and "\<And>env. wfe l \<Longrightarrow> wfe r \<Longrightarrow> getWidth l = getWidth r \<Longrightarrow>
      sem_bin k (getWidth l) (eval l env) (eval r env) = sem_bin k' (getWidth l) (eval l env) (eval r env)"
  shows "eqv (BinaryExpr k l r) (BinaryExpr k' l r)"
  by (rule eqvI) (use assms in simp_all)

lemma xor_Bool:
  "in_width (Suc 0) a \<Longrightarrow> in_width (Suc 0) b \<Longrightarrow> a XOR b = take_bit (Suc 0) (a + b)"
  "in_width (Suc 0) a \<Longrightarrow> in_width (Suc 0) b \<Longrightarrow> a XOR b = take_bit (Suc 0) (a - b)"
  by (auto simp: in_width_Bool mask_eq_exp_minus_1)

lemma eqv_Bool_Xor:
  assumes w: "getWidth l = 1"
  shows "eqv (BinaryExpr Xor l r) (BinaryExpr Add l r)" "eqv (BinaryExpr Xor l r) (BinaryExpr Sub l r)"
proof -
  have "in_width (Suc 0) (eval l env)" "in_width (Suc 0) (eval r env)"
    if "wfe l" "wfe r" "getWidth l = getWidth r" for env
    using that w eval_in_width(1) [of l env] eval_in_width(1) [of r env] by auto
  note xor = xor_Bool [OF this]
  show "eqv (BinaryExpr Xor l r) (BinaryExpr Add l r)"
    using w xor(1) by (auto intro!: eqv_same_operands simp del: take_bit_Suc_0)
  show "eqv (BinaryExpr Xor l r) (BinaryExpr Sub l r)"
    using w xor(2) by (auto intro!: eqv_same_operands simp del: take_bit_Suc_0)
qed

lemma XorExpr_createPartialR_ok:
  "eqv (XorExpr_createPartialR False cl r) (BinaryExpr Xor (ConstantExpr cl) r)"
proof -
  have "eqv (BinaryExpr Eq r (ConstantExpr (ce_alloc 0 1))) (BinaryExpr Xor (ConstantExpr cl) r)"
    if "\<not> ce_isZero cl" "bitWidth cl = 1"
  proof (rule eqvI)
    fix env
    assume "wfe (BinaryExpr Xor (ConstantExpr cl) r)"
    then show "eval (BinaryExpr Eq r (ConstantExpr (ce_alloc 0 1))) env = eval (BinaryExpr Xor (ConstantExpr cl) r) env"
      using that eval_Bool [of r env] by (auto simp: ce_isZero_def ap_ok_def in_width_Bool)
  qed (use that in auto)
  then show ?thesis
    using eqv_trans [OF EqExpr_createPartial_ok]
    by (auto simp: XorExpr_createPartialR_def) (auto simp: ce_isZero_def eqv_def)
qed

lemma Xor_create_ok [create_ok]: "eqv (Xor_create False l r) (BinaryExpr Xor l r)"
  unfolding Xor_create_def
  by (rule BCREATE_R_eqv [OF folds_arith(10)])
    (auto simp: XorExpr_createPartial_def XorExpr_create_def
      intro: XorExpr_createPartialR_ok eqv_trans [OF XorExpr_createPartialR_ok Xor_swap])

text \<open>The reassociations of the code, as identities of truncated sums.\<close>

lemma eqv_reassoc_const:
  "eqv (BinaryExpr Add (ConstantExpr (ce_Add c k)) b) (BinaryExpr Add (ConstantExpr c) (BinaryExpr Add (ConstantExpr k) b))"
  "eqv (BinaryExpr Sub (ConstantExpr (ce_Add c k)) b) (BinaryExpr Add (ConstantExpr c) (BinaryExpr Sub (ConstantExpr k) b))"
  "eqv (BinaryExpr Sub (ConstantExpr (ce_Sub c k)) b) (BinaryExpr Sub (ConstantExpr c) (BinaryExpr Add (ConstantExpr k) b))"
  "eqv (BinaryExpr Add (ConstantExpr (ce_Sub c k)) b) (BinaryExpr Sub (ConstantExpr c) (BinaryExpr Sub (ConstantExpr k) b))"
  by (auto simp: eqv_def ce_arith_ok ce_Add_def ce_Sub_def take_bit_eq_mod mod_simps algebra_simps)

lemma eqv_reassoc:
  "eqv (BinaryExpr Add k (BinaryExpr Add a r)) (BinaryExpr Add (BinaryExpr Add k a) r)"
  "eqv (BinaryExpr Add k (BinaryExpr Sub r a)) (BinaryExpr Add (BinaryExpr Sub k a) r)"
  "eqv (BinaryExpr Add k (BinaryExpr Add l b)) (BinaryExpr Add l (BinaryExpr Add k b))"
  "eqv (BinaryExpr Add k (BinaryExpr Sub l b)) (BinaryExpr Add l (BinaryExpr Sub k b))"
  "eqv (BinaryExpr Add k (BinaryExpr Sub a r)) (BinaryExpr Sub (BinaryExpr Add k a) r)"
  "eqv (BinaryExpr Sub k (BinaryExpr Add a r)) (BinaryExpr Sub (BinaryExpr Sub k a) r)"
  "eqv (BinaryExpr Sub (BinaryExpr Sub l b) k) (BinaryExpr Sub l (BinaryExpr Add k b))"
  "eqv (BinaryExpr Sub (BinaryExpr Add l b) k) (BinaryExpr Sub l (BinaryExpr Sub k b))"
  by (auto simp: eqv_def take_bit_eq_mod mod_simps algebra_simps)

lemma eqv_Sub_const:
  "eqv (BinaryExpr Add (ConstantExpr (ce_Sub (ce_alloc 0 (bitWidth c)) c)) l) (BinaryExpr Sub l (ConstantExpr c))"
  by (auto simp: eqv_def ap_ok_def ce_Sub_def) (simp add: take_bit_eq_mod mod_simps)

lemma AddExpr_createPartialR_ok:
  "eqv (AddExpr_createPartialR False cl r) (BinaryExpr Add (ConstantExpr cl) r)"
  "eqv (SubExpr_createPartialR False cl r) (BinaryExpr Sub (ConstantExpr cl) r)"
proof (induction "False" cl r and "False" cl r rule: AddExpr_createPartialR_SubExpr_createPartialR.induct)
  case (1 cl r)
  have zero: "ce_isZero cl \<Longrightarrow> eqv r (BinaryExpr Add (ConstantExpr cl) r)"
    using eval_in_width(1) [of r] by (auto simp: ce_isZero_def eqv_def)
  show ?case
    using "1" zero eqv_trans [OF XorExpr_createPartialR_ok eqv_Bool_Xor(1)]
      eqv_trans [OF _ eqv_reassoc_const(1)] eqv_trans [OF _ eqv_reassoc_const(2)]
      folds_eqv [OF folds_arith(1)] folds_eqv [OF folds_arith(2)]
    by (subst AddExpr_createPartialR.simps) (auto split: option.split dest!: constLeft_SomeD)
next
  case (2 cl r)
  show ?case
    using "2" eqv_trans [OF XorExpr_createPartialR_ok eqv_Bool_Xor(2)]
      eqv_trans [OF _ eqv_reassoc_const(3)] eqv_trans [OF _ eqv_reassoc_const(4)]
      folds_eqv [OF folds_arith(1)] folds_eqv [OF folds_arith(2)]
    by (subst SubExpr_createPartialR.simps) (auto split: option.split dest!: constLeft_SomeD)
qed

lemma Add_createL_ok: "eqv (Add_createL False c r) (BinaryExpr Add (ConstantExpr c) r)"
  and Sub_createL_ok: "eqv (Sub_createL False c r) (BinaryExpr Sub (ConstantExpr c) r)"
  using AddExpr_createPartialR_ok folds_eqv [OF folds_arith(1)] folds_eqv [OF folds_arith(2)]
  by (auto simp: Add_createL_def Sub_createL_def split: option.split)

lemma AddExpr_createPartial_ok: "eqv (AddExpr_createPartial False l c) (BinaryExpr Add l (ConstantExpr c))"
  unfolding AddExpr_createPartial_def by (rule eqv_trans [OF AddExpr_createPartialR_ok(1) Add_swap])

lemma SubExpr_createPartial_ok: "eqv (SubExpr_createPartial False l c) (BinaryExpr Sub l (ConstantExpr c))"
  unfolding SubExpr_createPartial_def AddExpr_createPartial_def
  by (rule eqv_trans [OF AddExpr_createPartialR_ok(1) eqv_Sub_const])

lemma Sub_createR_ok: "eqv (Sub_createR False l c) (BinaryExpr Sub l (ConstantExpr c))"
  using SubExpr_createPartial_ok folds_eqv [OF folds_arith(2)]
  by (auto simp: Sub_createR_def split: option.split)

lemma Add_createL_trans:
  "eqv x x' \<Longrightarrow> eqv (BinaryExpr Add (ConstantExpr c) x') e \<Longrightarrow> eqv (Add_createL False c x) e"
  and Sub_createL_trans:
  "eqv x x' \<Longrightarrow> eqv (BinaryExpr Sub (ConstantExpr c) x') e \<Longrightarrow> eqv (Sub_createL False c x) e"
  and Sub_createR_trans:
  "eqv x x' \<Longrightarrow> eqv (BinaryExpr Sub x' (ConstantExpr c)) e \<Longrightarrow> eqv (Sub_createR False x c) e"
  by (blast intro: eqv_trans [OF Add_createL_ok] eqv_trans [OF Sub_createL_ok]
      eqv_trans [OF Sub_createR_ok] eqv_trans [OF eqv_BinaryExpr])+

lemma Add_Sub_create_ok:
  "eqv (AddExpr_create False l r) (BinaryExpr Add l r) \<and>
   eqv (SubExpr_create False l r) (BinaryExpr Sub l r) \<and>
   eqv (Add_create False l r) (BinaryExpr Add l r) \<and>
   eqv (Sub_create False l r) (BinaryExpr Sub l r)"
proof (induction "size l + size r" arbitrary: l r rule: less_induct)
  case less
  then have add: "eqv (Add_create False l' r') (BinaryExpr Add l' r')"
    and sub: "eqv (Sub_create False l' r') (BinaryExpr Sub l' r')"
    if "size l' + size r' < size l + size r" for l' r'
    using that by blast+
  note IH = Add_createL_trans [OF add eqv_reassoc(1)] Add_createL_trans [OF sub eqv_reassoc(2)]
    Add_createL_trans [OF add eqv_reassoc(3)] Add_createL_trans [OF sub eqv_reassoc(4)]
    Add_createL_trans [OF sub eqv_reassoc(5)] Sub_createL_trans [OF add eqv_reassoc(6)]
    Sub_createR_trans [OF sub eqv_reassoc(7)] Sub_createR_trans [OF add eqv_reassoc(8)]
  have 1: "eqv (AddExpr_create False l r) (BinaryExpr Add l r)"
    by (subst AddExpr_create.simps)
      (auto simp: XorExpr_create_def eqv_Bool_Xor IH split: option.split dest!: constLeft_SomeD)
  have "eqv (ConstantExpr (ce_alloc 0 (getWidth l))) (BinaryExpr Sub l l)"
    by (auto simp: eqv_def getWidth_pos)
  then have 2: "eqv (SubExpr_create False l r) (BinaryExpr Sub l r)"
    by (subst SubExpr_create.simps)
      (auto simp: XorExpr_create_def eqv_Bool_Xor IH split: option.split dest!: constLeft_SomeD)
  show ?case
    using 1 2
    by (auto simp: Add_create.simps [of _ l r] Sub_create.simps [of _ l r] Add_createL_ok Sub_createL_ok
        AddExpr_createPartial_ok SubExpr_createPartial_ok split: option.split)
qed

lemma Add_create_ok [create_ok]: "eqv (Add_create False l r) (BinaryExpr Add l r)"
  and Sub_create_ok [create_ok]: "eqv (Sub_create False l r) (BinaryExpr Sub l r)"
  using Add_Sub_create_ok by blast+

section \<open>Products\<close>

definition MulExpr_createPartialR :: "apint \<Rightarrow> expr \<Rightarrow> expr" where
  "MulExpr_createPartialR cl r =
     (if bitWidth cl = 1 then AndExpr_createPartialR cl r
      else if ce_isOne cl then r
      else if ce_isZero cl then ConstantExpr cl
      else BinaryExpr Mul (ConstantExpr cl) r)"

definition MulExpr_createPartial :: "expr \<Rightarrow> apint \<Rightarrow> expr" where
  "MulExpr_createPartial l cr = MulExpr_createPartialR cr l"

definition MulExpr_create :: "expr \<Rightarrow> expr \<Rightarrow> expr" where
  "MulExpr_create l r = (if getWidth l = 1 then BinaryExpr And l r else BinaryExpr Mul l r)"

definition Mul_create :: "expr \<Rightarrow> expr \<Rightarrow> expr" where
  "Mul_create = BCREATE_R ce_Mul MulExpr_createPartial MulExpr_createPartialR MulExpr_create"

section \<open>Divisions\<close>

text \<open>On \<open>Bool\<close> the divisor must be 1, so the quotient is \<open>l\<close> and the remainder 0.\<close>

definition UDivExpr_create :: "expr \<Rightarrow> expr \<Rightarrow> expr" where
  "UDivExpr_create l r = (if getWidth l = 1 then l else BinaryExpr UDiv l r)"

definition SDivExpr_create :: "expr \<Rightarrow> expr \<Rightarrow> expr" where
  "SDivExpr_create l r = (if getWidth l = 1 then l else BinaryExpr SDiv l r)"

definition URemExpr_create :: "expr \<Rightarrow> expr \<Rightarrow> expr" where
  "URemExpr_create l r =
     (if getWidth l = 1 then ConstantExpr (ce_alloc 0 1) else BinaryExpr URem l r)"

definition SRemExpr_create :: "expr \<Rightarrow> expr \<Rightarrow> expr" where
  "SRemExpr_create l r =
     (if getWidth l = 1 then ConstantExpr (ce_alloc 0 1) else BinaryExpr SRem l r)"

definition UDiv_create :: "expr \<Rightarrow> expr \<Rightarrow> expr" where
  "UDiv_create = BCREATE ce_UDiv UDivExpr_create"

definition SDiv_create :: "expr \<Rightarrow> expr \<Rightarrow> expr" where
  "SDiv_create = BCREATE ce_SDiv SDivExpr_create"

definition URem_create :: "expr \<Rightarrow> expr \<Rightarrow> expr" where
  "URem_create = BCREATE ce_URem URemExpr_create"

definition SRem_create :: "expr \<Rightarrow> expr \<Rightarrow> expr" where
  "SRem_create = BCREATE ce_SRem SRemExpr_create"

section \<open>Shifts\<close>

definition ShlExpr_create :: "bool \<Rightarrow> expr \<Rightarrow> expr \<Rightarrow> expr" where
  "ShlExpr_create co l r =
     (if getWidth l = 1 then And_create l (createIsZero co r) else BinaryExpr Shl l r)"

definition LShrExpr_create :: "bool \<Rightarrow> expr \<Rightarrow> expr \<Rightarrow> expr" where
  "LShrExpr_create co l r =
     (if getWidth l = 1 then And_create l (createIsZero co r) else BinaryExpr LShr l r)"

definition AShrExpr_create :: "expr \<Rightarrow> expr \<Rightarrow> expr" where
  "AShrExpr_create l r = (if getWidth l = 1 then l else BinaryExpr AShr l r)"

definition Shl_create :: "bool \<Rightarrow> expr \<Rightarrow> expr \<Rightarrow> expr" where
  "Shl_create co = BCREATE ce_Shl (ShlExpr_create co)"

definition LShr_create :: "bool \<Rightarrow> expr \<Rightarrow> expr \<Rightarrow> expr" where
  "LShr_create co = BCREATE ce_LShr (LShrExpr_create co)"

definition AShr_create :: "expr \<Rightarrow> expr \<Rightarrow> expr" where
  "AShr_create = BCREATE ce_AShr AShrExpr_create"

section \<open>Comparisons\<close>

definition UltExpr_create :: "bool \<Rightarrow> expr \<Rightarrow> expr \<Rightarrow> expr" where
  "UltExpr_create co l r =
     (if getWidth l = 1 then And_create (createIsZero co l) r else BinaryExpr Ult l r)"

definition UleExpr_create :: "bool \<Rightarrow> expr \<Rightarrow> expr \<Rightarrow> expr" where
  "UleExpr_create co l r =
     (if getWidth l = 1 then Or_create (createIsZero co l) r else BinaryExpr Ule l r)"

definition SltExpr_create :: "bool \<Rightarrow> expr \<Rightarrow> expr \<Rightarrow> expr" where
  "SltExpr_create co l r =
     (if getWidth l = 1 then And_create l (createIsZero co r) else BinaryExpr Slt l r)"

definition SleExpr_create :: "bool \<Rightarrow> expr \<Rightarrow> expr \<Rightarrow> expr" where
  "SleExpr_create co l r =
     (if getWidth l = 1 then Or_create l (createIsZero co r) else BinaryExpr Sle l r)"

definition Ult_create :: "bool \<Rightarrow> expr \<Rightarrow> expr \<Rightarrow> expr" where
  "Ult_create co = BCREATE ce_Ult (UltExpr_create co)"

definition Ule_create :: "bool \<Rightarrow> expr \<Rightarrow> expr \<Rightarrow> expr" where
  "Ule_create co = BCREATE ce_Ule (UleExpr_create co)"

definition Slt_create :: "bool \<Rightarrow> expr \<Rightarrow> expr \<Rightarrow> expr" where
  "Slt_create co = BCREATE ce_Slt (SltExpr_create co)"

definition Sle_create :: "bool \<Rightarrow> expr \<Rightarrow> expr \<Rightarrow> expr" where
  "Sle_create co = BCREATE ce_Sle (SleExpr_create co)"

definition Ugt_create :: "bool \<Rightarrow> expr \<Rightarrow> expr \<Rightarrow> expr" where
  "Ugt_create co l r = Ult_create co r l"

definition Uge_create :: "bool \<Rightarrow> expr \<Rightarrow> expr \<Rightarrow> expr" where
  "Uge_create co l r = Ule_create co r l"

definition Sgt_create :: "bool \<Rightarrow> expr \<Rightarrow> expr \<Rightarrow> expr" where
  "Sgt_create co l r = Slt_create co r l"

definition Sge_create :: "bool \<Rightarrow> expr \<Rightarrow> expr \<Rightarrow> expr" where
  "Sge_create co l r = Sle_create co r l"

section \<open>Correctness of products, shifts and comparisons\<close>

lemma eqv_Bool_And: "getWidth l = 1 \<Longrightarrow> eqv (BinaryExpr And l r) (BinaryExpr Mul l r)"
proof (rule eqv_same_operands)
  fix env
  assume "getWidth l = 1" "wfe l" "wfe r" "getWidth l = getWidth r"
  then have "eval l env \<in> {0, 1}" "eval r env \<in> {0, 1}"
    using eval_Bool [of l env] eval_Bool [of r env] by auto
  then show "sem_bin And (getWidth l) (eval l env) (eval r env) = sem_bin Mul (getWidth l) (eval l env) (eval r env)"
    using \<open>getWidth l = 1\<close> by auto
qed simp

lemma Mul_const_simps:
  "ce_isOne c \<Longrightarrow> eqv r (BinaryExpr Mul (ConstantExpr c) r)"
  "ce_isZero c \<Longrightarrow> eqv (ConstantExpr c) (BinaryExpr Mul (ConstantExpr c) r)"
  using eval_in_width(1) [of r] by (auto simp: eqv_def ce_isOne_def ce_isZero_def)

lemma MulExpr_createPartialR_ok: "eqv (MulExpr_createPartialR c r) (BinaryExpr Mul (ConstantExpr c) r)"
  using eqv_trans [OF eqv_trans [OF AndExpr_createPartial_ok And_swap] eqv_Bool_And, of c r]
  by (auto simp: MulExpr_createPartialR_def AndExpr_createPartialR_def Mul_const_simps)

lemma Mul_create_ok [create_ok]: "eqv (Mul_create l r) (BinaryExpr Mul l r)"
  unfolding Mul_create_def
  by (rule BCREATE_R_eqv [OF folds_arith(3)])
    (auto simp: MulExpr_createPartial_def MulExpr_create_def eqv_Bool_And
      intro: MulExpr_createPartialR_ok eqv_trans [OF MulExpr_createPartialR_ok Mul_swap])

text \<open>On \<open>Bool\<close>: a shift by 1 gives 0 (or the sign), and the comparisons are connectives.\<close>

lemma eqv_BoolI:
  assumes "getWidth l = 1"
    and "wfe l \<Longrightarrow> wfe r \<Longrightarrow> getWidth r = 1 \<Longrightarrow> wfe e \<and> getWidth e = 1"
    and "\<And>env. eval l env \<in> {0, 1} \<Longrightarrow> eval r env \<in> {0, 1} \<Longrightarrow> getWidth r = 1 \<Longrightarrow>
      eval e env = sem_bin k 1 (eval l env) (eval r env)"
  shows "eqv e (BinaryExpr k l r)"
proof (rule eqvI)
  assume wf: "wfe (BinaryExpr k l r)"
  then show "wfe e" "getWidth e = getWidth (BinaryExpr k l r)"
    using assms(1,2) by auto
  fix env
  have "eval l env \<in> {0, 1}" "eval r env \<in> {0, 1}"
    using wf assms(1) eval_Bool [of l env] eval_Bool [of r env] by auto
  then show "eval e env = eval (BinaryExpr k l r) env"
    using wf assms(1,3) by auto
qed

lemma to_signed_Bool_simps [simp]: "to_signed (Suc 0) 0 = 0" "to_signed (Suc 0) 1 = - 1"
  by (simp_all add: to_signed_Bool)

lemma eqv_Bool_connective:
  assumes "getWidth l = 1"
  defines "z e \<equiv> BinaryExpr Eq e (ConstantExpr (ce_alloc 0 (getWidth e)))"
  shows "eqv (BinaryExpr And l (z r)) (BinaryExpr Shl l r)" "eqv (BinaryExpr And l (z r)) (BinaryExpr LShr l r)"
    "eqv l (BinaryExpr AShr l r)"
    "eqv (BinaryExpr And (z l) r) (BinaryExpr Ult l r)" "eqv (BinaryExpr Or (z l) r) (BinaryExpr Ule l r)"
    "eqv (BinaryExpr And l (z r)) (BinaryExpr Slt l r)" "eqv (BinaryExpr Or l (z r)) (BinaryExpr Sle l r)"
  using assms(1) by (auto intro!: eqv_BoolI simp: z_def)

lemmas connective_trans =
  eqv_trans [OF And_create_ok eqv_trans [OF eqv_BinaryExpr [OF eqv_refl createIsZero_ok]]]
  eqv_trans [OF And_create_ok eqv_trans [OF eqv_BinaryExpr [OF createIsZero_ok eqv_refl]]]
  eqv_trans [OF Or_create_ok eqv_trans [OF eqv_BinaryExpr [OF eqv_refl createIsZero_ok]]]
  eqv_trans [OF Or_create_ok eqv_trans [OF eqv_BinaryExpr [OF createIsZero_ok eqv_refl]]]

lemma shift_create_ok [create_ok]:
  "eqv (Shl_create False l r) (BinaryExpr Shl l r)"
  "eqv (LShr_create False l r) (BinaryExpr LShr l r)"
  "eqv (AShr_create l r) (BinaryExpr AShr l r)"
  unfolding Shl_create_def LShr_create_def AShr_create_def
  by (auto intro!: BCREATE_eqv folds_shift connective_trans(1) eqv_Bool_connective
      simp: ShlExpr_create_def LShrExpr_create_def AShrExpr_create_def)

lemma cmp_create_ok [create_ok]:
  "eqv (Ult_create False l r) (BinaryExpr Ult l r)"
  "eqv (Ule_create False l r) (BinaryExpr Ule l r)"
  "eqv (Slt_create False l r) (BinaryExpr Slt l r)"
  "eqv (Sle_create False l r) (BinaryExpr Sle l r)"
  unfolding Ult_create_def Ule_create_def Slt_create_def Sle_create_def
  using connective_trans(2) [OF eqv_Bool_connective(4)] connective_trans(4) [OF eqv_Bool_connective(5)]
    connective_trans(1) [OF eqv_Bool_connective(6)] connective_trans(3) [OF eqv_Bool_connective(7)]
  by (auto intro!: BCREATE_eqv folds_cmp
      simp: UltExpr_create_def UleExpr_create_def SltExpr_create_def SleExpr_create_def)

lemma eqv_cmp_swap:
  "eqv (BinaryExpr Ult r l) (BinaryExpr Ugt l r)" "eqv (BinaryExpr Ule r l) (BinaryExpr Uge l r)"
  "eqv (BinaryExpr Slt r l) (BinaryExpr Sgt l r)" "eqv (BinaryExpr Sle r l) (BinaryExpr Sge l r)"
  by (simp_all add: eqv_def)

lemma cmp_swapped_create_ok [create_ok]:
  "eqv (Ugt_create False l r) (BinaryExpr Ugt l r)"
  "eqv (Uge_create False l r) (BinaryExpr Uge l r)"
  "eqv (Sgt_create False l r) (BinaryExpr Sgt l r)"
  "eqv (Sge_create False l r) (BinaryExpr Sge l r)"
  unfolding Ugt_create_def Uge_create_def Sgt_create_def Sge_create_def
  by (rule eqv_trans [OF cmp_create_ok(1) eqv_cmp_swap(1)] eqv_trans [OF cmp_create_ok(2) eqv_cmp_swap(2)]
      eqv_trans [OF cmp_create_ok(3) eqv_cmp_swap(3)] eqv_trans [OF cmp_create_ok(4) eqv_cmp_swap(4)])+

section \<open>Correctness of divisions\<close>

lemma div_helper_ok:
  "eqv (UDivExpr_create l r) (BinaryExpr UDiv l r)"
  "eqv (SDivExpr_create l r) (BinaryExpr SDiv l r)"
  "eqv (URemExpr_create l r) (BinaryExpr URem l r)"
  "eqv (SRemExpr_create l r) (BinaryExpr SRem l r)"
  by (auto intro!: eqv_BoolI
      simp: UDivExpr_create_def SDivExpr_create_def URemExpr_create_def SRemExpr_create_def
        signed_divide_int_def signed_modulo_int_def)

lemma div_create_ok [create_ok]:
  "eqv (UDiv_create l r) (BinaryExpr UDiv l r)"
  "eqv (SDiv_create l r) (BinaryExpr SDiv l r)"
  "eqv (URem_create l r) (BinaryExpr URem l r)"
  "eqv (SRem_create l r) (BinaryExpr SRem l r)"
  unfolding UDiv_create_def SDiv_create_def URem_create_def SRem_create_def
  by (auto intro!: BCREATE_eqv folds_arith div_helper_ok)

end
