(* ===== verification/ExprStruct.thy ===== *)
theory ExprStruct
  imports ExprArith
begin

text \<open>
  The smart constructors of the structural classes (\<open>lib/Expr/Expr.cpp\<close>): selection,
  concatenation and extraction (which call each other: an extract of a concatenation is pushed
  into the parts, and two contiguous extracts are merged), extensions, reads through an update
  list; then the dispatchers \<open>rebuild\<close> and \<open>createFromKind\<close>.
\<close>

section \<open>Negation and selection\<close>

definition Not_create :: "expr \<Rightarrow> expr" where
  "Not_create e = (case as_const e of Some c \<Rightarrow> ConstantExpr (ce_Not c) | None \<Rightarrow> NotExpr e)"

definition NotOptimized_create :: "expr \<Rightarrow> expr" where
  "NotOptimized_create src = NotOptimizedExpr src"

definition Select_create :: "bool \<Rightarrow> expr \<Rightarrow> expr \<Rightarrow> expr \<Rightarrow> expr" where
  "Select_create co c t f =
     (case as_const c of
        Some CE \<Rightarrow> if ce_isTrue CE then t else f
      | None \<Rightarrow>
          if t = f then t
          else if getWidth t = 1 then
            (case as_const t of
               Some CE \<Rightarrow> if ce_isTrue CE then Or_create c f else And_create (createIsZero co c) f
             | None \<Rightarrow>
                 (case as_const f of
                    Some CE \<Rightarrow> if ce_isTrue CE then Or_create (createIsZero co c) t else And_create c t
                  | None \<Rightarrow> SelectExpr c t f))
          else SelectExpr c t f)"

section \<open>Concatenation and extraction\<close>

fun as_extract :: "expr \<Rightarrow> (expr \<times> nat \<times> nat) option" where
  "as_extract (ExtractExpr e off w) = Some (e, off, w)"
| "as_extract _ = None"

lemma as_extract_Some [simp]: "as_extract e = Some (x, off, w) \<longleftrightarrow> e = ExtractExpr x off w"
  by (cases e) auto

text \<open>
  The offset \<open>w - right->getWidth() + off\<close> of the source is computed in wrapping unsigned
  arithmetic; in the branch where it is used its value is \<open>w + off - getWidth r\<close>.
\<close>

function Extract_create :: "expr \<Rightarrow> nat \<Rightarrow> nat \<Rightarrow> expr"
  and Concat_create :: "expr \<Rightarrow> expr \<Rightarrow> expr" where
  "Extract_create e off w =
     (if w = getWidth e then e
      else (case e of
         ConstantExpr c \<Rightarrow> ConstantExpr (ce_Extract c off w)
       | ConcatExpr l r \<Rightarrow>
           if getWidth r \<le> off then Extract_create l (off - getWidth r) w
           else if off + w \<le> getWidth r then Extract_create r off w
           else Concat_create (Extract_create l 0 (w + off - getWidth r))
                              (Extract_create r off (getWidth r - off))
       | _ \<Rightarrow> ExtractExpr e off w))"
| "Concat_create l r =
     (case (as_const l, as_const r) of
        (Some lCE, Some rCE) \<Rightarrow> ConstantExpr (ce_Concat lCE rCE)
      | _ \<Rightarrow>
          (case (as_extract l, as_extract r) of
             (Some (el, offl, wl), Some (er, offr, wr)) \<Rightarrow>
               if el = er \<and> offr + wr = offl then Extract_create el offr (getWidth l + getWidth r)
               else ConcatExpr l r
           | _ \<Rightarrow> ConcatExpr l r))"
  by pat_completeness auto

text \<open>
  Termination: \<open>Concat_create\<close> re-extracts from the expression under its left extract. When the
  call comes from \<open>Extract_create\<close> that expression is no larger than a part of the
  concatenation, which is what the following fact about the calls in the domain says.
\<close>

definition under_extract :: "expr \<Rightarrow> nat" where
  "under_extract e = (case as_extract e of Some (x, _) \<Rightarrow> Suc (size x) | None \<Rightarrow> 0)"

lemma under_extract_less: "under_extract e \<le> size e"
  by (cases e) (auto simp: under_extract_def)

lemma Extract_create_under:
  "Extract_create_Concat_create_dom (Inl (e, off, w)) \<Longrightarrow> under_extract (Extract_create e off w) \<le> Suc (size e)"
  "Extract_create_Concat_create_dom (Inr (l, r)) \<Longrightarrow> under_extract (Concat_create l r) \<le> under_extract l"
proof (induction e off w and l r rule: Extract_create_Concat_create.pinduct)
  case (1 e off w)
  show ?case
    using 1 under_extract_less [of e]
    by (cases e) (force simp: Extract_create.psimps under_extract_def)+
next
  case (2 l r)
  then show ?case
    by (auto simp: Concat_create.psimps under_extract_def split: option.splits)
qed

termination Extract_create
  apply (relation "measure (\<lambda>x. case x of
       Inl (e, off, w) \<Rightarrow> 2 * size e + 1
     | Inr (l, r) \<Rightarrow> 2 * under_extract l)")
  subgoal by simp
  subgoal by simp
  subgoal by simp
  subgoal by simp
  subgoal by simp
  subgoal for e off w l r using Extract_create_under(1) [of l 0 "w + off - getWidth r"] by simp
  subgoal by (auto simp: under_extract_def dest!: sym [of "Some _"])
  subgoal by (auto simp: under_extract_def dest!: sym [of "Some _"])
  done

declare Extract_create.simps [simp del] Concat_create.simps [simp del]

text \<open>\<open>createN\<close>, \<open>create4\<close>, \<open>create8\<close>: chains unbalanced to the right; \<open>createN\<close> wants a kid.\<close>

fun Concat_createN :: "expr list \<Rightarrow> expr option" where
  "Concat_createN [] = None"
| "Concat_createN [k] = Some k"
| "Concat_createN (k # ks) = map_option (Concat_create k) (Concat_createN ks)"

definition Concat_create4 :: "expr \<Rightarrow> expr \<Rightarrow> expr \<Rightarrow> expr \<Rightarrow> expr" where
  "Concat_create4 k1 k2 k3 k4 = Concat_create k1 (Concat_create k2 (Concat_create k3 k4))"

definition Concat_create8 ::
  "expr \<Rightarrow> expr \<Rightarrow> expr \<Rightarrow> expr \<Rightarrow> expr \<Rightarrow> expr \<Rightarrow> expr \<Rightarrow> expr \<Rightarrow> expr" where
  "Concat_create8 k1 k2 k3 k4 k5 k6 k7 k8 =
     Concat_create k1 (Concat_create k2 (Concat_create k3 (Concat_create k4 (Concat_create4 k5 k6 k7 k8))))"

section \<open>Extensions\<close>

definition ZExt_create :: "expr \<Rightarrow> nat \<Rightarrow> expr" where
  "ZExt_create e w =
     (let kBits = getWidth e
      in if w = kBits then e
         else if w < kBits then Extract_create e 0 w
         else (case as_const e of Some c \<Rightarrow> ConstantExpr (ce_ZExt c w) | None \<Rightarrow> ZExtExpr e w))"

definition SExt_create :: "expr \<Rightarrow> nat \<Rightarrow> expr" where
  "SExt_create e w =
     (let kBits = getWidth e
      in if w = kBits then e
         else if w < kBits then Extract_create e 0 w
         else (case as_const e of Some c \<Rightarrow> ConstantExpr (ce_SExt c w) | None \<Rightarrow> SExtExpr e w))"

section \<open>Reads\<close>

text \<open>
  The scan of the update list from the most recent write: a write to the same index is found, a
  write whose index may or may not be the same stops the scan, or all writes are elsewhere.
\<close>

datatype scan = Found expr | SymbolicWrite | Exhausted

fun Read_scan :: "bool \<Rightarrow> expr \<Rightarrow> updates \<Rightarrow> scan" where
  "Read_scan co ix UNil = Exhausted"
| "Read_scan co ix (UpdateNode i v n) =
     (case as_const (Eq_create co ix i) of
        Some CE \<Rightarrow> if ce_isTrue CE then Found v else Read_scan co ix n
      | None \<Rightarrow> SymbolicWrite)"

text \<open>
  \<open>ReadExpr::create\<close>. The read of the constant contents asserts an index of at most 64 bits;
  a wider one (no array has such a domain) is allocated as it is.
\<close>

definition Read_create :: "bool \<Rightarrow> array \<Rightarrow> updates \<Rightarrow> expr \<Rightarrow> expr" where
  "Read_create co a u ix =
     (case Read_scan co ix u of
        Found v \<Rightarrow> v
      | SymbolicWrite \<Rightarrow> ReadExpr a u ix
      | Exhausted \<Rightarrow>
          if isConstantArray a then
            (case as_const ix of
               Some CE \<Rightarrow>
                 (case ce_getZExtValue 64 CE of
                    Some concreteIndex \<Rightarrow>
                      if concreteIndex < int (arr_size a)
                      then ConstantExpr (constantValues a ! nat concreteIndex)
                      else ReadExpr a u ix
                  | None \<Rightarrow> ReadExpr a u ix)
             | None \<Rightarrow> ReadExpr a u ix)
          else ReadExpr a u ix)"

text \<open>\<open>Expr::createTempRead\<close>: a little endian read at offset 0; \<open>None\<close> is the invalid width.\<close>

definition temp_byte :: "bool \<Rightarrow> array \<Rightarrow> nat \<Rightarrow> expr" where
  "temp_byte co a i = Read_create co a UNil (ConstantExpr (ce_alloc (int i) 32))"

definition createTempRead :: "bool \<Rightarrow> array \<Rightarrow> nat \<Rightarrow> expr option" where
  "createTempRead co a w =
     (let rd = temp_byte co a
      in if w = 1 then Some (ZExt_create (rd 0) 1)
         else if w = 8 then Some (rd 0)
         else if w = 16 then Some (Concat_create (rd 1) (rd 0))
         else if w = 32 then Some (Concat_create4 (rd 3) (rd 2) (rd 1) (rd 0))
         else if w = 64 then
           Some (Concat_create8 (rd 7) (rd 6) (rd 5) (rd 4) (rd 3) (rd 2) (rd 1) (rd 0))
         else None)"

definition createImplies :: "bool \<Rightarrow> expr \<Rightarrow> expr \<Rightarrow> expr" where
  "createImplies co hyp conc = Or_create (createIsZero co hyp) conc"

section \<open>Dispatch on the kind\<close>

fun Binary_create :: "bool \<Rightarrow> bkind \<Rightarrow> expr \<Rightarrow> expr \<Rightarrow> expr" where
  "Binary_create co Add = Add_create co"
| "Binary_create co Sub = Sub_create co"
| "Binary_create co Mul = Mul_create"
| "Binary_create co UDiv = UDiv_create"
| "Binary_create co SDiv = SDiv_create"
| "Binary_create co URem = URem_create"
| "Binary_create co SRem = SRem_create"
| "Binary_create co And = And_create"
| "Binary_create co Or = Or_create"
| "Binary_create co Xor = Xor_create co"
| "Binary_create co Shl = Shl_create co"
| "Binary_create co LShr = LShr_create co"
| "Binary_create co AShr = AShr_create"
| "Binary_create co Eq = Eq_create co"
| "Binary_create co Ne = Ne_create co"
| "Binary_create co Ult = Ult_create co"
| "Binary_create co Ule = Ule_create co"
| "Binary_create co Ugt = Ugt_create co"
| "Binary_create co Uge = Uge_create co"
| "Binary_create co Slt = Slt_create co"
| "Binary_create co Sle = Sle_create co"
| "Binary_create co Sgt = Sgt_create co"
| "Binary_create co Sge = Sge_create co"

text \<open>
  \<open>rebuild(kids)\<close>: the same class over new kids. A constant has no kids to rebuild from; the
  source asserts and returns the constant.
\<close>

fun rebuild :: "bool \<Rightarrow> expr \<Rightarrow> expr list \<Rightarrow> expr option" where
  "rebuild co (NotOptimizedExpr e) [k] = Some (NotOptimized_create k)"
| "rebuild co (ReadExpr a u i) [k] = Some (Read_create co a u k)"
| "rebuild co (SelectExpr c t f) [k0, k1, k2] = Some (Select_create co k0 k1 k2)"
| "rebuild co (ConcatExpr l r) [k0, k1] = Some (Concat_create k0 k1)"
| "rebuild co (ExtractExpr e off w) [k] = Some (Extract_create k off w)"
| "rebuild co (ZExtExpr e w) [k] = Some (ZExt_create k w)"
| "rebuild co (SExtExpr e w) [k] = Some (SExt_create k w)"
| "rebuild co (NotExpr e) [k] = Some (Not_create k)"
| "rebuild co (BinaryExpr b l r) [k0, k1] = Some (Binary_create co b k0 k1)"
| "rebuild co _ _ = None"

text \<open>
  \<open>Expr::createFromKind\<close>. The kinds it has no case for (\<open>Constant\<close>, \<open>Extract\<close>, \<open>Read\<close>, and
  \<open>Not\<close>, which reaches the default) and argument lists of another shape fail an assertion.
\<close>

datatype ekind =
    KConstant | KNotOptimized | KRead | KSelect | KConcat | KExtract | KZExt | KSExt | KNot
  | KBinary bkind

datatype createArg = ArgExpr expr | ArgWidth nat

fun createFromKind :: "bool \<Rightarrow> ekind \<Rightarrow> createArg list \<Rightarrow> expr option" where
  "createFromKind co KNotOptimized [ArgExpr e] = Some (NotOptimized_create e)"
| "createFromKind co KSelect [ArgExpr c, ArgExpr t, ArgExpr f] = Some (Select_create co c t f)"
| "createFromKind co KConcat [ArgExpr l, ArgExpr r] = Some (Concat_create l r)"
| "createFromKind co KZExt [ArgExpr e, ArgWidth w] = Some (ZExt_create e w)"
| "createFromKind co KSExt [ArgExpr e, ArgWidth w] = Some (SExt_create e w)"
| "createFromKind co (KBinary k) [ArgExpr l, ArgExpr r] = Some (Binary_create co k l r)"
| "createFromKind co _ _ = None"

primrec getKind :: "expr \<Rightarrow> ekind" where
  "getKind (ConstantExpr c) = KConstant"
| "getKind (NotOptimizedExpr e) = KNotOptimized"
| "getKind (ReadExpr a u i) = KRead"
| "getKind (SelectExpr c t f) = KSelect"
| "getKind (ConcatExpr l r) = KConcat"
| "getKind (ExtractExpr e off w) = KExtract"
| "getKind (ZExtExpr e w) = KZExt"
| "getKind (SExtExpr e w) = KSExt"
| "getKind (NotExpr e) = KNot"
| "getKind (BinaryExpr k l r) = KBinary k"

section \<open>Correctness\<close>

lemma Not_create_ok [create_ok]: "eqv (Not_create e) (NotExpr e)"
  by (auto simp: Not_create_def eqv_def ce_Not_def split: option.splits)

lemma eval_bits: "wfe e \<Longrightarrow> bit (eval e env) n \<Longrightarrow> n < getWidth e"
  using eval_in_width(1) [of e env] by (metis bit_take_bit_iff in_width_eq)

lemma Extract_eqv_self: "w = getWidth e \<Longrightarrow> eqv e (ExtractExpr e off w)"
  using eval_in_width(1) [of e] by (auto simp: eqv_def)

lemma Extract_eqv_const: "eqv (ConstantExpr (ce_Extract c off w)) (ExtractExpr (ConstantExpr c) off w)"
  by (auto simp: eqv_def ce_Extract_eq)

lemma Extract_eqv_left:
  assumes "getWidth r \<le> off"
  shows "eqv (ExtractExpr l (off - getWidth r) w) (ExtractExpr (ConcatExpr l r) off w)"
proof (rule eqvI)
  fix env assume wf: "wfe (ExtractExpr (ConcatExpr l r) off w)"
  then have "\<not> bit (eval r env) (off + n)" for n
    using assms eval_bits [of r env "off + n"] by auto
  then show "eval (ExtractExpr l (off - getWidth r) w) env = eval (ExtractExpr (ConcatExpr l r) off w) env"
    using assms by (auto intro!: bit_eqI simp: bit_simps)
qed (use assms in auto)

lemma Extract_eqv_right:
  assumes "off + w \<le> getWidth r"
  shows "eqv (ExtractExpr r off w) (ExtractExpr (ConcatExpr l r) off w)"
  by (rule eqvI) (use assms in \<open>auto intro!: bit_eqI simp: bit_simps\<close>)

lemma Extract_eqv_both:
  assumes "off < getWidth r" "getWidth r < off + w"
  shows "eqv (ConcatExpr (ExtractExpr l 0 (w + off - getWidth r)) (ExtractExpr r off (getWidth r - off)))
             (ExtractExpr (ConcatExpr l r) off w)"
proof (rule eqvI)
  fix env assume wf: "wfe (ExtractExpr (ConcatExpr l r) off w)"
  have r: "bit (eval r env) (off + n) \<Longrightarrow> off + n < getWidth r" for n
    using wf eval_bits [of r env "off + n"] by auto
  have eq: "n - (getWidth r - off) = off + n - getWidth r" for n
    using assms by simp
  show "eval (ConcatExpr (ExtractExpr l 0 (w + off - getWidth r)) (ExtractExpr r off (getWidth r - off))) env =
      eval (ExtractExpr (ConcatExpr l r) off w) env"
  proof (rule bit_eqI)
    fix n
    have "n < w \<longleftrightarrow> getWidth r - off \<le> n \<and> off + n - getWidth r < w + off - getWidth r \<or> n < getWidth r - off"
      using assms by arith
    then show "bit (eval (ConcatExpr (ExtractExpr l 0 (w + off - getWidth r)) (ExtractExpr r off (getWidth r - off))) env) n =
        bit (eval (ExtractExpr (ConcatExpr l r) off w) env) n"
      using assms r [of n] by (auto simp: bit_simps eq)
  qed
qed (use assms in auto)

lemma Concat_eqv_contiguous:
  assumes "offr + wr = offl"
  shows "eqv (ExtractExpr e offr (wl + wr)) (ConcatExpr (ExtractExpr e offl wl) (ExtractExpr e offr wr))"
  by (rule eqvI) (use assms in \<open>auto intro!: bit_eqI simp: bit_simps ac_simps\<close>)

lemma Concat_eqv_const:
  "eqv (ConstantExpr (ce_Concat l r)) (ConcatExpr (ConstantExpr l) (ConstantExpr r))"
  by (auto simp: eqv_def ce_Concat_eq intro: in_width_concat)

lemma Extract_eqv_both_trans:
  "eqv e (ConcatExpr x y) \<Longrightarrow> eqv x (ExtractExpr l 0 (w + off - getWidth r)) \<Longrightarrow>
   eqv y (ExtractExpr r off (getWidth r - off)) \<Longrightarrow> \<not> getWidth r \<le> off \<Longrightarrow> \<not> off + w \<le> getWidth r \<Longrightarrow>
   eqv e (ExtractExpr (ConcatExpr l r) off w)"
  by (rule eqv_trans [OF _ eqv_trans [OF eqv_ConcatExpr Extract_eqv_both]]) simp_all

lemma Extract_Concat_create_ok:
  "eqv (Extract_create e off w) (ExtractExpr e off w)"
  "eqv (Concat_create l r) (ConcatExpr l r)"
proof (induction e off w and l r rule: Extract_create_Concat_create.induct)
  case (1 e off w)
  show ?case
  proof (cases e)
    case (ConcatExpr l r)
    show ?thesis
    proof (cases "w = getWidth e")
      case False
      note IH = 1 [OF False ConcatExpr]
      consider "getWidth r \<le> off" | "\<not> getWidth r \<le> off" "off + w \<le> getWidth r"
        | "\<not> getWidth r \<le> off" "\<not> off + w \<le> getWidth r"
        by blast
      then show ?thesis
      proof cases
        case 1
        with False ConcatExpr show ?thesis
          by (simp add: Extract_create.simps [of "ConcatExpr l r"] eqv_trans [OF IH(1) Extract_eqv_left])
      next
        case 2
        with False ConcatExpr show ?thesis
          by (simp add: Extract_create.simps [of "ConcatExpr l r"] eqv_trans [OF IH(2) Extract_eqv_right])
      next
        case 3
        with False ConcatExpr show ?thesis
          by (simp add: Extract_create.simps [of "ConcatExpr l r"] Extract_eqv_both_trans [OF IH(5) IH(3) IH(4)])
      qed
    qed (simp add: Extract_create.simps Extract_eqv_self)
  qed (auto simp: Extract_create.simps Extract_eqv_self Extract_eqv_const)
next
  case (2 l r)
  then show ?case
    using eqv_trans [OF _ Concat_eqv_contiguous]
    by (subst Concat_create.simps) (auto simp: Concat_eqv_const split: option.split)
qed

lemmas Extract_create_ok [create_ok] = Extract_Concat_create_ok(1)
lemmas Concat_create_ok [create_ok] = Extract_Concat_create_ok(2)

text \<open>Extensions truncate when the new width is smaller.\<close>

lemma ZExt_create_value:
  assumes "wfe e" "0 < w"
  shows "wfe (ZExt_create e w)" "getWidth (ZExt_create e w) = w"
    "eval (ZExt_create e w) env = take_bit w (eval e env)"
proof -
  have "eqv (Extract_create e 0 w) (ExtractExpr e 0 w)"
    by (rule Extract_create_ok)
  then show "wfe (ZExt_create e w)" "getWidth (ZExt_create e w) = w"
    "eval (ZExt_create e w) env = take_bit w (eval e env)"
    using assms eval_in_width(1) [OF assms(1), of env]
    by (auto simp: ZExt_create_def Let_def eqv_def ce_ZExt_def ap_ok_def split: option.split)
qed

lemma to_signed_trunc: "w < v \<Longrightarrow> take_bit w (to_signed v a) = take_bit w a"
  by (simp add: to_signed_def take_bit_signed_take_bit)

lemma SExt_create_value:
  assumes "wfe e" "0 < w"
  shows "wfe (SExt_create e w)" "getWidth (SExt_create e w) = w"
    "eval (SExt_create e w) env = take_bit w (to_signed (getWidth e) (eval e env))"
proof -
  have "eqv (Extract_create e 0 w) (ExtractExpr e 0 w)"
    by (rule Extract_create_ok)
  then show "wfe (SExt_create e w)" "getWidth (SExt_create e w) = w"
    "eval (SExt_create e w) env = take_bit w (to_signed (getWidth e) (eval e env))"
    using assms eval_in_width(1) [OF assms(1), of env] getWidth_pos [OF assms(1)]
    by (auto simp: SExt_create_def Let_def eqv_def ce_SExt_def ap_ok_def to_signed_trunc split: option.split)
qed

lemma cast_create_ok [create_ok]:
  "eqv (ZExt_create e w) (ZExtExpr e w)" "eqv (SExt_create e w) (SExtExpr e w)"
  using ZExt_create_value [of e w] SExt_create_value [of e w] getWidth_pos [of e]
  by (auto simp: eqv_def)

lemma eqv_Select_BoolI:
  assumes "getWidth t = 1"
    and "wfe (SelectExpr c t f) \<Longrightarrow> wfe e \<and> getWidth e = 1"
    and "\<And>env. wfe (SelectExpr c t f) \<Longrightarrow> eval c env \<in> {0, 1} \<Longrightarrow> eval t env \<in> {0, 1} \<Longrightarrow>
      eval f env \<in> {0, 1} \<Longrightarrow> eval e env = (if eval c env = 1 then eval t env else eval f env)"
  shows "eqv e (SelectExpr c t f)"
proof (rule eqvI)
  fix env assume wf: "wfe (SelectExpr c t f)"
  then have "eval c env \<in> {0, 1}" "eval t env \<in> {0, 1}" "eval f env \<in> {0, 1}"
    using assms(1) eval_Bool [of c env] eval_Bool [of t env] eval_Bool [of f env] by auto
  then show "eval e env = eval (SelectExpr c t f) env"
    using assms(3) wf by simp
qed (use assms(1,2) in auto)

lemma eqv_Select_Bool:
  fixes c t f
  defines "z e \<equiv> BinaryExpr Eq e (ConstantExpr (ce_alloc 0 (getWidth e)))"
  assumes "getWidth t = 1"
  shows "t = ConstantExpr CE \<Longrightarrow> ce_isTrue CE \<Longrightarrow> eqv (BinaryExpr Or c f) (SelectExpr c t f)"
    "t = ConstantExpr CE \<Longrightarrow> \<not> ce_isTrue CE \<Longrightarrow> eqv (BinaryExpr And (z c) f) (SelectExpr c t f)"
    "f = ConstantExpr CE \<Longrightarrow> ce_isTrue CE \<Longrightarrow> eqv (BinaryExpr Or (z c) t) (SelectExpr c t f)"
    "f = ConstantExpr CE \<Longrightarrow> \<not> ce_isTrue CE \<Longrightarrow> eqv (BinaryExpr And c t) (SelectExpr c t f)"
  using assms(2) by (auto intro!: eqv_Select_BoolI simp: z_def ce_isTrue_def)

lemma Select_create_ok [create_ok]: "eqv (Select_create False c t f) (SelectExpr c t f)"
proof -
  have const: "eqv (if ce_isTrue CE then t else f) (SelectExpr (ConstantExpr CE) t f)" for CE
    by (auto simp: eqv_def ce_isTrue_def ap_ok_def in_width_Bool)
  have same: "eqv t (SelectExpr c t t)"
    by (simp add: eqv_def)
  show ?thesis
    using const same
    by (auto simp: Select_create_def split: option.split
        intro: eqv_trans [OF Or_create_ok eqv_Select_Bool(1)] connective_trans(2) [OF eqv_Select_Bool(2)]
          connective_trans(4) [OF eqv_Select_Bool(3)] eqv_trans [OF And_create_ok eqv_Select_Bool(4)])
qed

section \<open>Correctness of reads\<close>

lemma Read_scan_cases:
  assumes "wfe ix" "getWidth ix = arr_domain a"
  shows "wfu u a \<Longrightarrow>
    (case Read_scan False ix u of
       Found v \<Rightarrow> wfe v \<and> getWidth v = arr_range a \<and> eval v env = eval_upd u env a (eval ix env)
     | SymbolicWrite \<Rightarrow> True
     | Exhausted \<Rightarrow> eval_upd u env a (eval ix env) = initial env a (eval ix env))"
proof (induction u rule: updates.induct [where ?P1.0 = "\<lambda>_. True"])
  case (UpdateNode i w n)
  have "eqv (Eq_create False ix i) (BinaryExpr Eq ix i)"
    by (rule Eq_create_ok)
  then have "eval (Eq_create False ix i) env = of_bool (eval ix env = eval i env)"
    "wfe (Eq_create False ix i)" "getWidth (Eq_create False ix i) = 1"
    using UpdateNode.prems assms by (auto simp: eqv_def)
  with UpdateNode show ?case
    by (auto split: option.split scan.splits simp: ce_isTrue_def)
qed simp_all

lemma Read_scan_ok:
  assumes "array_ok a" "wfu u a" "wfe ix" "getWidth ix = arr_domain a"
  shows "Read_scan False ix u = Found v \<Longrightarrow>
      wfe v \<and> getWidth v = arr_range a \<and> eval v env = eval_upd u env a (eval ix env)"
    and "Read_scan False ix u = Exhausted \<Longrightarrow> eval_upd u env a (eval ix env) = initial env a (eval ix env)"
  using Read_scan_cases [OF assms(3,4,2), of env] by simp_all

lemma Read_create_ok [create_ok]: "eqv (Read_create False a u ix) (ReadExpr a u ix)"
proof (cases "wfe (ReadExpr a u ix)")
  case False
  then show ?thesis
    unfolding eqv_def by blast
next
  case True
  then have ok: "array_ok a" "wfu u a" "wfe ix" "getWidth ix = arr_domain a"
    by auto
  show ?thesis
  proof (cases "Read_scan False ix u")
    case (Found v)
    then show ?thesis
      using Read_scan_ok(1) [OF ok] by (auto simp: Read_create_def eqv_def)
  next
    case SymbolicWrite
    then show ?thesis
      by (simp add: Read_create_def)
  next
    case Exhausted
    have const: "eqv (ConstantExpr (constantValues a ! nat i)) (ReadExpr a u ix)"
      if "isConstantArray a" "as_const ix = Some CE" "ce_getZExtValue 64 CE = Some i" "i < int (arr_size a)"
      for CE i
    proof -
      have i: "i = apval CE" "0 \<le> i"
        using that ok(3) in_width_mono [of "bitWidth CE" "apval CE" 64]
        by (auto simp: ce_getZExtValue_def ap_ok_def in_width_def split: if_splits)
      then have "nat i < length (constantValues a)"
        using that ok(1) by (auto simp: array_ok_def isConstantArray_def)
      then have "ap_ok (constantValues a ! nat i)" "bitWidth (constantValues a ! nat i) = arr_range a"
        using ok(1) by (auto simp: array_ok_def list_all_length)
      then show ?thesis
        using that i Read_scan_ok(2) [OF ok Exhausted] by (auto simp: eqv_def initial_def)
    qed
    show ?thesis
      using Exhausted const by (auto simp: Read_create_def split: option.split)
  qed
qed

section \<open>Correctness of the dispatchers\<close>

fun isDivKind :: "bkind \<Rightarrow> bool" where
  "isDivKind UDiv = True" | "isDivKind SDiv = True" | "isDivKind URem = True" | "isDivKind SRem = True"
| "isDivKind _ = False"

lemma Binary_create_ok [create_ok]: "eqv (Binary_create False k l r) (BinaryExpr k l r)"
  by (cases k) (simp_all add: create_ok)

lemma createImplies_ok:
  assumes "wfe p" "wfe q" "getWidth p = 1" "getWidth q = 1"
  shows "eval (createImplies False p q) env = (if eval p env = 1 then eval q env else 1)"
proof -
  have "eqv (createImplies False p q) (BinaryExpr Or (BinaryExpr Eq p (ConstantExpr (ce_alloc 0 (getWidth p)))) q)"
    unfolding createImplies_def by (rule eqv_trans [OF Or_create_ok eqv_BinaryExpr [OF createIsZero_ok eqv_refl]])
  then show ?thesis
    using assms eval_Bool [of p env] eval_Bool [of q env] by (auto simp: eqv_def)
qed

text \<open>\<open>with_kids e ks\<close> is \<open>e\<close> with its kids replaced, without any simplification.\<close>

fun with_kids :: "expr \<Rightarrow> expr list \<Rightarrow> expr" where
  "with_kids (NotOptimizedExpr e) [k] = NotOptimizedExpr k"
| "with_kids (ReadExpr a u i) [k] = ReadExpr a u k"
| "with_kids (SelectExpr c t f) [k0, k1, k2] = SelectExpr k0 k1 k2"
| "with_kids (ConcatExpr l r) [k0, k1] = ConcatExpr k0 k1"
| "with_kids (ExtractExpr e off w) [k] = ExtractExpr k off w"
| "with_kids (ZExtExpr e w) [k] = ZExtExpr k w"
| "with_kids (SExtExpr e w) [k] = SExtExpr k w"
| "with_kids (NotExpr e) [k] = NotExpr k"
| "with_kids (BinaryExpr b l r) [k0, k1] = BinaryExpr b k0 k1"
| "with_kids e ks = e"

lemma with_kids_self [simp]: "with_kids e (kids e) = e"
  by (cases e) auto

lemma rebuild_ok: "rebuild False e ks = Some e' \<Longrightarrow> eqv e' (with_kids e ks)"
  by (cases "(False, e, ks)" rule: rebuild.cases) (auto simp: create_ok NotOptimized_create_def)

lemma rebuild_defined: "length ks = length (kids e) \<Longrightarrow> kids e \<noteq> [] \<Longrightarrow> rebuild co e ks \<noteq> None"
  by (cases e) (auto simp: length_Suc_conv)

section \<open>Properties\<close>

text \<open>
  Bytes of two arrays with 32-bit indices, for the examples below.
\<close>

definition example_array :: "nat \<Rightarrow> array" where
  "example_array p = \<lparr>arr_ptr = p, arr_name = ''a'', arr_size = 4, arr_domain = 32, arr_range = 8,
     constantValues = []\<rparr>"

definition example_byte :: "nat \<Rightarrow> int \<Rightarrow> expr" where
  "example_byte p i = ReadExpr (example_array p) UNil (ConstantExpr (ce_alloc i 32))"

lemma example_ok [simp]:
  "array_ok (example_array p)" "arr_range (example_array p) = 8" "arr_domain (example_array p) = 32"
  "arr_size (example_array p) = 4" "isConstantArray (example_array p) = False"
  "constantValues (example_array p) = []" "isSymbolicArray (example_array p)"
  by (simp_all add: example_array_def array_ok_def isConstantArray_def isSymbolicArray_def)

lemma example_byte_ok [simp]: "wfe (example_byte p i)" "getWidth (example_byte p i) = 8"
  by (simp_all add: example_byte_def ap_ok_def)



text \<open>
  C9: extracting bits and concatenating, with the merging of adjacent extracts and the pushing of
  an extract into a concatenation, give the bits \<open>off\<close> to \<open>off + w - 1\<close> and the two operands
  side by side; the two mutually recursive constructors terminate (they are total functions).
\<close>

theorem extract_concat_create_value:
  assumes "wfe l" "wfe r" "0 < w" "off + w \<le> getWidth l + getWidth r"
  shows "eval (Concat_create l r) env = push_bit (getWidth r) (eval l env) OR eval r env \<and>
    eval (Extract_create (Concat_create l r) off w) env =
      take_bit w (drop_bit off (push_bit (getWidth r) (eval l env) OR eval r env)) \<and>
    wfe (Extract_create (Concat_create l r) off w) \<and> getWidth (Extract_create (Concat_create l r) off w) = w"
proof -
  have c: "wfe (Concat_create l r)" "getWidth (Concat_create l r) = getWidth l + getWidth r"
    "eval (Concat_create l r) env = push_bit (getWidth r) (eval l env) OR eval r env"
    using eqvD [OF Concat_create_ok, of l r] assms by simp_all
  then show ?thesis
    using eqvD [OF Extract_create_ok, of "Concat_create l r" off w] assms by simp
qed

theorem extract_concat_create_value_witness:
  "\<forall>env. eval (Extract_create (Concat_create (example_byte 0 1) (example_byte 0 0)) 4 8) env =
     take_bit 8 (drop_bit 4 (push_bit 8 (eval (example_byte 0 1) env) OR eval (example_byte 0 0) env))"
proof
  fix env
  show "eval (Extract_create (Concat_create (example_byte 0 1) (example_byte 0 0)) 4 8) env =
     take_bit 8 (drop_bit 4 (push_bit 8 (eval (example_byte 0 1) env) OR eval (example_byte 0 0) env))"
    using extract_concat_create_value [of "example_byte 0 1" "example_byte 0 0" 8 4 env]
    by simp
qed

text \<open>
  a selection evaluates to the branch its condition chooses, including the Boolean selections
  that the constructor turns into connectives.
\<close>

theorem select_create_value:
  assumes "wfe c" "wfe t" "wfe f" "getWidth c = 1" "getWidth t = getWidth f"
  shows "wfe (Select_create False c t f) \<and> getWidth (Select_create False c t f) = getWidth t \<and>
    eval (Select_create False c t f) env = (if eval c env = 1 then eval t env else eval f env)"
  using eqvD [OF Select_create_ok, of c t f] assms by simp

theorem select_create_value_witness:
  "\<forall>env. eval (Select_create False (Eq_create False (example_byte 0 0) (example_byte 0 1))
      (ConstantExpr (ce_alloc 1 1)) (ConstantExpr (ce_alloc 0 1))) env =
     of_bool (eval (example_byte 0 0) env = eval (example_byte 0 1) env)"
proof
  fix env
  show "eval (Select_create False (Eq_create False (example_byte 0 0) (example_byte 0 1))
      (ConstantExpr (ce_alloc 1 1)) (ConstantExpr (ce_alloc 0 1))) env =
     of_bool (eval (example_byte 0 0) env = eval (example_byte 0 1) env)"
    using select_create_value [of "Eq_create False (example_byte 0 0) (example_byte 0 1)"
      "ConstantExpr (ce_alloc 1 1)" "ConstantExpr (ce_alloc 0 1)" env]
    eqvD [OF Eq_create_ok, of "example_byte 0 0" "example_byte 0 1"]
    by simp
qed

text \<open>
  a read through an update list gives the value of the most recent write to its index, and the
  initial content of the array when no write is to it, whatever the scan of the list decides.
\<close>

theorem read_create_value:
  assumes "array_ok a" "wfu u a" "wfe ix" "getWidth ix = arr_domain a"
  shows "wfe (Read_create False a u ix) \<and> getWidth (Read_create False a u ix) = arr_range a \<and>
    eval (Read_create False a u ix) env = eval_upd u env a (eval ix env)"
  using eqvD [OF Read_create_ok, of a u ix] assms by simp

theorem read_create_value_witness:
  "\<forall>env. eval (Read_create False (example_array 0)
      (UpdateNode (ConstantExpr (ce_alloc 2 32)) (ConstantExpr (ce_alloc 7 8)) UNil)
      (ConstantExpr (ce_alloc 2 32))) env = 7"
proof
  fix env
  show "eval (Read_create False (example_array 0)
      (UpdateNode (ConstantExpr (ce_alloc 2 32)) (ConstantExpr (ce_alloc 7 8)) UNil)
      (ConstantExpr (ce_alloc 2 32))) env = 7"
    using read_create_value [of "example_array 0"
      "UpdateNode (ConstantExpr (ce_alloc 2 32)) (ConstantExpr (ce_alloc 7 8)) UNil"
      "ConstantExpr (ce_alloc 2 32)" env]
    by (simp add: ap_ok_def in_width_def)
qed

end
