(* ===== verification/Visitor.thy ===== *)
theory Visitor
  imports ExprStruct
begin

text \<open>
  \<open>ExprVisitor\<close> (\<open>lib/Expr/ExprVisitor.cpp\<close>): the traversal that offers every node to virtual
  methods before and after its kids and rebuilds a node when a kid changed. The virtual methods
  of a visitor are the fields of a record; a method that visits on its own receives the
  traversal as a function. The hash of visited nodes caches results of a pure traversal and is
  left out. A visitor may visit the rebuilt node again, so the traversal has a fuel and returns
  \<open>None\<close> when it runs out.
\<close>

section \<open>The traversal\<close>

datatype action = SkipChildren | DoChildren | ChangeTo expr

record visitor =
  vExpr :: "expr \<Rightarrow> action"
  vKind :: "(expr \<Rightarrow> expr option) \<Rightarrow> expr \<Rightarrow> action option"
  vPost :: "expr \<Rightarrow> action"
  vRecursive :: bool

fun visit :: "bool \<Rightarrow> visitor \<Rightarrow> nat \<Rightarrow> expr \<Rightarrow> expr option" where
  "visit co v 0 e = None"
| "visit co v (Suc n) e =
     (if as_const e \<noteq> None then Some e
      else (case vExpr v e of
        SkipChildren \<Rightarrow> Some e
      | ChangeTo x \<Rightarrow> Some x
      | DoChildren \<Rightarrow> (case vKind v (visit co v n) e of
          None \<Rightarrow> None
        | Some SkipChildren \<Rightarrow> Some e
        | Some (ChangeTo x) \<Rightarrow> Some x
        | Some DoChildren \<Rightarrow> (case opt_list (map (visit co v n) (kids e)) of
            None \<Rightarrow> None
          | Some ks \<Rightarrow>
              (case (if ks \<noteq> kids e
                     then (case rebuild co e ks of
                             None \<Rightarrow> None
                           | Some e1 \<Rightarrow> if vRecursive v then visit co v n e1 else Some e1)
                     else Some e) of
                 None \<Rightarrow> None
               | Some e2 \<Rightarrow>
                   if as_const e2 \<noteq> None then Some e2
                   else (case vPost v e2 of ChangeTo x \<Rightarrow> Some x | _ \<Rightarrow> Some e2))))))"

text \<open>The default methods of the class.\<close>

definition default_visitor :: visitor where
  "default_visitor = \<lparr>vExpr = \<lambda>e. DoChildren, vKind = \<lambda>f e. Some DoChildren,
     vPost = \<lambda>e. SkipChildren, vRecursive = False\<rparr>"

section \<open>Equal values under some assignments\<close>

definition eqv_on :: "(env \<Rightarrow> bool) \<Rightarrow> expr \<Rightarrow> expr \<Rightarrow> bool" where
  "eqv_on P e e' \<longleftrightarrow> (wfe e' \<longrightarrow> wfe e \<and> getWidth e = getWidth e' \<and>
     (\<forall>env. P env \<longrightarrow> eval e env = eval e' env))"

lemma eqv_on_refl [simp, intro]: "eqv_on P e e"
  by (simp add: eqv_on_def)

lemma eqv_on_trans: "eqv_on P e e' \<Longrightarrow> eqv_on P e' e'' \<Longrightarrow> eqv_on P e e''"
  by (simp add: eqv_on_def)

lemma eqv_eqv_on: "eqv e e' \<Longrightarrow> eqv_on P e e'"
  by (simp add: eqv_def eqv_on_def)

lemma eqv_on_True: "eqv_on (\<lambda>_. True) = eqv"
  by (simp add: fun_eq_iff eqv_def eqv_on_def)

lemma eqv_onD:
  assumes "eqv_on P e e'" "wfe e'"
  shows "wfe e" "getWidth e = getWidth e'" "P env \<Longrightarrow> eval e env = eval e' env"
  using assms by (simp_all add: eqv_on_def)

lemma eqv_on_with_kids: "list_all2 (eqv_on P) ks (kids e) \<Longrightarrow> eqv_on P (with_kids e ks) e"
  by (cases e) (auto simp: list_all2_Cons2 eqv_on_def)

lemma opt_list_map_Some:
  "opt_list (map f xs) = Some ys \<longleftrightarrow> list_all2 (\<lambda>y x. f x = Some y) ys xs"
proof (induction xs arbitrary: ys)
  case (Cons x xs)
  then show ?case
    by (cases "f x") (auto simp: list_all2_Cons2)
qed auto

lemma opt_list_map_None: "opt_list (map f xs) = None \<longleftrightarrow> (\<exists>x \<in> set xs. f x = None)"
proof (induction xs)
  case (Cons x xs)
  then show ?case
    by (cases "f x") auto
qed auto

section \<open>A contract for visitors, and what it gives\<close>

text \<open>
  A visitor is sound for the assignments \<open>P\<close> when each of its methods only replaces an
  expression by one of equal value under \<open>P\<close>; a method that visits may rely on its visits.
\<close>

locale sound_visitor =
  fixes v :: visitor and P :: "env \<Rightarrow> bool"
  assumes vExpr_ok: "vExpr v e = ChangeTo x \<Longrightarrow> eqv_on P x e"
    and vKind_ok: "(\<And>d d'. f d = Some d' \<Longrightarrow> eqv_on P d' d) \<Longrightarrow> vKind v f e = Some (ChangeTo x) \<Longrightarrow> eqv_on P x e"
    and vPost_ok: "vPost v e = ChangeTo x \<Longrightarrow> eqv_on P x e"
begin

lemma visit_rebuild_ok:
  assumes "\<And>d d'. f d = Some d' \<Longrightarrow> eqv_on P d' d"
    and "opt_list (map f (kids e)) = Some ks" "rebuild False e ks = Some e1"
  shows "eqv_on P e1 e"
proof -
  have "list_all2 (eqv_on P) ks (kids e)"
    using assms(1,2) by (auto simp: opt_list_map_Some elim!: list_all2_mono)
  then show ?thesis
    using eqv_on_trans [OF eqv_eqv_on [OF rebuild_ok [OF assms(3)]] eqv_on_with_kids] by blast
qed

lemma visit_ok: "visit False v n e = Some e' \<Longrightarrow> eqv_on P e' e"
proof (induction n arbitrary: e e')
  case (Suc n)
  have post: "eqv_on P x e" if "eqv_on P e2 e" "vPost v e2 = ChangeTo x" for x e2
    using vPost_ok [OF that(2)] that(1) by (rule eqv_on_trans)
  have rebuild: "eqv_on P e2 e"
    if "opt_list (map (visit False v n) (kids e)) = Some ks" "rebuild False e ks = Some e1"
      "e2 = e1 \<or> visit False v n e1 = Some e2" for ks e1 e2
    using that visit_rebuild_ok [OF Suc.IH that(1,2)] eqv_on_trans [OF Suc.IH] by blast
  from Suc.prems show ?case
    by (auto split: if_splits action.splits option.splits
        intro: vExpr_ok vKind_ok [OF Suc.IH] post rebuild)
qed simp

end

text \<open>
  A visitor terminates structurally when it does not revisit rebuilt nodes and its methods
  visit only smaller expressions.
\<close>

lemma kids_smaller: "k \<in> set (kids e) \<Longrightarrow> size k < size e"
  by (cases e) auto

lemma wfe_kids: "wfe e \<Longrightarrow> k \<in> set (kids e) \<Longrightarrow> wfe k"
  by (cases e) auto

locale structural_visitor = sound_visitor +
  assumes not_recursive: "\<not> vRecursive v"
    and vKind_total: "wfe e \<Longrightarrow> (\<And>d d'. f d = Some d' \<Longrightarrow> eqv_on P d' d) \<Longrightarrow>
      (\<And>d. wfe d \<Longrightarrow> size d < size e \<Longrightarrow> \<exists>d'. f d = Some d') \<Longrightarrow> \<exists>act. vKind v f e = Some act"
begin

lemma visit_returns: "wfe e \<Longrightarrow> size e < n \<Longrightarrow> \<exists>e'. visit False v n e = Some e'"
proof (induction n arbitrary: e)
  case (Suc n)
  then have sub: "\<exists>d'. visit False v n d = Some d'" if "wfe d" "size d < size e" for d
    using that by fastforce
  have "\<exists>act. vKind v (visit False v n) e = Some act"
    by (rule vKind_total) (use Suc.prems(1) visit_ok sub in blast)+
  then obtain act where act: "vKind v (visit False v n) e = Some act"
    by blast
  have "\<exists>d'. visit False v n k = Some d'" if "k \<in> set (kids e)" for k
    using that sub [OF wfe_kids [OF Suc.prems(1)] kids_smaller] by blast
  then have "opt_list (map (visit False v n) (kids e)) \<noteq> None"
    by (simp add: opt_list_map_None)
  then obtain ks where ks: "opt_list (map (visit False v n) (kids e)) = Some ks"
    by blast
  then have "length ks = length (kids e)"
    by (auto simp: opt_list_map_Some dest: list_all2_lengthD)
  then have "ks \<noteq> kids e \<Longrightarrow> rebuild False e ks \<noteq> None"
    by (intro rebuild_defined) auto
  with act ks not_recursive show ?case
    by (auto split: action.split option.split)
qed simp

end

end
