(* ===== verification/ExprFold.thy ===== *)
theory ExprFold
  imports ExprStruct
begin

text \<open>
  What the smart constructors of \<open>lib/Expr/Expr.cpp\<close> do to the shape of an expression: they leave
  no operation on constants alone unfolded (\<open>folded\<close>), and they never duplicate a read or a
  not optimized operand (\<open>atoms\<close> does not grow). The visitor that substitutes constants for
  expressions terminates because of both facts.
\<close>

section \<open>Folded expressions and their atoms\<close>

primrec folded :: "expr \<Rightarrow> bool" and folded_upd :: "updates \<Rightarrow> bool" where
  "folded (ConstantExpr c) = True"
| "folded (NotOptimizedExpr e) = folded e"
| "folded (ReadExpr a u i) = (folded_upd u \<and> folded i)"
| "folded (SelectExpr c t f) = (folded c \<and> folded t \<and> folded f \<and> as_const c = None)"
| "folded (ConcatExpr l r) = (folded l \<and> folded r \<and> (as_const l = None \<or> as_const r = None))"
| "folded (ExtractExpr e off w) = (folded e \<and> as_const e = None)"
| "folded (ZExtExpr e w) = (folded e \<and> as_const e = None)"
| "folded (SExtExpr e w) = (folded e \<and> as_const e = None)"
| "folded (NotExpr e) = (folded e \<and> as_const e = None)"
| "folded (BinaryExpr k l r) = (folded l \<and> folded r \<and> (as_const l = None \<or> as_const r = None))"
| "folded_upd UNil = True"
| "folded_upd (UpdateNode i v n) = (folded i \<and> folded v \<and> folded_upd n)"

primrec atoms :: "expr \<Rightarrow> nat" and atoms_upd :: "updates \<Rightarrow> nat" where
  "atoms (ConstantExpr c) = 0"
| "atoms (NotOptimizedExpr e) = Suc (atoms e)"
| "atoms (ReadExpr a u i) = Suc (atoms_upd u + atoms i)"
| "atoms (SelectExpr c t f) = atoms c + atoms t + atoms f"
| "atoms (ConcatExpr l r) = atoms l + atoms r"
| "atoms (ExtractExpr e off w) = atoms e"
| "atoms (ZExtExpr e w) = atoms e"
| "atoms (SExtExpr e w) = atoms e"
| "atoms (NotExpr e) = atoms e"
| "atoms (BinaryExpr k l r) = atoms l + atoms r"
| "atoms_upd UNil = 0"
| "atoms_upd (UpdateNode i v n) = atoms i + atoms v + atoms_upd n"

definition tidy :: "expr \<Rightarrow> nat \<Rightarrow> bool" where
  "tidy e n \<longleftrightarrow> folded e \<and> atoms e \<le> n"

lemma tidyD: "tidy e n \<Longrightarrow> folded e" "tidy e n \<Longrightarrow> atoms e \<le> n"
  by (simp_all add: tidy_def)

lemma tidy_mono: "tidy e n \<Longrightarrow> n \<le> m \<Longrightarrow> tidy e m"
  by (simp add: tidy_def)

lemma tidy_const [simp]: "tidy (ConstantExpr c) n"
  by (simp add: tidy_def)

lemma folded_atoms: "folded e \<Longrightarrow> as_const e = None \<Longrightarrow> 0 < atoms e"
proof (induction e rule: expr.induct [where ?P2.0 = "\<lambda>_. True"])
qed auto

section \<open>Each constructor is tidy\<close>

named_theorems tidy_create

lemma BCREATE_R_tidy:
  assumes "folded l" "folded r"
    and "\<And>cr. as_const l = None \<Longrightarrow> tidy (partialL l cr) (atoms l)"
    and "\<And>cl. as_const r = None \<Longrightarrow> tidy (partialR cl r) (atoms r)"
    and "as_const l = None \<Longrightarrow> as_const r = None \<Longrightarrow> tidy (gen l r) (atoms l + atoms r)"
  shows "tidy (BCREATE_R op partialL partialR gen l r) (atoms l + atoms r)"
  using assms by (auto simp: BCREATE_R_def split: option.split)

lemma BCREATE_tidy:
  assumes "folded l" "folded r"
    and "as_const l = None \<or> as_const r = None \<Longrightarrow> tidy (gen l r) (atoms l + atoms r)"
  shows "tidy (BCREATE op gen l r) (atoms l + atoms r)"
  using assms by (auto simp: BCREATE_def split: option.split)

lemma And_create_tidy [tidy_create]: "folded l \<Longrightarrow> folded r \<Longrightarrow> tidy (And_create l r) (atoms l + atoms r)"
  unfolding And_create_def
  by (rule BCREATE_R_tidy)
    (auto simp: AndExpr_createPartial_def AndExpr_createPartialR_def AndExpr_create_def tidy_def)

lemma Or_create_tidy [tidy_create]: "folded l \<Longrightarrow> folded r \<Longrightarrow> tidy (Or_create l r) (atoms l + atoms r)"
  unfolding Or_create_def
  by (rule BCREATE_R_tidy)
    (auto simp: OrExpr_createPartial_def OrExpr_createPartialR_def OrExpr_create_def tidy_def)

lemma And_create_tidy_le:
  "tidy l m \<Longrightarrow> tidy r n \<Longrightarrow> m + n \<le> k \<Longrightarrow> tidy (And_create l r) k"
  using tidyD [of l m] tidyD [of r n] by (auto intro!: tidy_mono [OF And_create_tidy])

lemma Or_create_tidy_le:
  "tidy l m \<Longrightarrow> tidy r n \<Longrightarrow> m + n \<le> k \<Longrightarrow> tidy (Or_create l r) k"
  using tidyD [of l m] tidyD [of r n] by (auto intro!: tidy_mono [OF Or_create_tidy])

lemma EqExpr_create_tidy: "folded l \<Longrightarrow> folded r \<Longrightarrow> as_const l = None \<or> as_const r = None \<Longrightarrow>
    tidy (EqExpr_create l r) (atoms l + atoms r)"
  by (auto simp: EqExpr_create_def tidy_def)

lemma EqExpr_create_const_tidy: "folded r \<Longrightarrow> as_const r = None \<Longrightarrow> tidy (EqExpr_create (ConstantExpr c) r) (atoms r)"
  using EqExpr_create_tidy [of "ConstantExpr c" r] by simp

lemma EqExpr_createPartialR_tidy:
  "folded r \<Longrightarrow> as_const r = None \<Longrightarrow> tidy (EqExpr_createPartialR False cl r) (atoms r)"
proof (induction r arbitrary: cl rule: expr.induct [where ?P2.0 = "\<lambda>_. True"])
  case (SExtExpr src w)
  then show ?case
    using EqExpr_create_const_tidy [of "SExtExpr src w" cl]
    by (subst EqExpr_createPartialR.simps)
      (auto simp: Let_def EqExpr_create_const_tidy tidy_def [of "SExtExpr src w"] split: option.split)
next
  case (ZExtExpr src w)
  then show ?case
    using EqExpr_create_const_tidy [of "ZExtExpr src w" cl]
    by (subst EqExpr_createPartialR.simps)
      (auto simp: Let_def EqExpr_create_const_tidy tidy_def [of "ZExtExpr src w"] split: option.split)
next
  case (BinaryExpr rk a b)
  have self: "tidy (BinaryExpr rk a b) (atoms a + atoms b)"
    and eq: "tidy (EqExpr_create (ConstantExpr cl) (BinaryExpr rk a b)) (atoms a + atoms b)"
    using BinaryExpr.prems EqExpr_create_const_tidy [of "BinaryExpr rk a b" cl] by (simp_all add: tidy_def)
  have zero: "tidy (case as_const x of Some v \<Rightarrow> ConstantExpr (ce_Eq v c)
      | None \<Rightarrow> EqExpr_createPartialR False c x) (atoms x)" if "x = a \<or> x = b" for x c
    using that BinaryExpr by (auto split: option.split)
  have b: "tidy b (atoms a + atoms b)"
    using BinaryExpr.prems by (simp add: tidy_def)
  show ?case
    using BinaryExpr eq self b And_create_tidy_le [OF zero zero]
    by (subst EqExpr_createPartialR.simps) (auto split: option.split)
qed (auto simp: EqExpr_createPartialR.simps EqExpr_create_const_tidy, auto simp: tidy_def EqExpr_create_def)

lemma Eq_create_tidy [tidy_create]: "folded l \<Longrightarrow> folded r \<Longrightarrow> tidy (Eq_create False l r) (atoms l + atoms r)"
  unfolding Eq_create_def
  by (rule BCREATE_R_tidy)
    (auto simp: EqExpr_createPartial_def EqExpr_createPartialR_tidy EqExpr_create_tidy)

lemma createIsZero_tidy [tidy_create]: "folded e \<Longrightarrow> tidy (createIsZero False e) (atoms e)"
  using Eq_create_tidy [of e "ConstantExpr (ce_alloc 0 (getWidth e))"] by (simp add: createIsZero_def)

lemma Ne_create_tidy [tidy_create]: "folded l \<Longrightarrow> folded r \<Longrightarrow> tidy (Ne_create False l r) (atoms l + atoms r)"
  using tidy_mono [OF Eq_create_tidy [of "ConstantExpr (ce_alloc 0 1)" "Eq_create False l r"]]
    tidyD [OF Eq_create_tidy]
  by (simp add: Ne_create_def)

section \<open>Sums\<close>

lemma XorExpr_createPartialR_tidy:
  "folded r \<Longrightarrow> as_const r = None \<Longrightarrow> tidy (XorExpr_createPartialR False cl r) (atoms r)"
  by (auto simp: XorExpr_createPartialR_def EqExpr_createPartial_def EqExpr_createPartialR_tidy) (auto simp: tidy_def)

lemma Xor_create_tidy [tidy_create]: "folded l \<Longrightarrow> folded r \<Longrightarrow> tidy (Xor_create False l r) (atoms l + atoms r)"
  unfolding Xor_create_def
  by (rule BCREATE_R_tidy)
    (auto simp: XorExpr_createPartial_def XorExpr_createPartialR_tidy, simp add: XorExpr_create_def tidy_def)

lemma AddExpr_createPartialR_tidy:
  "folded r \<Longrightarrow> as_const r = None \<Longrightarrow> tidy (AddExpr_createPartialR False cl r) (atoms r)"
  "folded r \<Longrightarrow> as_const r = None \<Longrightarrow> tidy (SubExpr_createPartialR False cl r) (atoms r)"
proof (induction "False" cl r and "False" cl r rule: AddExpr_createPartialR_SubExpr_createPartialR.induct)
  case (1 cl r)
  have self: "tidy r (atoms r)" "tidy (BinaryExpr Add (ConstantExpr cl) r) (atoms r)"
    using "1.prems" by (auto simp: tidy_def)
  with 1 show ?case
    by (subst AddExpr_createPartialR.simps)
      (auto simp: XorExpr_createPartialR_tidy split: option.split dest!: constLeft_SomeD)
next
  case (2 cl r)
  have self: "tidy r (atoms r)" "tidy (BinaryExpr Sub (ConstantExpr cl) r) (atoms r)"
    using "2.prems" by (auto simp: tidy_def)
  with 2 show ?case
    by (subst SubExpr_createPartialR.simps)
      (auto simp: XorExpr_createPartialR_tidy split: option.split dest!: constLeft_SomeD)
qed

lemma Add_createL_tidy: "tidy r n \<Longrightarrow> tidy (Add_createL False c r) n"
  and Sub_createL_tidy: "tidy r n \<Longrightarrow> tidy (Sub_createL False c r) n"
  and Sub_createR_tidy: "tidy r n \<Longrightarrow> tidy (Sub_createR False r c) n"
  by (auto simp: Add_createL_def Sub_createL_def Sub_createR_def SubExpr_createPartial_def
      AddExpr_createPartial_def split: option.split
      intro: tidy_mono [OF AddExpr_createPartialR_tidy(1)] tidy_mono [OF AddExpr_createPartialR_tidy(2)] dest: tidyD)

lemma Add_Sub_create_tidy:
  assumes "folded l" "folded r"
  shows "(as_const l = None \<longrightarrow> as_const r = None \<longrightarrow>
      tidy (AddExpr_create False l r) (atoms l + atoms r) \<and> tidy (SubExpr_create False l r) (atoms l + atoms r)) \<and>
    tidy (Add_create False l r) (atoms l + atoms r) \<and> tidy (Sub_create False l r) (atoms l + atoms r)"
  using assms
proof (induction "size l + size r" arbitrary: l r rule: less_induct)
  case less
  then have add: "tidy (Add_create False l' r') (atoms l' + atoms r')"
    and sub: "tidy (Sub_create False l' r') (atoms l' + atoms r')"
    if "size l' + size r' < size l + size r" "folded l'" "folded r'" for l' r'
    using that by blast+
  note IH = tidy_mono [OF Add_createL_tidy [OF add]] tidy_mono [OF Add_createL_tidy [OF sub]]
    tidy_mono [OF Sub_createL_tidy [OF add]] tidy_mono [OF Sub_createR_tidy [OF add]]
    tidy_mono [OF Sub_createR_tidy [OF sub]]
  have xor: "as_const l = None \<or> as_const r = None \<Longrightarrow> tidy (BinaryExpr k l r) (atoms l + atoms r)" for k
    using less.prems by (simp add: tidy_def)
  have 1: "tidy (AddExpr_create False l r) (atoms l + atoms r)" if "as_const l = None" "as_const r = None"
    using less.prems that
    by (subst AddExpr_create.simps)
      (auto simp: XorExpr_create_def xor intro!: IH split: option.split dest!: constLeft_SomeD)
  have 2: "tidy (SubExpr_create False l r) (atoms l + atoms r)" if "as_const l = None" "as_const r = None"
    using less.prems that
    by (subst SubExpr_create.simps)
      (auto simp: XorExpr_create_def xor intro!: IH split: option.split dest!: constLeft_SomeD)
  have "tidy l (atoms l)" "tidy r (atoms r)"
    using less.prems by (simp_all add: tidy_def)
  then show ?case
    using 1 2 less.prems
    by (auto simp: Add_create.simps [of _ l r] Sub_create.simps [of _ l r] AddExpr_createPartial_def
        SubExpr_createPartial_def AddExpr_createPartialR_tidy Add_createL_tidy Sub_createL_tidy split: option.split)
qed

lemma Add_create_tidy [tidy_create]: "folded l \<Longrightarrow> folded r \<Longrightarrow> tidy (Add_create False l r) (atoms l + atoms r)"
  and Sub_create_tidy [tidy_create]: "folded l \<Longrightarrow> folded r \<Longrightarrow> tidy (Sub_create False l r) (atoms l + atoms r)"
  using Add_Sub_create_tidy by blast+

section \<open>Products, divisions, shifts and comparisons\<close>

lemma Mul_create_tidy [tidy_create]: "folded l \<Longrightarrow> folded r \<Longrightarrow> tidy (Mul_create l r) (atoms l + atoms r)"
  unfolding Mul_create_def
  by (rule BCREATE_R_tidy)
    (auto simp: MulExpr_createPartial_def MulExpr_createPartialR_def MulExpr_create_def
      AndExpr_createPartialR_def AndExpr_createPartial_def tidy_def)

lemma div_create_tidy [tidy_create]:
  "folded l \<Longrightarrow> folded r \<Longrightarrow> tidy (UDiv_create l r) (atoms l + atoms r)"
  "folded l \<Longrightarrow> folded r \<Longrightarrow> tidy (SDiv_create l r) (atoms l + atoms r)"
  "folded l \<Longrightarrow> folded r \<Longrightarrow> tidy (URem_create l r) (atoms l + atoms r)"
  "folded l \<Longrightarrow> folded r \<Longrightarrow> tidy (SRem_create l r) (atoms l + atoms r)"
  unfolding UDiv_create_def SDiv_create_def URem_create_def SRem_create_def
  by (rule BCREATE_tidy;
      auto simp: UDivExpr_create_def SDivExpr_create_def URemExpr_create_def SRemExpr_create_def tidy_def)+

lemma tidy_self: "folded e \<Longrightarrow> tidy e (atoms e)"
  by (simp add: tidy_def)

lemma shift_create_tidy [tidy_create]:
  "folded l \<Longrightarrow> folded r \<Longrightarrow> tidy (Shl_create False l r) (atoms l + atoms r)"
  "folded l \<Longrightarrow> folded r \<Longrightarrow> tidy (LShr_create False l r) (atoms l + atoms r)"
  "folded l \<Longrightarrow> folded r \<Longrightarrow> tidy (AShr_create l r) (atoms l + atoms r)"
  unfolding Shl_create_def LShr_create_def AShr_create_def
  by (rule BCREATE_tidy;
      auto simp: ShlExpr_create_def LShrExpr_create_def AShrExpr_create_def createIsZero_tidy tidy_self
        intro!: And_create_tidy_le; simp add: tidy_def)+

lemma cmp_create_tidy [tidy_create]:
  "folded l \<Longrightarrow> folded r \<Longrightarrow> tidy (Ult_create False l r) (atoms l + atoms r)"
  "folded l \<Longrightarrow> folded r \<Longrightarrow> tidy (Ule_create False l r) (atoms l + atoms r)"
  "folded l \<Longrightarrow> folded r \<Longrightarrow> tidy (Slt_create False l r) (atoms l + atoms r)"
  "folded l \<Longrightarrow> folded r \<Longrightarrow> tidy (Sle_create False l r) (atoms l + atoms r)"
  unfolding Ult_create_def Ule_create_def Slt_create_def Sle_create_def
  by (rule BCREATE_tidy;
      auto simp: UltExpr_create_def UleExpr_create_def SltExpr_create_def SleExpr_create_def
        createIsZero_tidy tidy_self intro!: And_create_tidy_le Or_create_tidy_le; simp add: tidy_def)+

lemma cmp_swapped_create_tidy [tidy_create]:
  "folded l \<Longrightarrow> folded r \<Longrightarrow> tidy (Ugt_create False l r) (atoms l + atoms r)"
  "folded l \<Longrightarrow> folded r \<Longrightarrow> tidy (Uge_create False l r) (atoms l + atoms r)"
  "folded l \<Longrightarrow> folded r \<Longrightarrow> tidy (Sgt_create False l r) (atoms l + atoms r)"
  "folded l \<Longrightarrow> folded r \<Longrightarrow> tidy (Sge_create False l r) (atoms l + atoms r)"
  using cmp_create_tidy [of r l]
  by (simp_all add: Ugt_create_def Uge_create_def Sgt_create_def Sge_create_def add.commute)

lemma Binary_create_tidy: "folded l \<Longrightarrow> folded r \<Longrightarrow> tidy (Binary_create False k l r) (atoms l + atoms r)"
  by (cases k) (simp_all add: tidy_create)

section \<open>Structure\<close>

lemma Not_create_tidy: "folded e \<Longrightarrow> tidy (Not_create e) (atoms e)"
  by (auto simp: Not_create_def tidy_def split: option.split)

lemma Select_create_tidy:
  assumes "folded c" "folded t" "folded f"
  shows "tidy (Select_create False c t f) (atoms c + atoms t + atoms f)"
proof -
  have t: "tidy t (atoms c + atoms t + atoms f)" and f: "tidy f (atoms c + atoms t + atoms f)"
    using assms by (simp_all add: tidy_def)
  have z: "tidy (createIsZero False c) (atoms c)" "tidy c (atoms c)" "tidy t (atoms t)" "tidy f (atoms f)"
    using assms by (simp_all add: createIsZero_tidy tidy_self)
  have "as_const c = None \<Longrightarrow> tidy (SelectExpr c t f) (atoms c + atoms t + atoms f)"
    using assms by (simp add: tidy_def)
  then show ?thesis
    using t f Or_create_tidy_le [OF z(2,4)] And_create_tidy_le [OF z(1,4)] Or_create_tidy_le [OF z(1,3)]
      And_create_tidy_le [OF z(2,3)]
    by (auto simp: Select_create_def split: option.split)
qed

lemma Extract_Concat_create_tidy:
  "folded e \<Longrightarrow> tidy (Extract_create e off w) (atoms e)"
  "folded l \<Longrightarrow> folded r \<Longrightarrow> tidy (Concat_create l r) (atoms l + atoms r)"
proof (induction e off w and l r rule: Extract_create_Concat_create.induct)
  case (1 e off w)
  show ?case
  proof (cases e)
    case (ConcatExpr l r)
    have lr: "folded l" "folded r"
      using "1.prems" ConcatExpr by auto
    have left: "tidy (Extract_create l (off - getWidth r) w) (atoms l)"
      if "w \<noteq> getWidth e" "getWidth r \<le> off"
      using "1.IH"(1) that ConcatExpr lr by simp
    have right: "tidy (Extract_create r off w) (atoms r)"
      if "w \<noteq> getWidth e" "\<not> getWidth r \<le> off" "off + w \<le> getWidth r"
      using "1.IH"(2) that ConcatExpr lr by simp
    have both: "tidy (Concat_create (Extract_create l 0 (w + off - getWidth r)) (Extract_create r off (getWidth r - off)))
        (atoms l + atoms r)"
      if "w \<noteq> getWidth e" "\<not> getWidth r \<le> off" "\<not> off + w \<le> getWidth r"
    proof -
      have "tidy (Extract_create l 0 (w + off - getWidth r)) (atoms l)"
        "tidy (Extract_create r off (getWidth r - off)) (atoms r)"
        using "1.IH"(3,4) that ConcatExpr lr by simp_all
      moreover from this have "tidy (Concat_create (Extract_create l 0 (w + off - getWidth r)) (Extract_create r off (getWidth r - off)))
          (atoms (Extract_create l 0 (w + off - getWidth r)) + atoms (Extract_create r off (getWidth r - off)))"
        using "1.IH"(5) that ConcatExpr by (blast dest: tidyD)
      ultimately show ?thesis
        by (auto simp: tidy_def)
    qed
    have "tidy (ConcatExpr l r) (atoms l + atoms r)"
      using "1.prems" ConcatExpr tidy_self by fastforce
    then show ?thesis
      using left right both ConcatExpr
      by (subst Extract_create.simps) (auto simp: tidy_self intro: tidy_mono)
  qed (use "1.prems" in \<open>auto simp: Extract_create.simps tidy_def\<close>)
next
  case (2 l r)
  have plain: "as_const l = None \<or> as_const r = None \<Longrightarrow> tidy (ConcatExpr l r) (atoms l + atoms r)"
    using "2.prems" by (simp add: tidy_def)
  have ext: "tidy (Extract_create el offr (getWidth l + getWidth r)) (atoms l + atoms r)"
    if "as_extract l = Some (el, offl, wl)" "as_extract r = Some (el, offr, wr)" "offr + wr = offl"
    for el offl wl offr wr
  proof -
    have "tidy (Extract_create el offr (getWidth l + getWidth r)) (atoms el)"
      using 2 that by auto
    then show ?thesis
      using that by (auto elim: tidy_mono)
  qed
  show ?case
    using plain ext
    by (subst Concat_create.simps) (auto split: option.split)
qed

lemma cast_create_tidy:
  "folded e \<Longrightarrow> tidy (ZExt_create e w) (atoms e)" "folded e \<Longrightarrow> tidy (SExt_create e w) (atoms e)"
  by (auto simp: ZExt_create_def SExt_create_def Let_def Extract_Concat_create_tidy tidy_self split: option.split)
    (auto simp: tidy_def)

lemma Read_scan_tidy: "folded_upd u \<Longrightarrow> Read_scan False ix u = Found v \<Longrightarrow> tidy v (atoms_upd u)"
  by (induction u rule: updates.induct [where ?P1.0 = "\<lambda>_. True"])
    (auto simp: tidy_def split: option.splits if_splits)

lemma Read_create_tidy:
  assumes "folded_upd u" "folded ix"
  shows "tidy (Read_create False a u ix) (Suc (atoms_upd u + atoms ix))"
proof -
  have "tidy (ReadExpr a u ix) (Suc (atoms_upd u + atoms ix))"
    using assms by (simp add: tidy_def)
  then show ?thesis
    by (auto simp: Read_create_def split: scan.split option.split
        intro: tidy_mono [OF Read_scan_tidy [OF assms(1)]])
qed

lemma rebuild_tidy:
  assumes "folded e" "list_all folded ks" "length ks = length (kids e)" "rebuild False e ks = Some e'"
  shows "tidy e' (atoms (with_kids e ks))"
  using assms
  by (cases e)
    (auto simp: length_Suc_conv Binary_create_tidy Not_create_tidy Select_create_tidy Extract_Concat_create_tidy
      cast_create_tidy Read_create_tidy NotOptimized_create_def tidy_self tidy_def [of "NotOptimizedExpr _"])

lemma atoms_kids: "atoms (with_kids e ks) + sum_list (map atoms (kids e)) = atoms e + sum_list (map atoms ks)"
  if "length ks = length (kids e)"
  using that by (cases e) (auto simp: length_Suc_conv)

lemma folded_kids: "folded e \<Longrightarrow> k \<in> set (kids e) \<Longrightarrow> folded k"
  by (cases e) auto

section \<open>Properties\<close>

text \<open>
  C10: rebuilding a folded expression over new folded kids gives a folded expression again (no
  operation on constants alone is left), with no more reads and not optimized operands than the
  same node over those kids has: no smart constructor duplicates a read.
\<close>

theorem rebuild_folded:
  assumes "folded e" "list_all folded ks" "length ks = length (kids e)" "rebuild False e ks = Some e'"
  shows "folded e' \<and> atoms e' \<le> atoms (with_kids e ks)"
  using rebuild_tidy [OF assms] by (simp add: tidy_def)

theorem rebuild_folded_witness:
  "\<exists>e'. rebuild False (BinaryExpr Add (example_byte 0 0) (example_byte 0 1))
      [ConstantExpr (ce_alloc 3 8), BinaryExpr Add (ConstantExpr (ce_alloc 4 8)) (example_byte 0 1)] = Some e' \<and>
     folded e' \<and> atoms e' \<le> 1"
  using rebuild_folded [of "BinaryExpr Add (example_byte 0 0) (example_byte 0 1)"
      "[ConstantExpr (ce_alloc 3 8), BinaryExpr Add (ConstantExpr (ce_alloc 4 8)) (example_byte 0 1)]"]
  by (simp add: example_byte_def)

end
