(* ===== verification/Constraints.thy ===== *)
theory Constraints
  imports Visitor ExprFold
begin

text \<open>
  \<open>ConstraintManager\<close> (\<open>lib/Expr/Constraints.cpp\<close>): the path condition as a vector of
  constraints; adding one simplifies it by the equalities known, splits conjunctions, and
  rewrites the constraints already there when it equates an expression with a constant. The
  set keeps exactly its solutions, the assertion fails only on an unsatisfiable addition, and
  the rewriting ends.
\<close>

section \<open>The visitors\<close>

definition ExprReplaceVisitor :: "expr \<Rightarrow> expr \<Rightarrow> visitor" where
  "ExprReplaceVisitor src dst = default_visitor
     \<lparr>vExpr := \<lambda>e. if e = src then ChangeTo dst else DoChildren,
      vPost := \<lambda>e. if e = src then ChangeTo dst else DoChildren\<rparr>"

text \<open>\<open>map_of\<close> takes the first pair of a key, as \<open>std::map::insert\<close> keeps the first.\<close>

definition ExprReplaceVisitor2 :: "(expr \<times> expr) list \<Rightarrow> visitor" where
  "ExprReplaceVisitor2 replacements = default_visitor
     \<lparr>vPost := \<lambda>e. (case map_of replacements e of Some x \<Rightarrow> ChangeTo x | None \<Rightarrow> DoChildren),
      vRecursive := True\<rparr>"

section \<open>The constraint set\<close>

fun equality :: "expr \<Rightarrow> expr \<times> expr" where
  "equality (BinaryExpr k l r) =
     (if k = Eq \<and> as_const l \<noteq> None then (r, l)
      else (BinaryExpr k l r, ConstantExpr (ce_alloc 1 1)))"
| "equality e = (e, ConstantExpr (ce_alloc 1 1))"

definition simplifyExpr :: "bool \<Rightarrow> nat \<Rightarrow> expr list \<Rightarrow> expr \<Rightarrow> expr option" where
  "simplifyExpr co n cs e =
     (if as_const e \<noteq> None then Some e
      else visit co (ExprReplaceVisitor2 (map equality cs)) n e)"

datatype failure = AssertionFailure | OutOfFuel

text \<open>
  \<open>re\<close> is the option \<open>RewriteEqualities\<close>. \<open>rewriteConstraints\<close> has the new vector built so far
  and the rest of the old one, and returns whether a constraint changed.
\<close>

fun addConstraintInternal :: "bool \<Rightarrow> bool \<Rightarrow> nat \<Rightarrow> expr list \<Rightarrow> expr \<Rightarrow> failure + expr list"
  and rewriteConstraints ::
    "bool \<Rightarrow> bool \<Rightarrow> nat \<Rightarrow> visitor \<Rightarrow> bool \<Rightarrow> expr list \<Rightarrow> expr list \<Rightarrow> failure + (bool \<times> expr list)" where
  "addConstraintInternal co re 0 cs e = Inl OutOfFuel"
| "addConstraintInternal co re (Suc n) cs e =
     (case e of
        ConstantExpr c \<Rightarrow> if ce_isTrue c then Inr cs else Inl AssertionFailure
      | BinaryExpr k l r \<Rightarrow>
          if k = And then
            (case addConstraintInternal co re n cs l of
               Inl x \<Rightarrow> Inl x
             | Inr cs1 \<Rightarrow> addConstraintInternal co re n cs1 r)
          else if k = Eq \<and> re \<and> as_const l \<noteq> None then
            (case rewriteConstraints co re n (ExprReplaceVisitor r l) False [] cs of
               Inl x \<Rightarrow> Inl x
             | Inr (changed, cs1) \<Rightarrow> Inr (cs1 @ [e]))
          else Inr (cs @ [e])
      | _ \<Rightarrow> Inr (cs @ [e]))"
| "rewriteConstraints co re n v changed cs [] = Inr (changed, cs)"
| "rewriteConstraints co re n v changed cs (ce # old) =
     (case visit co v (Suc (size ce)) ce of
        None \<Rightarrow> Inl OutOfFuel
      | Some e \<Rightarrow>
          if e \<noteq> ce then
            (case addConstraintInternal co re n cs e of
               Inl x \<Rightarrow> Inl x
             | Inr cs1 \<Rightarrow> rewriteConstraints co re n v True cs1 old)
          else rewriteConstraints co re n v changed (cs @ [ce]) old)"

definition addConstraint :: "bool \<Rightarrow> bool \<Rightarrow> nat \<Rightarrow> expr list \<Rightarrow> expr \<Rightarrow> failure + expr list" where
  "addConstraint co re n cs e =
     (case simplifyExpr co n cs e of
        None \<Rightarrow> Inl OutOfFuel
      | Some e1 \<Rightarrow> addConstraintInternal co re n cs e1)"

declare addConstraintInternal.simps(2) [simp del]

section \<open>Solutions are kept\<close>

definition constraint_ok :: "expr \<Rightarrow> bool" where
  "constraint_ok c \<longleftrightarrow> wfe c \<and> getWidth c = 1"

definition holds :: "expr list \<Rightarrow> env \<Rightarrow> bool" where
  "holds cs env \<longleftrightarrow> (\<forall>c \<in> set cs. eval c env = 1)"

lemma holds_simps [simp]:
  "holds [] env" "holds (c # cs) env \<longleftrightarrow> eval c env = 1 \<and> holds cs env"
  "holds (cs @ cs') env \<longleftrightarrow> holds cs env \<and> holds cs' env"
  by (auto simp: holds_def)

lemma ExprReplaceVisitor_sound:
  "eqv_on P dst src \<Longrightarrow> structural_visitor (ExprReplaceVisitor src dst) P"
  by unfold_locales
    (auto simp: ExprReplaceVisitor_def default_visitor_def split: if_splits)

lemma ExprReplaceVisitor2_sound:
  "(\<And>e x. (e, x) \<in> set rs \<Longrightarrow> eqv_on P x e) \<Longrightarrow> sound_visitor (ExprReplaceVisitor2 rs) P"
  by unfold_locales
    (auto simp: ExprReplaceVisitor2_def default_visitor_def dest!: map_of_SomeD split: option.splits)

lemma equality_sound:
  assumes "constraint_ok c" "equality c = (e, x)" "\<And>env. P env \<Longrightarrow> eval c env = 1"
  shows "eqv_on P x e"
proof (cases c rule: equality.cases)
  case (1 k l r)
  then show ?thesis
    using assms by (auto simp: constraint_ok_def eqv_on_def split: if_splits)
qed (use assms in \<open>auto simp: constraint_ok_def eqv_on_def\<close>)

lemma simplifyExpr_ok:
  assumes "list_all constraint_ok cs" "simplifyExpr False n cs e = Some e'"
  shows "eqv_on (holds cs) e' e"
proof -
  have "sound_visitor (ExprReplaceVisitor2 (map equality cs)) (holds cs)"
    by (rule ExprReplaceVisitor2_sound)
      (use assms(1) in \<open>auto simp: list_all_iff holds_def intro!: equality_sound\<close>)
  from sound_visitor.visit_ok [OF this] show ?thesis
    using assms(2) by (auto simp: simplifyExpr_def split: if_splits)
qed

text \<open>What a result says of the constraints it was computed from, for the assignments \<open>P\<close>.\<close>

fun outcome_ok :: "(env \<Rightarrow> bool) \<Rightarrow> (env \<Rightarrow> bool) \<Rightarrow> failure + expr list \<Rightarrow> bool" where
  "outcome_ok P S (Inr cs) \<longleftrightarrow> list_all constraint_ok cs \<and> (\<forall>env. P env \<longrightarrow> holds cs env = S env)"
| "outcome_ok P S (Inl AssertionFailure) \<longleftrightarrow> (\<forall>env. P env \<longrightarrow> \<not> S env)"
| "outcome_ok P S (Inl OutOfFuel) \<longleftrightarrow> True"

lemma outcome_ok_mono:
  "outcome_ok P S r \<Longrightarrow> (\<And>env. P' env \<Longrightarrow> P env \<and> S env = S' env) \<Longrightarrow> outcome_ok P' S' r"
  by (cases "(P, S, r)" rule: outcome_ok.cases) auto

lemma constraint_ok_eqv_on:
  "eqv_on P e' e \<Longrightarrow> constraint_ok e \<Longrightarrow> constraint_ok e' \<and> (\<forall>env. P env \<longrightarrow> eval e' env = eval e env)"
  by (auto simp: constraint_ok_def eqv_on_def)

lemma eval_and_true:
  "constraint_ok l \<Longrightarrow> constraint_ok r \<Longrightarrow> eval (BinaryExpr And l r) env = 1 \<longleftrightarrow> eval l env = 1 \<and> eval r env = 1"
  using eval_Bool [of l env] eval_Bool [of r env] by (auto simp: constraint_ok_def)

lemma addConstraintInternal_ok:
  "list_all constraint_ok cs \<Longrightarrow> constraint_ok e \<Longrightarrow>
     outcome_ok (\<lambda>_. True) (\<lambda>env. holds cs env \<and> eval e env = 1) (addConstraintInternal False re n cs e)"
  "list_all constraint_ok cs \<Longrightarrow> list_all constraint_ok old \<Longrightarrow> structural_visitor v P \<Longrightarrow>
     outcome_ok P (\<lambda>env. holds cs env \<and> holds old env) (map_sum id snd (rewriteConstraints False re n v changed cs old))"
proof (induction "False" re n cs e and "False" re n v changed cs old
    arbitrary: and P rule: addConstraintInternal_rewriteConstraints.induct)
  case (2 re n cs e)
  show ?case
  proof (cases "\<exists>l r. e = BinaryExpr And l r")
    case True
    then obtain l r where e: "e = BinaryExpr And l r" by blast
    then have ok: "constraint_ok l" "constraint_ok r"
      using "2.prems" by (auto simp: constraint_ok_def)
    note l = "2.hyps"(1) [OF e refl "2.prems"(1) ok(1)]
    show ?thesis
    proof (cases "addConstraintInternal False re n cs l")
      case (Inl x)
      then show ?thesis
        using l ok by (cases x) (auto simp: e addConstraintInternal.simps eval_and_true simp del: eval.simps)
    next
      case (Inr cs1)
      with l have cs1: "list_all constraint_ok cs1" "\<And>env. holds cs1 env \<longleftrightarrow> holds cs env \<and> eval l env = 1"
        by auto
      show ?thesis
        using "2.hyps"(2) [OF e refl Inr cs1(1) ok(2)] Inr
        by (auto simp: e addConstraintInternal.simps eval_and_true ok cs1(2) simp del: eval.simps elim!: outcome_ok_mono)
    qed
  next
    case False
    show ?thesis
    proof (cases "\<exists>c r. e = BinaryExpr Eq (ConstantExpr c) r \<and> re")
      case True
      then obtain c r where e: "e = BinaryExpr Eq (ConstantExpr c) r" and re by blast
      let ?P = "\<lambda>env. eval (ConstantExpr c) env = eval r env"
      have "eqv_on ?P (ConstantExpr c) r"
        using "2.prems" by (auto simp: e constraint_ok_def eqv_on_def)
      then have "outcome_ok ?P (holds cs)
          (map_sum id snd (rewriteConstraints False re n (ExprReplaceVisitor r (ConstantExpr c)) False [] cs))"
        using "2.hyps"(3) [OF e] \<open>re\<close> "2.prems"(1) ExprReplaceVisitor_sound by auto
      then show ?thesis
        using "2.prems"(2) \<open>re\<close>
        by (cases "(?P, holds cs, map_sum id snd (rewriteConstraints False re n (ExprReplaceVisitor r (ConstantExpr c)) False [] cs))"
            rule: outcome_ok.cases)
          (auto simp: e addConstraintInternal.simps split: sum.splits prod.splits)
    next
      case eq: False
      with \<open>\<not> (\<exists>l r. e = BinaryExpr And l r)\<close> "2.prems" show ?thesis
        by (cases e) (auto simp: addConstraintInternal.simps constraint_ok_def ce_isTrue_def ap_ok_def in_width_Bool)
    qed
  qed
next
  case (4 re n v changed cs ce old)
  have "wfe ce"
    using "4.prems"(2) by (simp add: constraint_ok_def)
  then obtain e where e: "visit False v (Suc (size ce)) ce = Some e"
    using structural_visitor.visit_returns [OF "4.prems"(3) _ lessI] by blast
  have "eqv_on P e ce"
    using sound_visitor.visit_ok [OF structural_visitor.axioms(1) [OF "4.prems"(3)] e] .
  with "4.prems"(2) have ok: "constraint_ok e" "\<And>env. P env \<Longrightarrow> eval e env = eval ce env"
    using constraint_ok_eqv_on by auto
  have rest: "list_all constraint_ok old" "constraint_ok ce"
    using "4.prems"(2) by auto
  show ?case
  proof (cases "e = ce")
    case True
    have "outcome_ok P (\<lambda>env. holds (cs @ [ce]) env \<and> holds old env)
        (map_sum id snd (rewriteConstraints False re n v changed (cs @ [ce]) old))"
      using "4.hyps"(3) [OF e _ _ rest(1) "4.prems"(3)] True "4.prems"(1) rest(2) by simp
    then show ?thesis
      using e True by (auto elim!: outcome_ok_mono)
  next
    case False
    note add = "4.hyps"(1) [OF e False "4.prems"(1) ok(1)]
    show ?thesis
    proof (cases "addConstraintInternal False re n cs e")
      case (Inl x)
      then show ?thesis
        using add e False ok(2) by (cases x) auto
    next
      case (Inr cs1)
      then have "list_all constraint_ok cs1" "\<And>env. holds cs1 env \<longleftrightarrow> holds cs env \<and> eval e env = 1"
        using add by auto
      then show ?thesis
        using "4.hyps"(2) [OF e False Inr _ rest(1) "4.prems"(3)] Inr e False ok(2)
        by (auto elim!: outcome_ok_mono)
    qed
  qed
qed auto

lemma addConstraint_ok:
  assumes "list_all constraint_ok cs" "constraint_ok e"
  shows "outcome_ok (\<lambda>_. True) (\<lambda>env. holds cs env \<and> eval e env = 1) (addConstraint False re n cs e)"
proof (cases "simplifyExpr False n cs e")
  case (Some e')
  then have "constraint_ok e'" "\<And>env. holds cs env \<Longrightarrow> eval e' env = eval e env"
    using constraint_ok_eqv_on [OF simplifyExpr_ok [OF assms(1) Some] assms(2)] by blast+
  then show ?thesis
    using addConstraintInternal_ok(1) [OF assms(1), of e' re n] Some
    by (auto simp: addConstraint_def elim!: outcome_ok_mono)
qed (simp add: addConstraint_def)

section \<open>The rewriting ends\<close>

text \<open>
  A visitor shrinks when it replaces folded expressions by folded ones with fewer atoms and
  leaves the traversal to \<open>visit\<close>.
\<close>

definition shrinks :: "visitor \<Rightarrow> bool" where
  "shrinks v \<longleftrightarrow> (\<forall>f e. vKind v f e = Some DoChildren) \<and>
     (\<forall>e x. folded e \<longrightarrow> vExpr v e = ChangeTo x \<or> vPost v e = ChangeTo x \<longrightarrow> tidy x (atoms e - 1) \<and> 0 < atoms e)"

definition smaller :: "expr \<Rightarrow> expr \<Rightarrow> bool" where
  "smaller e' e \<longleftrightarrow> folded e' \<and> (e' = e \<or> atoms e' < atoms e)"

lemma smaller_trans: "smaller e'' e' \<Longrightarrow> smaller e' e \<Longrightarrow> smaller e'' e"
  by (auto simp: smaller_def)

lemma smaller_kids:
  assumes "list_all2 smaller ks js" "ks \<noteq> js"
  shows "sum_list (map atoms ks) < sum_list (map atoms js)"
  using assms
proof (induction rule: list_all2_induct)
  case (Cons k ks j js)
  have "sum_list (map atoms ks) \<le> sum_list (map atoms js)"
    using Cons.hyps(2) Cons.IH by (cases "ks = js") auto
  with Cons show ?case
    by (cases "k = j") (auto simp: smaller_def)
qed simp

lemma rebuild_smaller:
  assumes "folded e" "list_all2 smaller ks (kids e)" "ks \<noteq> kids e" "rebuild False e ks = Some e1"
  shows "folded e1" "atoms e1 < atoms e"
proof -
  have "list_all folded ks" "length ks = length (kids e)"
    using assms(2) by (auto simp: list_all2_conv_all_nth list_all_length smaller_def)
  then have "tidy e1 (atoms (with_kids e ks))" "atoms (with_kids e ks) < atoms e"
    using rebuild_tidy [OF assms(1) _ _ assms(4)] smaller_kids [OF assms(2,3)] atoms_kids [of ks e] by auto
  then show "folded e1" "atoms e1 < atoms e"
    by (auto simp: tidy_def)
qed

lemma visit_smaller: "shrinks v \<Longrightarrow> folded e \<Longrightarrow> visit False v n e = Some e' \<Longrightarrow> smaller e' e"
proof (induction n arbitrary: e e')
  case (Suc n)
  have change: "smaller x e2" if "folded e2" "vExpr v e2 = ChangeTo x \<or> vPost v e2 = ChangeTo x" for x e2
  proof -
    have "tidy x (atoms e2 - 1)" "0 < atoms e2"
      using that Suc.prems(1) unfolding shrinks_def by blast+
    then show ?thesis
      by (auto simp: tidy_def smaller_def)
  qed
  have kids: "list_all2 smaller ks (kids e)" if "opt_list (map (visit False v n) (kids e)) = Some ks" for ks
    using that Suc.IH [OF Suc.prems(1)] folded_kids [OF Suc.prems(2)]
    by (auto simp: opt_list_map_Some list_all2_conv_all_nth)
  have rebuild: "smaller e2 e" if "opt_list (map (visit False v n) (kids e)) = Some ks" "ks \<noteq> kids e"
    "rebuild False e ks = Some e1" "e2 = e1 \<or> visit False v n e1 = Some e2" for ks e1 e2
  proof -
    have "folded e1" "smaller e1 e"
      using rebuild_smaller [OF Suc.prems(2) kids [OF that(1)] that(2,3)] by (auto simp: smaller_def)
    then show ?thesis
      using that(4) Suc.IH [OF Suc.prems(1)] smaller_trans by blast
  qed
  have post: "smaller x e" if "smaller e2 e" "vPost v e2 = ChangeTo x" for e2 x
    using change [of e2 x] smaller_trans that by (auto simp: smaller_def)
  have self: "smaller e e"
    using Suc.prems(2) by (simp add: smaller_def)
  show ?case
  proof (cases "as_const e = None \<and> vExpr v e = DoChildren")
    case True
    have kind: "vKind v f d = Some DoChildren" for f d
      using Suc.prems(1) by (simp add: shrinks_def)
    obtain ks where ks: "opt_list (map (visit False v n) (kids e)) = Some ks"
      using True Suc.prems(3) by (simp add: kind split: option.splits)
    obtain e2 where e2: "(if ks \<noteq> kids e then (case rebuild False e ks of None \<Rightarrow> None
        | Some e1 \<Rightarrow> if vRecursive v then visit False v n e1 else Some e1) else Some e) = Some e2"
      and e': "(if as_const e2 \<noteq> None then Some e2
        else (case vPost v e2 of ChangeTo x \<Rightarrow> Some x | _ \<Rightarrow> Some e2)) = Some e'"
      using True Suc.prems(3) by (simp only: visit.simps kind ks) (simp split: option.splits)
    have "smaller e2 e"
      using e2 self rebuild [OF ks] by (auto split: if_splits option.splits)
    with e' post show ?thesis
      by (auto split: if_splits action.splits)
  next
    case False
    with Suc.prems self change [of e e'] show ?thesis
      by (auto split: if_splits action.splits)
  qed
qed simp

text \<open>More fuel does not change a result.\<close>

lemma visit_more_fuel:
  "shrinks v \<Longrightarrow> visit co v n e = Some e' \<Longrightarrow> n \<le> m \<Longrightarrow> visit co v m e = Some e'"
proof (induction n arbitrary: m e e')
  case (Suc n)
  then obtain m' where m: "m = Suc m'" "n \<le> m'"
    by (cases m) auto
  have sub: "visit co v n d = Some d' \<Longrightarrow> visit co v m' d = Some d'" for d d'
    using Suc.IH [OF Suc.prems(1)] m(2) by blast
  have "opt_list (map (visit co v n) (kids e)) = Some ks \<Longrightarrow> opt_list (map (visit co v m') (kids e)) = Some ks" for ks
    using sub by (auto simp: opt_list_map_Some elim: list_all2_mono)
  with Suc.prems sub show ?case
    by (auto simp: m shrinks_def split: if_splits action.splits option.splits)
qed simp

lemma visit_list_returns:
  assumes "shrinks v" "\<And>k. k \<in> set ks \<Longrightarrow> \<exists>n e'. visit co v n k = Some e'"
  shows "\<exists>n ks'. opt_list (map (visit co v n) ks) = Some ks'"
  using assms(2)
proof (induction ks)
  case (Cons k ks)
  then obtain n ks' m k' where r: "opt_list (map (visit co v n) ks) = Some ks'" "visit co v m k = Some k'"
    by fastforce
  have "list_all2 (\<lambda>y x. visit co v (max n m) x = Some y) ks' ks"
    using r(1) by (auto simp: opt_list_map_Some elim!: list_all2_mono intro: visit_more_fuel [OF assms(1)])
  then have "opt_list (map (visit co v (max n m)) ks) = Some ks'"
    by (simp add: opt_list_map_Some)
  moreover have "visit co v (max n m) k = Some k'"
    using visit_more_fuel [OF assms(1) r(2)] by simp
  ultimately have "opt_list (map (visit co v (max n m)) (k # ks)) = Some (k' # ks')"
    by simp
  then show ?case
    by blast
qed simp

lemma visit_recursive_returns:
  assumes "shrinks v"
  shows "folded e \<Longrightarrow> \<exists>n e'. visit False v n e = Some e'"
proof (induction e rule: wf_induct_rule [OF wf_measures [of "[atoms, size]"]])
  case (1 e)
  have "\<exists>n e'. visit False v n k = Some e'" if "k \<in> set (kids e)" for k
  proof (rule "1.IH")
    have "atoms k \<le> atoms e"
      using that by (cases e) auto
    then show "(k, e) \<in> measures [atoms, size]"
      using kids_smaller [OF that] by auto
  qed (rule folded_kids [OF "1.prems" that])
  then obtain n ks where ks: "opt_list (map (visit False v n) (kids e)) = Some ks"
    using visit_list_returns [OF assms] by blast
  have kind: "vKind v f d = Some DoChildren" for f d
    using assms by (simp add: shrinks_def)
  show ?case
  proof (cases "ks = kids e")
    case True
    then have "\<exists>e'. visit False v (Suc n) e = Some e'"
      using ks kind by (auto split: action.split)
    then show ?thesis
      by blast
  next
    case False
    have small: "list_all2 smaller ks (kids e)"
      using ks visit_smaller [OF assms] folded_kids [OF "1.prems"]
      by (auto simp: opt_list_map_Some list_all2_conv_all_nth)
    then have len: "length ks = length (kids e)"
      by (rule list_all2_lengthD)
    then have "rebuild False e ks \<noteq> None"
      using False by (intro rebuild_defined) auto
    then obtain e1 where e1: "rebuild False e ks = Some e1"
      by blast
    have "folded e1" "atoms e1 < atoms e"
      using rebuild_smaller [OF "1.prems" small False e1] .
    then obtain m e2 where m: "visit False v m e1 = Some e2"
      using "1.IH" [of e1] by auto
    have "list_all2 (\<lambda>y x. visit False v (max n m) x = Some y) ks (kids e)"
      using ks by (auto simp: opt_list_map_Some elim!: list_all2_mono intro: visit_more_fuel [OF assms])
    then have "opt_list (map (visit False v (max n m)) (kids e)) = Some ks"
      by (simp add: opt_list_map_Some)
    moreover have "visit False v (max n m) e1 = Some e2"
      using visit_more_fuel [OF assms m] by simp
    ultimately have "\<exists>e'. visit False v (Suc (max n m)) e = Some e'"
      using e1 False kind by (auto split: action.split)
    then show ?thesis
      by blast
  qed
qed

lemma ExprReplaceVisitor_shrinks:
  "as_const r = None \<Longrightarrow> shrinks (ExprReplaceVisitor r (ConstantExpr c))"
  by (auto simp: shrinks_def ExprReplaceVisitor_def default_visitor_def folded_atoms split: if_splits)

text \<open>The invariant of the vector.\<close>

definition stored_ok :: "expr \<Rightarrow> bool" where
  "stored_ok c \<longleftrightarrow> constraint_ok c \<and> folded c \<and> as_const c = None"

lemma stored_okD: "stored_ok c \<Longrightarrow> constraint_ok c" "stored_ok c \<Longrightarrow> folded c" "stored_ok c \<Longrightarrow> as_const c = None"
  by (simp_all add: stored_ok_def)

lemma equality_key:
  assumes "stored_ok c" "equality c = (e, x)"
  shows "as_const e = None" "as_const x \<noteq> None"
  using assms by (cases c rule: equality.cases; auto simp: stored_ok_def split: if_splits)+

lemma ExprReplaceVisitor2_shrinks:
  assumes "list_all stored_ok cs"
  shows "shrinks (ExprReplaceVisitor2 (map equality cs))"
proof -
  have "tidy x (atoms e - 1) \<and> 0 < atoms e"
    if key: "map_of (map equality cs) e = Some x" and e: "folded e" for e x
  proof -
    obtain c where "c \<in> set cs" "equality c = (e, x)"
      using map_of_SomeD [OF key] by auto
    then have "as_const e = None" "as_const x \<noteq> None"
      using equality_key assms by (auto simp: list_all_iff)
    then show ?thesis
      using e folded_atoms by auto
  qed
  then show ?thesis
    by (auto simp: shrinks_def ExprReplaceVisitor2_def default_visitor_def split: option.splits)
qed

definition total_atoms :: "expr list \<Rightarrow> nat" where
  "total_atoms cs = sum_list (map atoms cs)"

lemma total_atoms_simps [simp]:
  "total_atoms [] = 0" "total_atoms (c # cs) = atoms c + total_atoms cs"
  "total_atoms (cs @ cs') = total_atoms cs + total_atoms cs'"
  by (simp_all add: total_atoms_def)

lemma list_all_stored_ok: "list_all stored_ok cs \<Longrightarrow> list_all constraint_ok cs"
  by (auto simp: list_all_iff stored_ok_def)

lemma addConstraintInternal_stored:
  "list_all stored_ok cs \<Longrightarrow> constraint_ok e \<Longrightarrow> folded e \<Longrightarrow>
     addConstraintInternal False re n cs e = Inr cs' \<Longrightarrow>
     list_all stored_ok cs' \<and> total_atoms cs' \<le> total_atoms cs + atoms e"
  "list_all stored_ok cs \<Longrightarrow> list_all stored_ok old \<Longrightarrow> structural_visitor v P \<Longrightarrow> shrinks v \<Longrightarrow>
     rewriteConstraints False re n v changed cs old = Inr (changed', cs') \<Longrightarrow>
     list_all stored_ok cs' \<and> total_atoms cs' \<le> total_atoms cs + total_atoms old"
proof (induction "False" re n cs e and "False" re n v changed cs old
    arbitrary: cs' and P changed' cs' rule: addConstraintInternal_rewriteConstraints.induct)
  case (2 re n cs e)
  show ?case
  proof (cases "\<exists>l r. e = BinaryExpr And l r")
    case True
    then obtain l r where e: "e = BinaryExpr And l r" by blast
    then have ok: "constraint_ok l" "constraint_ok r" "folded l" "folded r"
      using "2.prems" by (auto simp: constraint_ok_def)
    obtain cs1 where cs1: "addConstraintInternal False re n cs l = Inr cs1"
      "addConstraintInternal False re n cs1 r = Inr cs'"
      using "2.prems"(4) by (auto simp: e addConstraintInternal.simps split: sum.splits)
    have "list_all stored_ok cs1 \<and> total_atoms cs1 \<le> total_atoms cs + atoms l"
      using "2.hyps"(1) [OF e refl "2.prems"(1) ok(1,3) cs1(1)] .
    moreover from this have "list_all stored_ok cs' \<and> total_atoms cs' \<le> total_atoms cs1 + atoms r"
      using "2.hyps"(2) [OF e refl cs1(1) _ ok(2,4) cs1(2)] by blast
    ultimately show ?thesis
      by (simp add: e)
  next
    case False
    show ?thesis
    proof (cases "\<exists>c r. e = BinaryExpr Eq (ConstantExpr c) r \<and> re")
      case True
      then obtain c r where e: "e = BinaryExpr Eq (ConstantExpr c) r" and re by blast
      let ?v = "ExprReplaceVisitor r (ConstantExpr c)"
      have "eqv_on (\<lambda>env. eval (ConstantExpr c) env = eval r env) (ConstantExpr c) r" "as_const r = None"
        using "2.prems"(2,3) by (auto simp: e constraint_ok_def eqv_on_def)
      then have v: "structural_visitor ?v (\<lambda>env. eval (ConstantExpr c) env = eval r env)" "shrinks ?v"
        by (auto intro: ExprReplaceVisitor_sound ExprReplaceVisitor_shrinks)
      obtain b cs1 where cs1: "rewriteConstraints False re n ?v False [] cs = Inr (b, cs1)" "cs' = cs1 @ [e]"
        using "2.prems"(4) \<open>re\<close> by (auto simp: e addConstraintInternal.simps split: sum.splits)
      have "list_all stored_ok cs1 \<and> total_atoms cs1 \<le> total_atoms [] + total_atoms cs"
        by (rule "2.hyps"(3) [OF e _ _ _ "2.prems"(1) v cs1(1)]) (use \<open>re\<close> in auto)
      then show ?thesis
        using "2.prems"(2,3) cs1(2) by (simp add: stored_ok_def e)
    next
      case eq: False
      with \<open>\<not> (\<exists>l r. e = BinaryExpr And l r)\<close> "2.prems" show ?thesis
        by (cases e) (auto simp: addConstraintInternal.simps stored_ok_def split: if_splits)
    qed
  qed
next
  case (4 re n v changed cs ce old)
  obtain e where e: "visit False v (Suc (size ce)) ce = Some e"
    using "4.prems"(5) by (auto split: option.splits)
  have "eqv_on P e ce"
    using sound_visitor.visit_ok [OF structural_visitor.axioms(1) [OF "4.prems"(3)] e] .
  then have ok: "constraint_ok e" and ce: "stored_ok ce" "list_all stored_ok old"
    using "4.prems"(2) constraint_ok_eqv_on by (auto simp: stored_ok_def)
  then have small: "smaller e ce"
    using visit_smaller [OF "4.prems"(4) _ e] by (simp add: stored_ok_def)
  show ?case
  proof (cases "e = ce")
    case True
    then have "rewriteConstraints False re n v changed (cs @ [ce]) old = Inr (changed', cs')"
      using "4.prems"(5) e by simp
    from "4.hyps"(3) [OF e _ _ ce(2) "4.prems"(3,4) this] True "4.prems"(1) ce(1) show ?thesis
      by simp
  next
    case False
    then obtain cs1 where cs1: "addConstraintInternal False re n cs e = Inr cs1"
      "rewriteConstraints False re n v True cs1 old = Inr (changed', cs')"
      using "4.prems"(5) e by (auto split: sum.splits)
    have "list_all stored_ok cs1 \<and> total_atoms cs1 \<le> total_atoms cs + atoms e"
      using "4.hyps"(1) [OF e False "4.prems"(1) ok _ cs1(1)] small by (simp add: smaller_def)
    moreover from this have "list_all stored_ok cs' \<and> total_atoms cs' \<le> total_atoms cs1 + total_atoms old"
      using "4.hyps"(2) [OF e False cs1(1) _ ce(2) "4.prems"(3,4) cs1(2)] by blast
    ultimately show ?thesis
      using small False by (auto simp: smaller_def)
  qed
qed auto

lemma addConstraintInternal_more_fuel:
  "addConstraintInternal co re n cs e \<noteq> Inl OutOfFuel \<Longrightarrow> n \<le> m \<Longrightarrow>
     addConstraintInternal co re m cs e = addConstraintInternal co re n cs e"
  "rewriteConstraints co re n v changed cs old \<noteq> Inl OutOfFuel \<Longrightarrow> n \<le> m \<Longrightarrow>
     rewriteConstraints co re m v changed cs old = rewriteConstraints co re n v changed cs old"
proof (induction co re n cs e and co re n v changed cs old
    arbitrary: m and m rule: addConstraintInternal_rewriteConstraints.induct)
  case (2 co re n cs e)
  obtain m' where m: "m = Suc m'" "n \<le> m'"
    using "2.prems"(2) by (cases m) auto
  show ?case
  proof (cases "\<exists>k l r. e = BinaryExpr k l r")
    case True
    then obtain k l r where e: "e = BinaryExpr k l r" by blast
    consider "k = And" | "k = Eq" "re" "as_const l \<noteq> None" | "k \<noteq> And" "\<not> (k = Eq \<and> re \<and> as_const l \<noteq> None)"
      by blast
    then show ?thesis
    proof cases
      case 1
      note l = "2.IH"(1) [OF e 1 _ m(2)] and r = "2.IH"(2) [OF e 1 _ _ m(2)]
      show ?thesis
        using l r "2.prems"(1)
        by (cases "addConstraintInternal co re n cs l") (auto simp: addConstraintInternal.simps m(1) e 1)
    next
      case 2
      note rew = "2.IH"(3) [OF e _ _ _ m(2)]
      show ?thesis
        using rew "2.prems"(1) 2
        by (cases "rewriteConstraints co re n (ExprReplaceVisitor r l) False [] cs")
          (auto simp: addConstraintInternal.simps m(1) e)
    qed (use m e in \<open>auto simp: addConstraintInternal.simps\<close>)
  next
    case False
    then show ?thesis
      by (cases e) (auto simp: addConstraintInternal.simps m)
  qed
next
  case (4 co re n v changed cs ce old)
  show ?case
  proof (cases "visit co v (Suc (size ce)) ce")
    case (Some e)
    show ?thesis
    proof (cases "e = ce")
      case True
      then show ?thesis
        using "4.IH"(3) [OF Some _ _ "4.prems"(2)] "4.prems"(1) Some by simp
    next
      case False
      note add = "4.IH"(1) [OF Some False _ "4.prems"(2)]
        and rest = "4.IH"(2) [OF Some False _ _ "4.prems"(2)]
      show ?thesis
        using add rest "4.prems"(1) Some False
        by (cases "addConstraintInternal co re n cs e") auto
    qed
  qed simp
qed auto

lemma rewriteConstraints_returns:
  assumes "\<And>cs e. list_all stored_ok cs \<Longrightarrow> constraint_ok e \<Longrightarrow> folded e \<Longrightarrow> total_atoms cs + atoms e < t \<Longrightarrow>
      \<exists>n. addConstraintInternal False re n cs e \<noteq> Inl OutOfFuel"
    and v: "structural_visitor v P" "shrinks v"
  shows "list_all stored_ok cs \<Longrightarrow> list_all stored_ok old \<Longrightarrow> total_atoms cs + total_atoms old \<le> t \<Longrightarrow>
    \<exists>n. rewriteConstraints False re n v changed cs old \<noteq> Inl OutOfFuel"
proof (induction old arbitrary: cs changed)
  case (Cons ce old)
  have ce: "stored_ok ce" "list_all stored_ok old"
    using Cons.prems(2) by simp_all
  then have "wfe ce"
    by (simp add: stored_ok_def constraint_ok_def)
  obtain e where e: "visit False v (Suc (size ce)) ce = Some e"
    using structural_visitor.visit_returns [OF v(1) \<open>wfe ce\<close> lessI] by blast
  have ok: "constraint_ok e"
    using sound_visitor.visit_ok [OF structural_visitor.axioms(1) [OF v(1)] e] ce(1)
    by (auto simp: stored_ok_def dest: constraint_ok_eqv_on)
  have small: "smaller e ce"
    using visit_smaller [OF v(2) _ e] ce(1) by (simp add: stored_ok_def)
  show ?case
  proof (cases "e = ce")
    case True
    have "\<exists>n. rewriteConstraints False re n v changed (cs @ [ce]) old \<noteq> Inl OutOfFuel"
      by (rule Cons.IH) (use Cons.prems ce in auto)
    then show ?thesis
      using e True by simp
  next
    case False
    then have "total_atoms cs + atoms e < t" "folded e"
      using small Cons.prems(3) by (auto simp: smaller_def)
    then obtain n where n: "addConstraintInternal False re n cs e \<noteq> Inl OutOfFuel"
      using assms(1) [OF Cons.prems(1) ok] by blast
    show ?thesis
    proof (cases "addConstraintInternal False re n cs e")
      case (Inl x)
      then have "rewriteConstraints False re n v changed cs (ce # old) = Inl x"
        using e False by simp
      then show ?thesis
        using n Inl by (intro exI [of _ n]) simp
    next
      case (Inr cs1)
      have "list_all stored_ok cs1" "total_atoms cs1 \<le> total_atoms cs + atoms e"
        using addConstraintInternal_stored(1) [OF Cons.prems(1) ok _ Inr] \<open>folded e\<close> by auto
      then obtain m where m: "rewriteConstraints False re m v True cs1 old \<noteq> Inl OutOfFuel"
        using Cons.IH [of cs1 True] ce(2) \<open>total_atoms cs + atoms e < t\<close> Cons.prems(3) small False
        by (auto simp: smaller_def)
      have "rewriteConstraints False re (max n m) v True cs1 old = rewriteConstraints False re m v True cs1 old"
        by (rule addConstraintInternal_more_fuel(2) [OF m]) simp
      moreover have "addConstraintInternal False re (max n m) cs e = Inr cs1"
        using addConstraintInternal_more_fuel(1) [OF n, of "max n m"] Inr by simp
      ultimately have "rewriteConstraints False re (max n m) v changed cs (ce # old) \<noteq> Inl OutOfFuel"
        using e False m by simp
      then show ?thesis
        by blast
    qed
  qed
qed simp

lemma addConstraintInternal_returns:
  "list_all stored_ok cs \<Longrightarrow> constraint_ok e \<Longrightarrow> folded e \<Longrightarrow>
   \<exists>n. addConstraintInternal False re n cs e \<noteq> Inl OutOfFuel"
proof (induction "(cs, e)" arbitrary: cs e
    rule: wf_induct_rule [OF wf_measures [of "[\<lambda>(cs, e). total_atoms cs + atoms e, \<lambda>(cs, e). size e]"]])
  case (1 cs e)
  have IH: "\<exists>n. addConstraintInternal False re n cs' e' \<noteq> Inl OutOfFuel"
    if "list_all stored_ok cs'" "constraint_ok e'" "folded e'"
      "total_atoms cs' + atoms e' < total_atoms cs + atoms e \<or>
       total_atoms cs' + atoms e' \<le> total_atoms cs + atoms e \<and> size e' < size e" for cs' e'
    using "1.hyps" [OF _ that(1-3)] that(4) by (auto simp: le_eq_less_or_eq)
  show ?case
  proof (cases "\<exists>l r. e = BinaryExpr And l r")
    case True
    then obtain l r where e: "e = BinaryExpr And l r" by blast
    then have ok: "constraint_ok l" "constraint_ok r" "folded l" "folded r"
      using "1.prems" by (auto simp: constraint_ok_def)
    obtain n where n: "addConstraintInternal False re n cs l \<noteq> Inl OutOfFuel"
      using IH [of cs l] "1.prems"(1) ok e by auto
    show ?thesis
    proof (cases "addConstraintInternal False re n cs l")
      case (Inl x)
      then have "addConstraintInternal False re (Suc n) cs e = Inl x"
        by (simp add: e addConstraintInternal.simps)
      then show ?thesis
        using n Inl by (intro exI [of _ "Suc n"]) simp
    next
      case (Inr cs1)
      have "list_all stored_ok cs1" "total_atoms cs1 \<le> total_atoms cs + atoms l"
        using addConstraintInternal_stored(1) [OF "1.prems"(1) ok(1,3) Inr] by auto
      then obtain m where m: "addConstraintInternal False re m cs1 r \<noteq> Inl OutOfFuel"
        using IH [of cs1 r] ok e by auto
      have "addConstraintInternal False re (Suc (max n m)) cs e = addConstraintInternal False re (max n m) cs1 r"
        using addConstraintInternal_more_fuel(1) [OF n, of "max n m"] Inr
        by (simp add: e addConstraintInternal.simps)
      also have "\<dots> = addConstraintInternal False re m cs1 r"
        by (rule addConstraintInternal_more_fuel(1) [OF m]) simp
      finally show ?thesis
        using m by metis
    qed
  next
    case False
    show ?thesis
    proof (cases "\<exists>c r. e = BinaryExpr Eq (ConstantExpr c) r \<and> re")
      case True
      then obtain c r where e: "e = BinaryExpr Eq (ConstantExpr c) r" and re by blast
      let ?v = "ExprReplaceVisitor r (ConstantExpr c)"
      have "eqv_on (\<lambda>env. eval (ConstantExpr c) env = eval r env) (ConstantExpr c) r" "as_const r = None"
        using "1.prems"(2,3) by (auto simp: e constraint_ok_def eqv_on_def)
      then have v: "structural_visitor ?v (\<lambda>env. eval (ConstantExpr c) env = eval r env)" "shrinks ?v"
        by (auto intro: ExprReplaceVisitor_sound ExprReplaceVisitor_shrinks)
      obtain n where n: "rewriteConstraints False re n ?v False [] cs \<noteq> Inl OutOfFuel"
        using rewriteConstraints_returns [where t = "total_atoms cs + atoms e" and cs = "[]" and old = cs, OF IH v]
          "1.prems"(1) by auto
      then have "addConstraintInternal False re (Suc n) cs e \<noteq> Inl OutOfFuel"
        using \<open>re\<close> by (auto simp: e addConstraintInternal.simps split: sum.split)
      then show ?thesis
        by blast
    next
      case eq: False
      then have "addConstraintInternal False re (Suc 0) cs e \<noteq> Inl OutOfFuel"
        using False by (cases e) (auto simp: addConstraintInternal.simps)
      then show ?thesis
        by blast
    qed
  qed
qed

text \<open>Enough fuel for \<open>simplifyExpr\<close> and \<open>addConstraint\<close> exists, and more does not change the result.\<close>

lemma simplifyExpr_returns:
  assumes "list_all stored_ok cs" "folded e"
  obtains n e1 where "\<And>m. n \<le> m \<Longrightarrow> simplifyExpr False m cs e = Some e1" "smaller e1 e"
proof (cases "as_const e")
  case None
  have shrinks: "shrinks (ExprReplaceVisitor2 (map equality cs))"
    by (rule ExprReplaceVisitor2_shrinks [OF assms(1)])
  obtain n e1 where n: "visit False (ExprReplaceVisitor2 (map equality cs)) n e = Some e1"
    using visit_recursive_returns [OF shrinks assms(2)] by blast
  with None show ?thesis
    using that [of n e1] visit_more_fuel [OF shrinks n] visit_smaller [OF shrinks assms(2) n]
    by (simp add: simplifyExpr_def)
next
  case (Some c)
  then show ?thesis
    using that [of 0 e] by (simp add: simplifyExpr_def smaller_def)
qed

lemma addConstraint_returns:
  assumes "list_all stored_ok cs" "constraint_ok e" "folded e"
  shows "\<exists>n. \<forall>m \<ge> n. addConstraint False re m cs e = addConstraint False re n cs e \<and>
    addConstraint False re n cs e \<noteq> Inl OutOfFuel"
proof -
  obtain n e1 where n: "\<And>m. n \<le> m \<Longrightarrow> simplifyExpr False m cs e = Some e1" and e1: "smaller e1 e"
    using simplifyExpr_returns [OF assms(1,3)] by blast
  have "constraint_ok e1" "folded e1"
    using constraint_ok_eqv_on [OF simplifyExpr_ok [OF list_all_stored_ok [OF assms(1)] n [OF order.refl]] assms(2)] e1
    by (auto simp: smaller_def)
  then obtain m where m: "addConstraintInternal False re m cs e1 \<noteq> Inl OutOfFuel"
    using addConstraintInternal_returns assms(1) by blast
  have "addConstraint False re k cs e = addConstraintInternal False re m cs e1" if "max n m \<le> k" for k
    using n [of k] addConstraintInternal_more_fuel(1) [OF m, of k] that by (simp add: addConstraint_def)
  with m show ?thesis
    by (metis order.refl)
qed

lemma addConstraint_stored:
  assumes "list_all stored_ok cs" "constraint_ok e" "folded e" "addConstraint False re n cs e = Inr cs'"
  shows "list_all stored_ok cs'"
proof -
  obtain e1 where e1: "simplifyExpr False n cs e = Some e1" "addConstraintInternal False re n cs e1 = Inr cs'"
    using assms(4) by (auto simp: addConstraint_def split: option.splits)
  have "constraint_ok e1"
    using constraint_ok_eqv_on [OF simplifyExpr_ok [OF list_all_stored_ok [OF assms(1)] e1(1)] assms(2)] by blast
  moreover have "smaller e1 e"
    using visit_smaller [OF ExprReplaceVisitor2_shrinks [OF assms(1)] assms(3)] e1(1) assms(3)
    by (auto simp: simplifyExpr_def smaller_def split: if_splits)
  ultimately show ?thesis
    using addConstraintInternal_stored(1) [OF assms(1) _ _ e1(2)] by (auto simp: smaller_def)
qed

section \<open>Properties\<close>



end
