(* ===== verification/ExprEval.thy ===== *)
theory ExprEval
  imports Visitor
begin

text \<open>
  \<open>ExprEvaluator\<close> (\<open>lib/Expr/ExprEvaluator.cpp\<close>) and \<open>Assignment\<close>
  (\<open>include/klee/util/Assignment.h\<close>): the visitor that replaces reads by the bytes an
  assignment binds and folds the rest. It is sound for every assignment of bytes that agrees
  with the bindings, it returns, and without free values it ends in the constant \<open>eval\<close> gives.
\<close>

section \<open>Assignments\<close>

record assignment =
  allowFreeValues :: bool
  bindings :: "array \<rightharpoonup> int list"

definition evaluate_byte :: "bool \<Rightarrow> assignment \<Rightarrow> array \<Rightarrow> int \<Rightarrow> expr" where
  "evaluate_byte co a arr index =
     (case bindings a arr of
        Some bytes \<Rightarrow>
          if index < int (length bytes) then ConstantExpr (ce_alloc (bytes ! nat index) (arr_range arr))
          else if allowFreeValues a
          then Read_create co arr UNil (ConstantExpr (ce_alloc index (arr_domain arr)))
          else ConstantExpr (ce_alloc 0 (arr_range arr))
      | None \<Rightarrow>
          if allowFreeValues a
          then Read_create co arr UNil (ConstantExpr (ce_alloc index (arr_domain arr)))
          else ConstantExpr (ce_alloc 0 (arr_range arr)))"

section \<open>The evaluator\<close>

text \<open>
  \<open>evalRead\<close>: \<open>f\<close> is \<open>visit\<close>, \<open>iv\<close> is the virtual \<open>getInitialValue\<close>. A constant index wider
  than 64 bits fails the assertion of \<open>getZExtValue\<close>, the branch \<open>None\<close>.
\<close>

fun evalRead ::
  "bool \<Rightarrow> (array \<Rightarrow> int \<Rightarrow> expr) \<Rightarrow> (expr \<Rightarrow> expr option) \<Rightarrow> array \<Rightarrow> updates \<Rightarrow> int \<Rightarrow> action option" where
  "evalRead co iv f a UNil index =
     Some (ChangeTo
       (if isConstantArray a \<and> index < int (arr_size a)
        then ConstantExpr (constantValues a ! nat index)
        else iv a index))"
| "evalRead co iv f a (UpdateNode i val n) index =
     (case f i of
        None \<Rightarrow> None
      | Some ui \<Rightarrow>
          (case as_const ui of
             Some CE \<Rightarrow>
               (case ce_getZExtValue 64 CE of
                  None \<Rightarrow> None
                | Some z \<Rightarrow>
                    if z = index then map_option ChangeTo (f val)
                    else evalRead co iv f a n index)
           | None \<Rightarrow>
               Some (ChangeTo (Read_create co a (UpdateNode i val n)
                                 (ConstantExpr (ce_alloc index (arr_domain a)))))))"

definition evalExpr :: "bool \<Rightarrow> expr \<Rightarrow> action" where
  "evalExpr co e =
     (if kids e = [] \<or> getKind e = KRead then DoChildren
      else if list_all (\<lambda>k. as_const k \<noteq> None) (kids e)
      then (case rebuild co e (kids e) of Some e' \<Rightarrow> ChangeTo e' | None \<Rightarrow> DoChildren)
      else DoChildren)"

definition evalVisitRead ::
  "bool \<Rightarrow> (array \<Rightarrow> int \<Rightarrow> expr) \<Rightarrow> (expr \<Rightarrow> expr option) \<Rightarrow> array \<Rightarrow> updates \<Rightarrow> expr \<Rightarrow> action option" where
  "evalVisitRead co iv f a u ix =
     (case f ix of
        None \<Rightarrow> None
      | Some v \<Rightarrow>
          (case as_const v of
             Some CE \<Rightarrow>
               (case ce_getZExtValue 64 CE of
                  None \<Rightarrow> None
                | Some z \<Rightarrow> evalRead co iv f a u (take_bit 32 z))
           | None \<Rightarrow> Some DoChildren))"

definition protectedDivOperation ::
  "bool \<Rightarrow> (expr \<Rightarrow> expr option) \<Rightarrow> bkind \<Rightarrow> expr \<Rightarrow> expr \<Rightarrow> action option" where
  "protectedDivOperation co f k l r =
     (case (f l, f r) of
        (Some k0, Some k1) \<Rightarrow>
          (let k1 = (case as_const k1 of Some CE \<Rightarrow> if ce_isZero CE then r else k1 | None \<Rightarrow> k1)
           in if k0 \<noteq> l \<or> k1 \<noteq> r then Some (ChangeTo (Binary_create co k k0 k1))
              else Some SkipChildren)
      | _ \<Rightarrow> None)"

fun evalKind ::
  "bool \<Rightarrow> (array \<Rightarrow> int \<Rightarrow> expr) \<Rightarrow> (expr \<Rightarrow> expr option) \<Rightarrow> expr \<Rightarrow> action option" where
  "evalKind co iv f (ReadExpr a u ix) = evalVisitRead co iv f a u ix"
| "evalKind co iv f (BinaryExpr k l r) =
     (if isDivKind k then protectedDivOperation co f k l r else Some DoChildren)"
| "evalKind co iv f _ = Some DoChildren"

fun evalPost :: "expr \<Rightarrow> action" where
  "evalPost (NotOptimizedExpr src) = ChangeTo src"
| "evalPost _ = SkipChildren"

definition evaluator :: "bool \<Rightarrow> assignment \<Rightarrow> visitor" where
  "evaluator co a = \<lparr>vExpr = evalExpr co, vKind = evalKind co (evaluate_byte co a), vPost = evalPost,
     vRecursive = False\<rparr>"

definition evaluate :: "bool \<Rightarrow> assignment \<Rightarrow> expr \<Rightarrow> expr option" where
  "evaluate co a e = visit co (evaluator co a) (Suc (size e)) e"

text \<open>\<open>Assignment::satisfies\<close>: every constraint evaluates to the constant true.\<close>

definition e_isTrue :: "expr \<Rightarrow> bool" where
  "e_isTrue e = (case as_const e of Some c \<Rightarrow> ce_isTrue c | None \<Rightarrow> False)"

definition satisfies :: "bool \<Rightarrow> assignment \<Rightarrow> expr list \<Rightarrow> bool option" where
  "satisfies co a cs = map_option (list_all e_isTrue) (opt_list (map (evaluate co a) cs))"

section \<open>Soundness\<close>

text \<open>The assignments of bytes that agree with the bindings.\<close>

definition agrees :: "assignment \<Rightarrow> env \<Rightarrow> bool" where
  "agrees a env \<longleftrightarrow> (\<forall>arr i.
     (case bindings a arr of
        Some bytes \<Rightarrow>
          if i < length bytes then take_bit (arr_range arr) (env arr i) = take_bit (arr_range arr) (bytes ! i)
          else allowFreeValues a \<or> take_bit (arr_range arr) (env arr i) = 0
      | None \<Rightarrow> allowFreeValues a \<or> take_bit (arr_range arr) (env arr i) = 0))"

lemma evaluate_byte_ok:
  assumes "array_ok arr" "in_width (arr_domain arr) i"
    and "\<not> (isConstantArray arr \<and> nat i < arr_size arr)"
  shows "wfe (evaluate_byte False a arr i)" "getWidth (evaluate_byte False a arr i) = arr_range arr"
    "agrees a env \<Longrightarrow> eval (evaluate_byte False a arr i) env = initial env arr i"
proof -
  let ?r = "ReadExpr arr UNil (ConstantExpr (ce_alloc i (arr_domain arr)))"
  have "eqv (Read_create False arr UNil (ConstantExpr (ce_alloc i (arr_domain arr)))) ?r"
    by (rule Read_create_ok)
  moreover have "wfe ?r" "eval ?r env = initial env arr i" "0 < arr_range arr" "0 \<le> i" for env
    using assms by (auto simp: array_ok_def in_width_def)
  ultimately show "wfe (evaluate_byte False a arr i)" "getWidth (evaluate_byte False a arr i) = arr_range arr"
    "agrees a env \<Longrightarrow> eval (evaluate_byte False a arr i) env = initial env arr i"
    using assms(3)
    by (auto simp: evaluate_byte_def eqv_def initial_def agrees_def nat_less_iff
        split: option.split dest!: spec [of _ arr] spec [of _ "nat i"])
qed

lemma ce_getZExtValue_small:
  "ap_ok c \<Longrightarrow> bitWidth c \<le> 64 \<Longrightarrow> ce_getZExtValue 64 c = Some (apval c)"
  using in_width_mono [of "bitWidth c" "apval c" 64] by (simp add: ce_getZExtValue_def ap_ok_def)

text \<open>A constant that \<open>visit\<close> returned for an index of an array.\<close>

lemma index_const:
  assumes "eqv_on P (ConstantExpr CE) ix" "wfe ix" "getWidth ix = arr_domain a" "array_ok a"
  shows "ce_getZExtValue 64 CE = Some (apval CE)" "take_bit 32 (apval CE) = apval CE"
    "in_width (arr_domain a) (apval CE)" "P env \<Longrightarrow> eval ix env = apval CE"
proof -
  have CE: "ap_ok CE" "bitWidth CE = arr_domain a" "arr_domain a \<le> 32"
    using assms by (auto simp: eqv_on_def array_ok_def)
  then show "ce_getZExtValue 64 CE = Some (apval CE)" "in_width (arr_domain a) (apval CE)"
    using ce_getZExtValue_small [of CE] ap_ok_range [of CE] by auto
  then show "take_bit 32 (apval CE) = apval CE"
    using CE(3) in_width_mono by simp
  show "P env \<Longrightarrow> eval ix env = apval CE"
    using assms by (auto simp: eqv_on_def)
qed

lemma evalRead_ok:
  assumes f: "\<And>d d'. f d = Some d' \<Longrightarrow> eqv_on (agrees as) d' d"
    and "array_ok a" "in_width (arr_domain a) index"
  shows "wfu u a \<Longrightarrow> evalRead False (evaluate_byte False as) f a u index = Some (ChangeTo x) \<Longrightarrow>
    wfe x \<and> getWidth x = arr_range a \<and> (\<forall>env. agrees as env \<longrightarrow> eval x env = eval_upd u env a index)"
proof (induction u rule: updates.induct [where ?P1.0 = "\<lambda>_. True"])
  case UNil
  have "wfe (ReadExpr a UNil (ConstantExpr (ce_alloc index (arr_domain a))))"
    using assms(2) by (auto simp: array_ok_def)
  then have "isConstantArray a \<Longrightarrow> nat index < arr_size a \<Longrightarrow>
      ap_ok (constantValues a ! nat index) \<and> bitWidth (constantValues a ! nat index) = arr_range a"
    by (auto simp: array_ok_def isConstantArray_def list_all_length)
  then show ?case
    using UNil assms(2,3) evaluate_byte_ok [of a index as]
    by (auto simp: initial_def nat_less_iff in_width_def split: if_splits)
next
  case (UpdateNode i val n)
  have "eqv (Read_create False a (UpdateNode i val n) (ConstantExpr (ce_alloc index (arr_domain a))))
            (ReadExpr a (UpdateNode i val n) (ConstantExpr (ce_alloc index (arr_domain a))))"
    by (rule Read_create_ok)
  moreover have "wfe (ReadExpr a (UpdateNode i val n) (ConstantExpr (ce_alloc index (arr_domain a))))"
    using assms(2) UpdateNode.prems by (auto simp: array_ok_def)
  ultimately have sym: "wfe y \<and> getWidth y = arr_range a \<and>
      (\<forall>env. agrees as env \<longrightarrow> eval y env = eval_upd (UpdateNode i val n) env a index)"
    if "y = Read_create False a (UpdateNode i val n) (ConstantExpr (ce_alloc index (arr_domain a)))" for y
    using that assms(3) by (simp add: eqv_def)
  have idx: "ce_getZExtValue 64 CE = Some (apval CE)" "agrees as env \<Longrightarrow> eval i env = apval CE"
    if "f i = Some (ConstantExpr CE)" for CE env
    using index_const [OF f [OF that], of a] UpdateNode.prems(1) assms(2) by auto
  have val: "wfe y \<and> getWidth y = arr_range a \<and> (\<forall>env. agrees as env \<longrightarrow> eval y env = eval val env)"
    if "f val = Some y" for y
    using f [OF that] UpdateNode.prems(1) by (auto simp: eqv_on_def)
  from UpdateNode show ?case
    using sym idx val by (fastforce split: option.splits if_splits)
qed simp_all

lemma evalKind_ok:
  assumes f: "\<And>d d'. f d = Some d' \<Longrightarrow> eqv_on (agrees as) d' d"
    and k: "evalKind False (evaluate_byte False as) f e = Some (ChangeTo x)"
  shows "eqv_on (agrees as) x e"
  using k
proof (cases e)
  case (ReadExpr a u ix)
  show ?thesis
  proof (cases "wfe e")
    case True
    with k ReadExpr show ?thesis
      using index_const [OF f, of ix _ a] evalRead_ok [where a = a and u = u and x = x, OF f]
      by (auto simp: evalVisitRead_def eqv_on_def split: option.splits)
  qed (simp add: eqv_on_def)
next
  case (BinaryExpr b l r)
  have "eqv_on (agrees as) (Binary_create False b k0 k1) e"
    if "eqv_on (agrees as) k0 l" "eqv_on (agrees as) k1 r" for k0 k1
    using eqv_on_trans [OF eqv_eqv_on [OF Binary_create_ok]
        eqv_on_with_kids [of _ "[k0, k1]" "BinaryExpr b l r", simplified]] that BinaryExpr
    by simp
  with k BinaryExpr show ?thesis
    using f by (auto simp: protectedDivOperation_def Let_def split: option.splits if_splits)
qed auto

lemma evalExpr_ok: "evalExpr False e = ChangeTo x \<Longrightarrow> eqv_on P x e"
  using rebuild_ok [of e "kids e" x] by (auto simp: evalExpr_def intro: eqv_eqv_on split: if_splits option.splits)

lemma evalPost_ok: "evalPost e = ChangeTo x \<Longrightarrow> eqv_on P x e"
  by (cases e) (auto simp: eqv_on_def)

lemma evalRead_returns:
  assumes f: "\<And>d d'. f d = Some d' \<Longrightarrow> eqv_on (agrees as) d' d"
    and "array_ok a"
  shows "wfu u a \<Longrightarrow> (\<And>d. wfe d \<Longrightarrow> size d < size u \<Longrightarrow> \<exists>d'. f d = Some d') \<Longrightarrow>
    \<exists>act. evalRead False iv f a u index = Some act"
proof (induction u rule: updates.induct [where ?P1.0 = "\<lambda>_. True"])
  case (UpdateNode i val n)
  then obtain i' v' where r: "f i = Some i'" "f val = Some v'"
    by fastforce
  have "\<exists>act. evalRead False iv f a n index = Some act"
    using UpdateNode by simp
  moreover have "ce_getZExtValue 64 CE = Some (apval CE)" if "i' = ConstantExpr CE" for CE
    using index_const(1) [OF f, of i CE a] r that UpdateNode.prems(1) assms(2) by auto
  ultimately show ?case
    using r by (cases i') auto
qed simp_all

lemma evalKind_returns:
  assumes f: "\<And>d d'. f d = Some d' \<Longrightarrow> eqv_on (agrees as) d' d"
    and sub: "\<And>d. wfe d \<Longrightarrow> size d < size e \<Longrightarrow> \<exists>d'. f d = Some d'"
    and "wfe e"
  shows "\<exists>act. evalKind False iv f e = Some act"
proof (cases e)
  case (ReadExpr a u ix)
  then obtain ix' where ix': "f ix = Some ix'"
    using assms by fastforce
  have "ce_getZExtValue 64 CE = Some (apval CE)" if "ix' = ConstantExpr CE" for CE
    using index_const(1) [OF f, of ix CE a] ix' that ReadExpr \<open>wfe e\<close> by auto
  moreover have "\<exists>act. evalRead False iv f a u index = Some act" for index
    by (rule evalRead_returns [OF f]) (use ReadExpr \<open>wfe e\<close> sub in auto)
  ultimately show ?thesis
    using ix' ReadExpr by (cases ix') (auto simp: evalVisitRead_def)
next
  case (BinaryExpr k l r)
  then show ?thesis
    using sub [of l] sub [of r] \<open>wfe e\<close> by (auto simp: protectedDivOperation_def Let_def)
qed auto

interpretation evaluator: structural_visitor "evaluator False a" "agrees a" for a
  by unfold_locales
    (auto simp: evaluator_def evalExpr_ok evalPost_ok
      intro: evalKind_ok [where as = a] evalKind_returns [where as = a])

lemma evaluate_returns: "wfe e \<Longrightarrow> \<exists>e'. evaluate False a e = Some e'"
  by (simp only: evaluate_def evaluator.visit_returns lessI)

lemma evaluate_ok: "evaluate False a e = Some e' \<Longrightarrow> eqv_on (agrees a) e' e"
  unfolding evaluate_def by (rule evaluator.visit_ok)

section \<open>Complete assignments\<close>

text \<open>
  What an assignment can evaluate: no division is by zero, and no constant is wrapped as not
  optimized (\<open>visitExpr\<close> rebuilds such a node and leaves, before \<open>visitExprPost\<close> unwraps it).
\<close>

primrec evaluable :: "expr \<Rightarrow> env \<Rightarrow> bool" and evaluable_upd :: "updates \<Rightarrow> env \<Rightarrow> bool" where
  "evaluable (ConstantExpr c) env = True"
| "evaluable (NotOptimizedExpr e) env = (evaluable e env \<and> as_const e = None)"
| "evaluable (ReadExpr a u i) env = (evaluable_upd u env \<and> evaluable i env)"
| "evaluable (SelectExpr c t f) env = (evaluable c env \<and> evaluable t env \<and> evaluable f env)"
| "evaluable (ConcatExpr l r) env = (evaluable l env \<and> evaluable r env)"
| "evaluable (ExtractExpr e off w) env = evaluable e env"
| "evaluable (ZExtExpr e w) env = evaluable e env"
| "evaluable (SExtExpr e w) env = evaluable e env"
| "evaluable (NotExpr e) env = evaluable e env"
| "evaluable (BinaryExpr k l r) env =
     (evaluable l env \<and> evaluable r env \<and> (isDivKind k \<longrightarrow> eval r env \<noteq> 0))"
| "evaluable_upd UNil env = True"
| "evaluable_upd (UpdateNode i v n) env =
     (evaluable i env \<and> evaluable v env \<and> evaluable_upd n env)"

lemma Binary_create_const: "\<exists>c. Binary_create False k (ConstantExpr c1) (ConstantExpr c2) = ConstantExpr c"
  by (cases k)
    (simp_all add: Add_Sub_create_const Add_createL_def Sub_createR_def Mul_create_def UDiv_create_def
      SDiv_create_def URem_create_def SRem_create_def And_create_def Or_create_def Xor_create_def
      Shl_create_def LShr_create_def AShr_create_def Eq_create_def Ne_create_def Ult_create_def
      Ule_create_def Slt_create_def Sle_create_def Ugt_create_def Uge_create_def Sgt_create_def
      Sge_create_def BCREATE_R_def BCREATE_def createIsZero_def)

lemma Extract_create_const: "\<exists>c. Extract_create (ConstantExpr c1) off w = ConstantExpr c"
  by (subst Extract_create.simps) simp

lemma Select_create_const: "\<exists>c. Select_create False (ConstantExpr b) (ConstantExpr t) (ConstantExpr f) = ConstantExpr c"
  by (simp add: Select_create_def)

lemma rebuild_const:
  assumes "list_all (\<lambda>k. as_const k \<noteq> None) ks" "length ks = length (kids e)" "kids e \<noteq> []"
    and "getKind e \<noteq> KRead" "getKind e \<noteq> KNotOptimized"
  shows "\<exists>c. rebuild False e ks = Some (ConstantExpr c)"
  using assms Extract_create_const
  by (cases e)
    (auto simp: Binary_create_const Select_create_const Concat_create.simps Not_create_def
      ZExt_create_def SExt_create_def Let_def length_Suc_conv split: if_splits)

lemma evalRead_const:
  assumes "\<not> allowFreeValues as" "agrees as env"
    and f: "\<And>d d'. f d = Some d' \<Longrightarrow> eqv_on (agrees as) d' d"
    and "array_ok a"
  shows "wfu u a \<Longrightarrow> evaluable_upd u env \<Longrightarrow>
    (\<And>d. wfe d \<Longrightarrow> evaluable d env \<Longrightarrow> size d < size u \<Longrightarrow> \<exists>c. f d = Some (ConstantExpr c)) \<Longrightarrow>
    \<exists>c. evalRead False (evaluate_byte False as) f a u index = Some (ChangeTo (ConstantExpr c))"
proof (induction u rule: updates.induct [where ?P1.0 = "\<lambda>_. True"])
  case UNil
  then show ?case
    using assms(1) by (auto simp: evaluate_byte_def split: option.split)
next
  case (UpdateNode i val n)
  then obtain ci cv where r: "f i = Some (ConstantExpr ci)" "f val = Some (ConstantExpr cv)"
    by fastforce
  have "\<exists>c. evalRead False (evaluate_byte False as) f a n index = Some (ChangeTo (ConstantExpr c))"
    using UpdateNode by simp
  moreover have "ce_getZExtValue 64 ci = Some (apval ci)"
    using index_const(1) [OF f, of i ci a] r UpdateNode.prems(1) assms(4) by auto
  ultimately show ?case
    using r by simp
qed simp_all

lemma evalKind_const:
  assumes "\<not> allowFreeValues as" "agrees as env"
    and f: "\<And>d d'. f d = Some d' \<Longrightarrow> eqv_on (agrees as) d' d"
    and sub: "\<And>d. wfe d \<Longrightarrow> evaluable d env \<Longrightarrow> size d < size e \<Longrightarrow> \<exists>c. f d = Some (ConstantExpr c)"
    and e: "wfe e" "evaluable e env" "evalExpr False e = DoChildren"
  shows "(\<exists>c. evalKind False (evaluate_byte False as) f e = Some (ChangeTo (ConstantExpr c))) \<or>
    evalKind False (evaluate_byte False as) f e = Some DoChildren \<and> getKind e \<noteq> KRead"
proof (cases e)
  case (ReadExpr a u ix)
  then obtain c where c: "f ix = Some (ConstantExpr c)"
    using sub [of ix] e by auto
  have "ce_getZExtValue 64 c = Some (apval c)"
    using index_const(1) [OF f, of ix c a] c ReadExpr e(1) by auto
  moreover have "\<exists>c. evalRead False (evaluate_byte False as) f a u i = Some (ChangeTo (ConstantExpr c))" for i
    by (rule evalRead_const [OF assms(1,2) f]) (use ReadExpr e sub in auto)
  ultimately show ?thesis
    using c ReadExpr by (simp add: evalVisitRead_def)
next
  case (BinaryExpr k l r)
  show ?thesis
  proof (cases "isDivKind k")
    case True
    obtain c0 c1 where c: "f l = Some (ConstantExpr c0)" "f r = Some (ConstantExpr c1)"
      using sub [of l] sub [of r] BinaryExpr e by auto
    have "eval r env = apval c1"
      using f [OF c(2)] BinaryExpr e(1) assms(2) by (auto simp: eqv_on_def)
    then have "\<not> ce_isZero c1"
      using True BinaryExpr e(2) by (simp add: ce_isZero_def)
    moreover have "l \<noteq> ConstantExpr c0 \<or> r \<noteq> ConstantExpr c1"
      using e(3) BinaryExpr rebuild_const [of "[l, r]" e] by (auto simp: evalExpr_def)
    ultimately show ?thesis
      using c BinaryExpr True Binary_create_const [of k c0 c1] by (auto simp: protectedDivOperation_def)
  qed (simp add: BinaryExpr)
qed auto

lemma evaluable_kids: "evaluable e env \<Longrightarrow> k \<in> set (kids e) \<Longrightarrow> evaluable k env"
  by (cases e) auto

lemma evalExpr_DoChildren:
  assumes "evalExpr False e = DoChildren" "as_const e = None" "evaluable e env" "getKind e \<noteq> KRead"
  shows "\<not> list_all (\<lambda>k. as_const k \<noteq> None) (kids e)"
proof
  assume const: "list_all (\<lambda>k. as_const k \<noteq> None) (kids e)"
  then have "getKind e \<noteq> KNotOptimized" "kids e \<noteq> []"
    using assms by (cases e; auto)+
  then show False
    using rebuild_const [of "kids e" e] const assms(1,4) by (auto simp: evalExpr_def)
qed

lemma visit_evaluator_const:
  assumes "\<not> allowFreeValues a" "agrees a env"
  shows "wfe e \<Longrightarrow> evaluable e env \<Longrightarrow> size e < n \<Longrightarrow>
    \<exists>c. visit False (evaluator False a) n e = Some (ConstantExpr c)"
proof (induction n arbitrary: e)
  case (Suc n)
  let ?f = "visit False (evaluator False a) n"
  have f: "\<And>d d'. ?f d = Some d' \<Longrightarrow> eqv_on (agrees a) d' d"
    by (rule evaluator.visit_ok)
  have sub: "\<exists>c. ?f d = Some (ConstantExpr c)" if "wfe d" "evaluable d env" "size d < size e" for d
    using that Suc by auto
  consider c where "e = ConstantExpr c"
    | x where "as_const e = None" "evalExpr False e = ChangeTo x"
    | "as_const e = None" "evalExpr False e = DoChildren"
    by (cases "as_const e"; cases "evalExpr False e") (auto simp: evalExpr_def split: if_splits option.splits)
  then show ?case
  proof cases
    case 2
    then have "list_all (\<lambda>k. as_const k \<noteq> None) (kids e)" "getKind e \<noteq> KRead" "kids e \<noteq> []"
      "rebuild False e (kids e) = Some x"
      by (auto simp: evalExpr_def split: if_splits option.splits)
    moreover from this have "getKind e \<noteq> KNotOptimized"
      using Suc.prems(2) by (cases e) auto
    ultimately have "\<exists>c. x = ConstantExpr c"
      using rebuild_const [of "kids e" e] by auto
    with 2 show ?thesis
      by (auto simp: evaluator_def)
  next
    case 3
    have kids: "\<exists>c. ?f k = Some (ConstantExpr c)" if "k \<in> set (kids e)" for k
      by (rule sub) (use that wfe_kids Suc.prems kids_smaller evaluable_kids in blast)+
    then have "opt_list (map ?f (kids e)) \<noteq> None"
      by (auto simp: opt_list_map_None)
    then obtain ks where ks: "opt_list (map ?f (kids e)) = Some ks"
      by blast
    then have len: "length ks = length (kids e)" and const: "list_all (\<lambda>k. as_const k \<noteq> None) ks"
      using kids by (auto simp: opt_list_map_Some list_all2_conv_all_nth list_all_length)
        (metis nth_mem option.inject)
    have "(\<exists>c. evalKind False (evaluate_byte False a) ?f e = Some (ChangeTo (ConstantExpr c))) \<or>
        evalKind False (evaluate_byte False a) ?f e = Some DoChildren \<and> getKind e \<noteq> KRead"
      by (rule evalKind_const [OF assms]) (use f sub Suc.prems(1,2) 3(2) in blast)+
    then consider c where "evalKind False (evaluate_byte False a) ?f e = Some (ChangeTo (ConstantExpr c))"
      | "evalKind False (evaluate_byte False a) ?f e = Some DoChildren" "getKind e \<noteq> KRead"
      by blast
    then show ?thesis
    proof cases
      case 1
      with 3 show ?thesis
        by (simp add: evaluator_def)
    next
      case 2
      have ne: "ks \<noteq> kids e" "kids e \<noteq> []"
        using evalExpr_DoChildren [OF 3(2,1) Suc.prems(2) 2(2)] const by auto
      show ?thesis
      proof (cases "getKind e = KNotOptimized")
        case True
        then obtain x c where "e = NotOptimizedExpr x" "ks = [ConstantExpr c]"
          using len const by (cases e) (auto simp: length_Suc_conv)
        with 2 ks 3 ne show ?thesis
          by (simp add: evaluator_def NotOptimized_create_def)
      next
        case False
        then obtain c where "rebuild False e ks = Some (ConstantExpr c)"
          using rebuild_const [OF const len ne(2) 2(2)] by blast
        with 2 ks 3 ne show ?thesis
          by (simp add: evaluator_def)
      qed
    qed
  qed simp
qed simp

lemma evaluate_const:
  assumes "\<not> allowFreeValues a" "agrees a env" "wfe e" "evaluable e env"
  shows "\<exists>c. evaluate False a e = Some (ConstantExpr c) \<and> bitWidth c = getWidth e \<and> apval c = eval e env"
proof -
  obtain c where c: "evaluate False a e = Some (ConstantExpr c)"
    unfolding evaluate_def using visit_evaluator_const [OF assms lessI] by blast
  then show ?thesis
    using eqv_onD [OF evaluate_ok [OF c] assms(3)] assms(2) by auto
qed

lemma satisfies_iff:
  assumes "\<not> allowFreeValues a" "agrees a env"
    and "\<And>e. e \<in> set cs \<Longrightarrow> wfe e \<and> getWidth e = 1 \<and> evaluable e env"
  shows "satisfies False a cs = Some (\<forall>e \<in> set cs. eval e env = 1)"
  using assms(3)
proof (induction cs)
  case (Cons e cs)
  then obtain c where c: "evaluate False a e = Some (ConstantExpr c)" "bitWidth c = 1" "apval c = eval e env"
    using evaluate_const [OF assms(1,2), of e] by force
  then have "e_isTrue (ConstantExpr c) \<longleftrightarrow> eval e env = 1"
    using Cons.prems [of e] eval_Bool [of e env] by (auto simp: e_isTrue_def ce_isTrue_def)
  with Cons c show ?case
    by (auto simp: satisfies_def)
qed (simp add: satisfies_def)

section \<open>Properties\<close>

text \<open>
  C11: evaluating a well-formed expression under an assignment without free values returns, and
  returns the constant whose width is that of the expression and whose value is the value of the
  expression, when no division is by zero under the assignment and no constant is wrapped as not
  optimized.
\<close>

theorem evaluate_complete:
  assumes "\<not> allowFreeValues a" "agrees a env" "wfe e" "evaluable e env"
  shows "\<exists>c. evaluate False a e = Some (ConstantExpr c) \<and> bitWidth c = getWidth e \<and> apval c = eval e env"
  by (rule evaluate_const [OF assms])

definition example_assignment :: assignment where
  "example_assignment = \<lparr>allowFreeValues = False, bindings = [example_array 0 \<mapsto> [7, 1]]\<rparr>"

definition example_env :: env where
  "example_env arr i = (if arr = example_array 0 \<and> i < 2 then [7, 1] ! i else 0)"

lemma example_agrees: "agrees example_assignment example_env"
  by (auto simp: agrees_def example_assignment_def example_env_def)

theorem evaluate_complete_witness:
  "\<exists>c. evaluate False example_assignment (BinaryExpr Add (example_byte 0 0) (example_byte 0 1)) = Some (ConstantExpr c) \<and>
     bitWidth c = 8 \<and> apval c = 8"
  using evaluate_complete [OF _ example_agrees, of "BinaryExpr Add (example_byte 0 0) (example_byte 0 1)"]
  by (simp add: example_assignment_def example_byte_def example_env_def initial_def ap_ok_def)



text \<open>
  \<open>Assignment::satisfies\<close> decides whether all constraints have the value true.
\<close>

theorem satisfies_decides:
  assumes "\<not> allowFreeValues a" "agrees a env"
    and "\<And>e. e \<in> set cs \<Longrightarrow> wfe e \<and> getWidth e = 1 \<and> evaluable e env"
  shows "satisfies False a cs = Some (\<forall>e \<in> set cs. eval e env = 1)"
  by (rule satisfies_iff [OF assms])

theorem satisfies_decides_witness:
  "satisfies False example_assignment [BinaryExpr Ult (example_byte 0 1) (example_byte 0 0)] = Some True"
  using satisfies_decides [OF _ example_agrees, of "[BinaryExpr Ult (example_byte 0 1) (example_byte 0 0)]"]
  by (simp add: example_assignment_def example_byte_def example_env_def initial_def ap_ok_def)

end
