(* ===== verification/Regions.thy ===== *)
theory Regions
  imports Expr
begin

text \<open>
  Bit regions of secrets (\<open>struct region\<close> in \<open>lib/Core/AnalyzeConstraint.h\<close>): intersection,
  shifting, coalescing and merging (\<open>lib/Core/AnalyzeConstraint.cpp\<close>) and clearing
  (\<open>lib/Core/Executor.cpp\<close>). A region denotes the set of its bit positions; every operation is
  compared with the set operation it stands for. Offsets and sizes are C \<open>int\<close>s that the code
  moves through \<open>unsigned\<close>: \<open>u32\<close> and \<open>i32\<close> are those conversions.
\<close>

section \<open>Regions\<close>

record region =
  offset :: int
  rsize :: int

definition u32 :: "int \<Rightarrow> int" where
  "u32 x = take_bit 32 x"

definition i32 :: "int \<Rightarrow> int" where
  "i32 x = signed_take_bit 31 x"

text \<open>The order on regions that keys the information flow rules.\<close>

definition region_less :: "region \<Rightarrow> region \<Rightarrow> bool" where
  "region_less r1 r2 = (offset r1 < offset r2 \<or> offset r1 = offset r2 \<and> rsize r1 < rsize r2)"

definition rangesIntersect :: "int \<Rightarrow> int \<Rightarrow> int \<Rightarrow> int \<Rightarrow> bool" where
  "rangesIntersect min1 max1 min2 max2 = (if min1 > max2 \<or> min2 > max1 then False else True)"

definition moveOffset :: "region list \<Rightarrow> int \<Rightarrow> region list" where
  "moveOffset rs v = map (\<lambda>r. r\<lparr>offset := i32 (u32 (offset r + v))\<rparr>) rs"

definition intersect1 :: "region \<Rightarrow> region \<Rightarrow> region option" where
  "intersect1 r1 r2 =
     (let min1 = u32 (offset r1); max1 = u32 (offset r1 + rsize r1 - 1);
          min2 = u32 (offset r2); max2 = u32 (offset r2 + rsize r2 - 1);
          maxofmin = (if min1 > min2 then min1 else min2);
          minofmax = (if max1 < max2 then max1 else max2)
      in if maxofmin > minofmax then None
         else Some \<lparr>offset = i32 maxofmin, rsize = i32 (u32 (minofmax - maxofmin + 1))\<rparr>)"

fun intersect :: "region \<Rightarrow> region list \<Rightarrow> region list" where
  "intersect r1 [] = []"
| "intersect r1 (r2 # rs) =
     (case intersect1 r1 r2 of Some r \<Rightarrow> r # intersect r1 rs | None \<Rightarrow> intersect r1 rs)"

definition shiftLeft1 :: "int \<Rightarrow> int \<Rightarrow> region \<Rightarrow> region list" where
  "shiftLeft1 v w r1 =
     (let off = i32 (u32 (offset r1 + v));
          sz = (if u32 (offset r1 + v + rsize r1) > w then i32 (u32 (w - off)) else rsize r1)
      in if sz > 0 then [\<lparr>offset = off, rsize = sz\<rparr>] else [])"

definition shiftLeft :: "region list \<Rightarrow> int \<Rightarrow> int \<Rightarrow> region list" where
  "shiftLeft rs v w = concat (map (shiftLeft1 v w) rs)"

definition shiftRight1 :: "int \<Rightarrow> region \<Rightarrow> region list" where
  "shiftRight1 v r1 =
     (let off = i32 (u32 (offset r1 - v));
          off' = (if off < 0 then 0 else off);
          sz = (if off < 0 then i32 (u32 (rsize r1 + offset r1 - v)) else rsize r1)
      in if sz > 0 then [\<lparr>offset = off', rsize = sz\<rparr>] else [])"

definition shiftRight :: "region list \<Rightarrow> int \<Rightarrow> int \<Rightarrow> region list" where
  "shiftRight rs v w = concat (map (shiftRight1 v) rs)"

definition canCoalesce :: "region \<Rightarrow> region \<Rightarrow> bool" where
  "canCoalesce r1 r2 =
     (if offset r1 + rsize r1 = offset r2 \<or> offset r2 + rsize r2 = offset r1 then True
      else rangesIntersect (u32 (offset r1)) (u32 (offset r1 + rsize r1 - 1))
             (u32 (offset r2)) (u32 (offset r2 + rsize r2 - 1)))"

definition coalasce :: "region \<Rightarrow> region \<Rightarrow> region option" where
  "coalasce r1 r2 =
     (if canCoalesce r1 r2 then
        (let newoffset = u32 (if offset r1 < offset r2 then offset r1 else offset r2);
             newsize = u32 (if offset r1 + rsize r1 - 1 > offset r2 + rsize r2 - 1
                            then offset r1 + rsize r1 - newoffset
                            else offset r2 + rsize r2 - newoffset)
         in Some \<lparr>offset = i32 newoffset, rsize = i32 newsize\<rparr>)
      else None)"

text \<open>\<open>ins\<close> is the flag \<open>insert\<close> that no region of the list took the new one in.\<close>

fun mergeAndCoalesce1_loop :: "region \<Rightarrow> region list \<Rightarrow> bool \<Rightarrow> region list" where
  "mergeAndCoalesce1_loop r1 [] ins = (if ins then [r1] else [])"
| "mergeAndCoalesce1_loop r1 (r2 # rs) ins =
     (case coalasce r1 r2 of
        Some r \<Rightarrow> r # mergeAndCoalesce1_loop r1 rs False
      | None \<Rightarrow> r2 # mergeAndCoalesce1_loop r1 rs ins)"

definition mergeAndCoalesce1 :: "region \<Rightarrow> region list \<Rightarrow> region list" where
  "mergeAndCoalesce1 r1 rs = mergeAndCoalesce1_loop r1 rs True"

definition mergeAndCoalesce :: "region list \<Rightarrow> region list \<Rightarrow> region list" where
  "mergeAndCoalesce rs1 rs2 = foldl (\<lambda>temp r. mergeAndCoalesce1 r temp) rs2 rs1"

text \<open>Clearing (\<open>Executor.cpp\<close>).\<close>

definition clearRegion1 :: "region \<Rightarrow> region \<Rightarrow> region list" where
  "clearRegion1 r s =
     (if offset r = offset s \<and> rsize r = rsize s then []
      else
        let min1 = u32 (offset r); max1 = u32 (offset r + rsize r - 1); size1 = u32 (rsize r);
            min2 = u32 (offset s); max2 = u32 (offset s + rsize s - 1); size2 = u32 (rsize s)
        in if rangesIntersect min1 max1 min2 max2 then
             if u32 (min1 + size1) = u32 (min2 + size2) then
               [\<lparr>offset = i32 (if min1 < min2 then min1 else min2),
                 rsize = i32 (u32 (if min1 < min2 then size1 - size2 else size2 - size1))\<rparr>]
             else if min1 = min2 then
               [\<lparr>offset = i32 (u32 (if size1 > size2 then min2 + size2 else min1 + size1)),
                 rsize = i32 (u32 (if size1 > size2 then size1 - size2 else size2 - size1))\<rparr>]
             else
               [\<lparr>offset = i32 (if min1 < min2 then min1 else min2),
                 rsize = i32 (u32 (if min1 > min2 then min1 - min2 else min2 - min1))\<rparr>,
                \<lparr>offset = i32 (u32 (if max1 < max2 then max1 + 1 else max2 + 1)),
                 rsize = i32 (u32 (if max1 > max2 then max1 - max2 else max2 - max1))\<rparr>]
           else [s])"

definition clearRegionFrom :: "region \<Rightarrow> region list \<Rightarrow> region list" where
  "clearRegionFrom r source = concat (map (clearRegion1 r) source)"

fun clearRegion :: "region list \<Rightarrow> region list \<Rightarrow> region list" where
  "clearRegion [] temp = temp"
| "clearRegion (r # rs) temp =
     (let result = clearRegionFrom r temp
      in if result = [] then result else clearRegion rs result)"

section \<open>The bits of a region\<close>

text \<open>
  A region is proper when it is not empty and its end is an \<open>int\<close>: then no conversion changes a
  value.
\<close>

definition region_ok :: "region \<Rightarrow> bool" where
  "region_ok r \<longleftrightarrow> 0 \<le> offset r \<and> 0 < rsize r \<and> offset r + rsize r < 2 ^ 31"

definition bits :: "region \<Rightarrow> int set" where
  "bits r = {offset r ..< offset r + rsize r}"

definition bits_of :: "region list \<Rightarrow> int set" where
  "bits_of rs = (\<Union>r \<in> set rs. bits r)"

lemma bits_of_simps [simp]:
  "bits_of [] = {}" "bits_of (r # rs) = bits r \<union> bits_of rs" "bits_of (rs @ rs') = bits_of rs \<union> bits_of rs'"
  by (simp_all add: bits_of_def)

lemma u32_id [simp]: "0 \<le> x \<Longrightarrow> x < 2 ^ 32 \<Longrightarrow> u32 x = x"
  by (simp add: u32_def take_bit_int_eq_self)

lemma i32_id [simp]: "- (2 ^ 31) \<le> x \<Longrightarrow> x < 2 ^ 31 \<Longrightarrow> i32 x = x"
  by (simp add: i32_def signed_take_bit_int_eq_self)

lemma i32_u32 [simp]: "i32 (u32 x) = i32 x"
  by (simp add: i32_def u32_def signed_take_bit_take_bit)

lemma bits_nonempty: "region_ok r \<Longrightarrow> bits r \<noteq> {}"
  by (simp add: region_ok_def bits_def)

lemma bits_of_empty: "list_all region_ok rs \<Longrightarrow> bits_of rs = {} \<longleftrightarrow> rs = []"
  using bits_nonempty by (cases rs) auto

lemma intersect1_ok:
  assumes "region_ok r1" "region_ok r2"
  shows "intersect1 r1 r2 = None \<longleftrightarrow> bits r1 \<inter> bits r2 = {}"
    "intersect1 r1 r2 = Some r \<Longrightarrow> region_ok r \<and> bits r = bits r1 \<inter> bits r2"
  using assms by (auto simp: intersect1_def region_ok_def bits_def Let_def split: if_splits)

lemma intersect_ok:
  assumes "region_ok r1" "list_all region_ok rs"
  shows "list_all region_ok (intersect r1 rs) \<and> bits_of (intersect r1 rs) = bits r1 \<inter> bits_of rs"
  using assms(2)
proof (induction rs)
  case (Cons r2 rs)
  then show ?case
    using intersect1_ok [OF assms(1), of r2]
    by (cases "intersect1 r1 r2") (auto simp: Int_Un_distrib)
qed simp

lemma shiftLeft1_ok:
  assumes "region_ok r" "0 \<le> v" "v < 2 ^ 30" "0 \<le> w" "w < 2 ^ 31" "offset r + rsize r < 2 ^ 30"
  shows "list_all region_ok (shiftLeft1 v w r)" "bits_of (shiftLeft1 v w r) = ((+) v ` bits r) \<inter> {..< w}"
  using assms by (auto simp: shiftLeft1_def region_ok_def bits_def Let_def split: if_splits)

lemma image_minus_interval: "(\<lambda>b. b - v) ` {a ..< b} = {a - v ..< b - (v::int)}"
proof -
  have "x \<in> (\<lambda>b. b - v) ` {a ..< b}" if "a - v \<le> x" "x < b - v" for x
    using that by (intro image_eqI [of _ _ "x + v"]) auto
  then show ?thesis
    by auto
qed

lemma shiftRight1_ok:
  assumes "region_ok r" "0 \<le> v" "v < 2 ^ 31"
  shows "list_all region_ok (shiftRight1 v r)" "bits_of (shiftRight1 v r) = ((\<lambda>b. b - v) ` bits r) \<inter> {0 ..}"
  using assms by (auto simp: shiftRight1_def region_ok_def bits_def Let_def image_minus_interval split: if_splits)

lemma list_all_concat_map: "list_all (\<lambda>x. list_all P (f x)) xs \<Longrightarrow> list_all P (concat (map f xs))"
  by (induction xs) auto

lemma bits_of_concat_map: "bits_of (concat (map f xs)) = (\<Union>x \<in> set xs. bits_of (f x))"
  by (induction xs) auto

lemma shiftLeft_ok:
  assumes "list_all (\<lambda>r. region_ok r \<and> offset r + rsize r < 2 ^ 30) rs" "0 \<le> v" "v < 2 ^ 30" "0 \<le> w" "w < 2 ^ 31"
  shows "list_all region_ok (shiftLeft rs v w) \<and> bits_of (shiftLeft rs v w) = ((+) v ` bits_of rs) \<inter> {..< w}"
proof -
  have r: "list_all region_ok (shiftLeft1 v w r)" "bits_of (shiftLeft1 v w r) = ((+) v ` bits r) \<inter> {..< w}"
    if "r \<in> set rs" for r
    using assms that shiftLeft1_ok [of r v w] by (auto simp: list_all_iff)
  then have "list_all region_ok (shiftLeft rs v w)"
    unfolding shiftLeft_def by (intro list_all_concat_map) (auto simp: list_all_iff)
  moreover have "bits_of (shiftLeft rs v w) = ((+) v ` bits_of rs) \<inter> {..< w}"
    using r(2) by (auto simp: shiftLeft_def bits_of_concat_map bits_of_def [of rs])
  ultimately show ?thesis ..
qed

lemma shiftRight_ok:
  assumes "list_all region_ok rs" "0 \<le> v" "v < 2 ^ 31"
  shows "list_all region_ok (shiftRight rs v w) \<and> bits_of (shiftRight rs v w) = ((\<lambda>b. b - v) ` bits_of rs) \<inter> {0 ..}"
proof -
  have r: "list_all region_ok (shiftRight1 v r)" "bits_of (shiftRight1 v r) = ((\<lambda>b. b - v) ` bits r) \<inter> {0 ..}"
    if "r \<in> set rs" for r
    using assms that shiftRight1_ok [of r v] by (auto simp: list_all_iff)
  then have "list_all region_ok (shiftRight rs v w)"
    unfolding shiftRight_def by (intro list_all_concat_map) (auto simp: list_all_iff)
  moreover have "bits_of (shiftRight rs v w) = ((\<lambda>b. b - v) ` bits_of rs) \<inter> {0 ..}"
    using r(2) by (auto simp: shiftRight_def bits_of_concat_map bits_of_def [of rs])
  ultimately show ?thesis ..
qed

lemma moveOffset_ok:
  assumes "list_all (\<lambda>r. region_ok r \<and> 0 \<le> offset r + v \<and> offset r + v + rsize r < 2 ^ 31) rs"
  shows "list_all region_ok (moveOffset rs v) \<and> bits_of (moveOffset rs v) = (+) v ` bits_of rs"
  using assms
proof (induction rs)
  case (Cons r rs)
  have "bits (r\<lparr>offset := offset r + v\<rparr>) = (+) v ` bits r"
    by (simp add: bits_def ac_simps)
  with Cons show ?case
    by (auto simp: moveOffset_def region_ok_def)
qed (simp add: moveOffset_def)

section \<open>Merging\<close>

text \<open>Two regions coalesce exactly when they overlap or touch, and the result is their union.\<close>

lemma coalasce_ok:
  assumes "region_ok r1" "region_ok r2"
  shows "coalasce r1 r2 = Some r \<Longrightarrow> region_ok r \<and> bits r = bits r1 \<union> bits r2"
    "coalasce r1 r2 = None \<longleftrightarrow> offset r1 + rsize r1 < offset r2 \<or> offset r2 + rsize r2 < offset r1"
  using assms
  by (auto simp: coalasce_def canCoalesce_def rangesIntersect_def region_ok_def bits_def Let_def split: if_splits)

lemma mergeAndCoalesce1_loop_ok:
  assumes "region_ok r1"
  shows "list_all region_ok rs \<Longrightarrow> (\<not> ins \<longrightarrow> True) \<Longrightarrow>
    list_all region_ok (mergeAndCoalesce1_loop r1 rs ins) \<and>
    bits_of (mergeAndCoalesce1_loop r1 rs ins) =
      bits_of rs \<union> (if ins \<or> (\<exists>r \<in> set rs. coalasce r1 r \<noteq> None) then bits r1 else {})"
proof (induction rs arbitrary: ins)
  case (Cons r2 rs)
  then show ?case
    using coalasce_ok(1) [OF assms, of r2]
    by (cases "coalasce r1 r2") (auto split: if_splits)
qed (use assms in auto)

lemma mergeAndCoalesce1_ok:
  "region_ok r1 \<Longrightarrow> list_all region_ok rs \<Longrightarrow>
   list_all region_ok (mergeAndCoalesce1 r1 rs) \<and> bits_of (mergeAndCoalesce1 r1 rs) = bits r1 \<union> bits_of rs"
  using mergeAndCoalesce1_loop_ok [of r1 rs True] by (auto simp: mergeAndCoalesce1_def)

lemma mergeAndCoalesce_ok:
  "list_all region_ok rs1 \<Longrightarrow> list_all region_ok rs2 \<Longrightarrow>
   list_all region_ok (mergeAndCoalesce rs1 rs2) \<and> bits_of (mergeAndCoalesce rs1 rs2) = bits_of rs1 \<union> bits_of rs2"
proof (induction rs1 arbitrary: rs2)
  case (Cons r rs1)
  then show ?case
    using mergeAndCoalesce1_ok [of r rs2] by (auto simp: mergeAndCoalesce_def)
qed (simp add: mergeAndCoalesce_def)

lemma mergeAndCoalesce_empty: "mergeAndCoalesce rs1 rs2 = [] \<longleftrightarrow> rs1 = [] \<and> rs2 = []"
proof -
  have ne: "mergeAndCoalesce1_loop r1 rs ins = [] \<longleftrightarrow> rs = [] \<and> \<not> ins" for r1 rs ins
    by (cases rs) (auto split: option.split)
  have "rs2 \<noteq> [] \<Longrightarrow> mergeAndCoalesce rs1 rs2 \<noteq> []" for rs1 rs2
    by (induction rs1 arbitrary: rs2) (auto simp: mergeAndCoalesce_def mergeAndCoalesce1_def ne)
  then show ?thesis
    by (cases rs1) (auto simp: mergeAndCoalesce_def mergeAndCoalesce1_def ne)
qed

section \<open>Clearing\<close>

text \<open>
  Clearing a region from an overlapping one leaves the bits that are in exactly one of the two:
  the bits of the source outside the cleared region, and also the bits of the cleared region
  outside the source.
\<close>

lemma clearRegion1_bits:
  assumes "region_ok r" "region_ok s"
  shows "list_all region_ok (clearRegion1 r s)"
    "bits_of (clearRegion1 r s) =
      (if bits r \<inter> bits s = {} then bits s else (bits s - bits r) \<union> (bits r - bits s))"
proof -
  note defs = clearRegion1_def rangesIntersect_def region_ok_def bits_def Let_def
  have disj: "bits r \<inter> bits s = {} \<longleftrightarrow> offset r + rsize r \<le> offset s \<or> offset s + rsize s \<le> offset r"
    using assms by (auto simp: bits_def region_ok_def)
  show "list_all region_ok (clearRegion1 r s)"
    using assms by (auto simp: defs)
  show "bits_of (clearRegion1 r s) =
      (if bits r \<inter> bits s = {} then bits s else (bits s - bits r) \<union> (bits r - bits s))"
    using assms unfolding disj by (auto simp: defs)
qed

lemma clearRegion1_inside:
  assumes "region_ok r" "region_ok s" "bits r \<subseteq> bits s \<or> bits r \<inter> bits s = {}"
  shows "list_all region_ok (clearRegion1 r s) \<and> bits_of (clearRegion1 r s) = bits s - bits r"
  using clearRegion1_bits [OF assms(1,2)] assms(3) by auto

section \<open>Properties\<close>

definition example_region :: "int \<Rightarrow> int \<Rightarrow> region" where
  "example_region o' s = \<lparr>offset = o', rsize = s\<rparr>"

text \<open>
  C14: merging two vectors of regions loses no bit and adds none: the result covers the union of
  the bits of both.
\<close>

theorem merge_is_union:
  assumes "list_all region_ok rs1" "list_all region_ok rs2"
  shows "list_all region_ok (mergeAndCoalesce rs1 rs2) \<and>
    bits_of (mergeAndCoalesce rs1 rs2) = bits_of rs1 \<union> bits_of rs2"
  by (rule mergeAndCoalesce_ok [OF assms])

theorem merge_is_union_witness:
  "bits_of (mergeAndCoalesce [example_region 4 8, example_region 40 2] [example_region 0 4]) =
     bits_of [example_region 4 8, example_region 40 2] \<union> bits_of [example_region 0 4]"
  using merge_is_union [of "[example_region 4 8, example_region 40 2]" "[example_region 0 4]"]
  by (simp add: example_region_def region_ok_def)

text \<open>
  intersecting a region with a vector of regions gives exactly the common bits, and no region
  at all when there is none.
\<close>

theorem intersect_is_intersection:
  assumes "region_ok r" "list_all region_ok rs"
  shows "bits_of (intersect r rs) = bits r \<inter> bits_of rs \<and> (intersect r rs = [] \<longleftrightarrow> bits r \<inter> bits_of rs = {})"
  using intersect_ok [OF assms] bits_of_empty [of "intersect r rs"] by auto

theorem intersect_is_intersection_witness:
  "intersect (example_region 0 8) [example_region 8 8] = []"
  using intersect_is_intersection [of "example_region 0 8" "[example_region 8 8]"]
  by (auto simp: example_region_def region_ok_def bits_def)

text \<open>
  shifting regions moves their bits by the shift amount and drops those that leave the word.
\<close>

theorem shifts_move_bits:
  assumes "list_all (\<lambda>r. region_ok r \<and> offset r + rsize r < 2 ^ 30) rs" "0 \<le> v" "v < 2 ^ 30" "0 \<le> w" "w < 2 ^ 31"
  shows "bits_of (shiftLeft rs v w) = ((+) v ` bits_of rs) \<inter> {..< w} \<and>
    bits_of (shiftRight rs v w) = ((\<lambda>b. b - v) ` bits_of rs) \<inter> {0 ..}"
proof -
  have "list_all region_ok rs"
    using assms(1) by (simp add: list_all_iff)
  then show ?thesis
    using shiftLeft_ok [OF assms] shiftRight_ok [of rs v w] assms by auto
qed

theorem shifts_move_bits_witness:
  "bits_of (shiftLeft [example_region 4 8] 24 32) = ((+) 24 ` bits_of [example_region 4 8]) \<inter> {..< 32}"
  using shifts_move_bits [of "[example_region 4 8]" 24 32] by (simp add: example_region_def region_ok_def)

text \<open>
  clearing a region from an overlapping source region leaves the symmetric difference of the
  two. It is the difference when the cleared region lies within the source; otherwise bits that
  were never in the source enter the result.
\<close>

theorem clear_is_symmetric_difference:
  assumes "region_ok r" "region_ok s"
  shows "bits_of (clearRegion1 r s) =
    (if bits r \<inter> bits s = {} then bits s else (bits s - bits r) \<union> (bits r - bits s))"
  by (rule clearRegion1_bits(2) [OF assms])

theorem clear_is_symmetric_difference_witness:
  "bits_of (clearRegion1 (example_region 0 16) (example_region 0 8)) = {8 ..< 16}"
  using clear_is_symmetric_difference [of "example_region 0 16" "example_region 0 8"]
  by (auto simp: example_region_def region_ok_def bits_def)

end
