(* ===== verification/Labels.thy ===== *)
theory Labels
  imports Regions ExprStruct
begin

text \<open>
  The security labels of the executor (\<open>lib/Core/Executor.cpp\<close>): which bit regions of a symbolic
  array, and of a memory object in a state, are high or low; setting one label clears the other,
  and a query asks whether an access may touch a labelled region. States are named by their
  address, as the maps of the source are keyed.
\<close>

section \<open>The label maps\<close>

record labels =
  highSymRegions :: "string \<rightharpoonup> region list"
  lowSymRegions :: "string \<rightharpoonup> region list"
  highMemoryRegions :: "nat \<rightharpoonup> (expr \<rightharpoonup> region list)"
  lowMemoryRegions :: "nat \<rightharpoonup> (expr \<rightharpoonup> region list)"

text \<open>\<open>m[a]\<close> on a map of maps: a default entry is made when there is none.\<close>

definition at_or_empty :: "('a \<rightharpoonup> ('b \<rightharpoonup> 'c)) \<Rightarrow> 'a \<Rightarrow> 'b \<rightharpoonup> 'c" where
  "at_or_empty m a = (case m a of Some x \<Rightarrow> x | None \<Rightarrow> Map.empty)"

definition initHighLowRegions :: "nat \<Rightarrow> labels \<Rightarrow> labels" where
  "initHighLowRegions st lab = lab
     \<lparr>highMemoryRegions := (highMemoryRegions lab)(st \<mapsto> Map.empty),
      lowMemoryRegions := (lowMemoryRegions lab)(st \<mapsto> Map.empty)\<rparr>"

text \<open>\<open>clearSymRegion\<close> erases the key of an emptied vector and then assigns the vector to it.\<close>

definition clear_sym :: "string \<Rightarrow> region list \<Rightarrow> (string \<rightharpoonup> region list) \<Rightarrow> (string \<rightharpoonup> region list)" where
  "clear_sym name rs m =
     (case m name of
        None \<Rightarrow> m
      | Some cur \<Rightarrow>
          (let temp = clearRegion rs cur
           in (if temp = [] then m(name := None) else m)(name \<mapsto> temp)))"

definition clearSymRegion :: "string \<Rightarrow> region list \<Rightarrow> bool \<Rightarrow> labels \<Rightarrow> labels" where
  "clearSymRegion name rs high lab =
     (if high then lab\<lparr>highSymRegions := clear_sym name rs (highSymRegions lab)\<rparr>
      else lab\<lparr>lowSymRegions := clear_sym name rs (lowSymRegions lab)\<rparr>)"

definition clear_mem ::
  "nat \<Rightarrow> expr \<Rightarrow> region list \<Rightarrow> (nat \<rightharpoonup> (expr \<rightharpoonup> region list)) \<Rightarrow> (nat \<rightharpoonup> (expr \<rightharpoonup> region list))" where
  "clear_mem st a rs mm =
     (case mm st of
        None \<Rightarrow> mm
      | Some m \<Rightarrow>
          (case m a of
             None \<Rightarrow> mm
           | Some cur \<Rightarrow>
               (let temp = clearRegion rs cur
                in mm(st \<mapsto> (if temp = [] then m(a := None) else m(a \<mapsto> temp))))))"

definition clearMemoryRegion :: "nat \<Rightarrow> expr \<Rightarrow> region list \<Rightarrow> bool \<Rightarrow> labels \<Rightarrow> labels" where
  "clearMemoryRegion st a rs high lab =
     (if high then lab\<lparr>highMemoryRegions := clear_mem st a rs (highMemoryRegions lab)\<rparr>
      else lab\<lparr>lowMemoryRegions := clear_mem st a rs (lowMemoryRegions lab)\<rparr>)"

definition setHighMemoryRegion :: "nat \<Rightarrow> expr \<Rightarrow> region list \<Rightarrow> labels \<Rightarrow> labels" where
  "setHighMemoryRegion st a rs lab =
     (let m = (at_or_empty (highMemoryRegions lab) st)(a \<mapsto> rs)
      in clearMemoryRegion st a rs False
           (lab\<lparr>highMemoryRegions := (highMemoryRegions lab)(st \<mapsto> m)\<rparr>))"

definition setLowMemoryRegion :: "nat \<Rightarrow> expr \<Rightarrow> region list \<Rightarrow> labels \<Rightarrow> labels" where
  "setLowMemoryRegion st a rs lab =
     (let m = (at_or_empty (lowMemoryRegions lab) st)(a \<mapsto> rs)
      in clearMemoryRegion st a rs True
           (lab\<lparr>lowMemoryRegions := (lowMemoryRegions lab)(st \<mapsto> m)\<rparr>))"

definition isLowMemoryRegion :: "nat \<Rightarrow> expr \<Rightarrow> labels \<Rightarrow> bool" where
  "isLowMemoryRegion st a lab =
     (case lowMemoryRegions lab st of Some m \<Rightarrow> m a \<noteq> None | None \<Rightarrow> False)"

definition add_mem ::
  "nat \<Rightarrow> expr \<Rightarrow> region \<Rightarrow> (nat \<rightharpoonup> (expr \<rightharpoonup> region list)) \<Rightarrow> (nat \<rightharpoonup> (expr \<rightharpoonup> region list))" where
  "add_mem st a r mm =
     (let m = at_or_empty mm st;
          rs = (case m a of Some rs \<Rightarrow> rs | None \<Rightarrow> [])
      in mm(st \<mapsto> m(a \<mapsto> rs @ [r])))"

definition addHighMemoryRegion :: "nat \<Rightarrow> expr \<Rightarrow> region \<Rightarrow> labels \<Rightarrow> labels" where
  "addHighMemoryRegion st a r lab = lab\<lparr>highMemoryRegions := add_mem st a r (highMemoryRegions lab)\<rparr>"

definition addLowMemoryRegion :: "nat \<Rightarrow> expr \<Rightarrow> region \<Rightarrow> labels \<Rightarrow> labels" where
  "addLowMemoryRegion st a r lab = lab\<lparr>lowMemoryRegions := add_mem st a r (lowMemoryRegions lab)\<rparr>"

definition setHighSymRegion :: "string \<Rightarrow> region list \<Rightarrow> labels \<Rightarrow> labels" where
  "setHighSymRegion name rs lab =
     clearSymRegion name rs False (lab\<lparr>highSymRegions := (highSymRegions lab)(name \<mapsto> rs)\<rparr>)"

definition setLowSymRegion :: "string \<Rightarrow> region list \<Rightarrow> labels \<Rightarrow> labels" where
  "setLowSymRegion name rs lab =
     clearSymRegion name rs True (lab\<lparr>lowSymRegions := (lowSymRegions lab)(name \<mapsto> rs)\<rparr>)"

definition isASymRegion :: "string \<Rightarrow> bool \<Rightarrow> labels \<Rightarrow> bool" where
  "isASymRegion name high lab = (if high then highSymRegions lab name \<noteq> None else lowSymRegions lab name \<noteq> None)"

text \<open>Cloning asserts that the source state has been initialised.\<close>

definition cloneHighMemoryRegions :: "nat \<Rightarrow> nat \<Rightarrow> labels \<Rightarrow> labels option" where
  "cloneHighMemoryRegions from to lab =
     (case highMemoryRegions lab from of
        None \<Rightarrow> None
      | Some m \<Rightarrow> Some (lab\<lparr>highMemoryRegions := (highMemoryRegions lab)(to \<mapsto> m)\<rparr>))"

definition cloneLowMemoryRegions :: "nat \<Rightarrow> nat \<Rightarrow> labels \<Rightarrow> labels option" where
  "cloneLowMemoryRegions from to lab =
     (case lowMemoryRegions lab from of
        None \<Rightarrow> None
      | Some m \<Rightarrow> Some (lab\<lparr>lowMemoryRegions := (lowMemoryRegions lab)(to \<mapsto> m)\<rparr>))"

section \<open>Queries\<close>

text \<open>
  \<open>mayBeTrue\<close> of the solver in the current state is an argument: \<open>None\<close> is its failure (a
  timeout), \<open>Some res\<close> its answer.
\<close>

definition checkSymInRegion ::
  "bool \<Rightarrow> (expr \<Rightarrow> bool option) \<Rightarrow> region \<Rightarrow> expr \<Rightarrow> nat \<Rightarrow> nat \<Rightarrow> bool \<Rightarrow> bool" where
  "checkSymInRegion co mayBeTrue r off offsetType type computed =
     (let w = getWidth off;
          rbase = ConstantExpr (ce_alloc (offset r) w);
          rend = ConstantExpr (ce_alloc (offset r + rsize r - 1) w);
          o1 = (if \<not> computed then Mul_create off (ConstantExpr (ce_alloc (int offsetType) w))
                else Mul_create off (ConstantExpr (ce_alloc 8 w)));
          end = Add_create co o1 (ConstantExpr (ce_alloc (int type - 1) w));
          case1 = Ugt_create co rbase end;
          case2 = Ugt_create co o1 rend
      in if mayBeTrue case1 = Some True then False
         else if mayBeTrue case2 = Some True then False
         else True)"

definition isInRegion ::
  "bool \<Rightarrow> (expr \<Rightarrow> bool option) \<Rightarrow> region list \<Rightarrow> expr \<Rightarrow> nat \<Rightarrow> nat \<Rightarrow> bool \<Rightarrow> bool option" where
  "isInRegion co mayBeTrue rs off offsetType type computed =
     (case as_const off of
        Some CE \<Rightarrow>
          (case ce_getZExtValue 64 CE of
             None \<Rightarrow> None
           | Some value \<Rightarrow>
               (let base = take_bit 64 (if computed then value * 8 else value * int offsetType)
                in Some (list_ex (\<lambda>r. rangesIntersect (u32 (offset r)) (u32 (offset r + rsize r - 1))
                                       (u32 base) (u32 (base + int type - 1))) rs)))
      | None \<Rightarrow> Some (list_ex (\<lambda>r. checkSymInRegion co mayBeTrue r off offsetType type computed) rs))"

definition isInSymRegion ::
  "bool \<Rightarrow> (expr \<Rightarrow> bool option) \<Rightarrow> labels \<Rightarrow> string \<Rightarrow> expr \<Rightarrow> nat \<Rightarrow> nat \<Rightarrow> bool \<Rightarrow> bool \<Rightarrow> bool option" where
  "isInSymRegion co mayBeTrue lab name off offsetType type computed high =
     (case (if high then highSymRegions lab name else lowSymRegions lab name) of
        None \<Rightarrow> Some False
      | Some rs \<Rightarrow> isInRegion co mayBeTrue rs off offsetType type computed)"

definition isInHighMemoryRegion ::
  "bool \<Rightarrow> (expr \<Rightarrow> bool option) \<Rightarrow> labels \<Rightarrow> nat \<Rightarrow> expr \<Rightarrow> expr \<Rightarrow> nat \<Rightarrow> nat \<Rightarrow> bool \<Rightarrow> bool option" where
  "isInHighMemoryRegion co mayBeTrue lab st baseAddress off offsetType type computed =
     (case highMemoryRegions lab st of
        None \<Rightarrow> None
      | Some m \<Rightarrow>
          (case m baseAddress of
             None \<Rightarrow> Some False
           | Some rs \<Rightarrow> isInRegion co mayBeTrue rs off offsetType type computed))"

definition isInLowMemoryRegion ::
  "bool \<Rightarrow> (expr \<Rightarrow> bool option) \<Rightarrow> labels \<Rightarrow> nat \<Rightarrow> expr \<Rightarrow> expr \<Rightarrow> nat \<Rightarrow> nat \<Rightarrow> bool \<Rightarrow> bool option" where
  "isInLowMemoryRegion co mayBeTrue lab st baseAddress off offsetType type computed =
     (case lowMemoryRegions lab st of
        None \<Rightarrow> None
      | Some m \<Rightarrow>
          (case m baseAddress of
             None \<Rightarrow> Some False
           | Some rs \<Rightarrow> isInRegion co mayBeTrue rs off offsetType type computed))"

section \<open>Clearing a list of regions\<close>

text \<open>
  Regions that are pairwise disjoint and each inside, or apart from, every source region are
  cleared exactly.
\<close>

definition fits :: "region \<Rightarrow> region list \<Rightarrow> bool" where
  "fits r source \<longleftrightarrow> (\<forall>s \<in> set source. bits r \<subseteq> bits s \<or> bits r \<inter> bits s = {})"

lemma clearRegionFrom_ok:
  assumes "region_ok r" "list_all region_ok source" "fits r source"
  shows "list_all region_ok (clearRegionFrom r source) \<and> bits_of (clearRegionFrom r source) = bits_of source - bits r"
proof -
  have s: "list_all region_ok (clearRegion1 r s)" "bits_of (clearRegion1 r s) = bits s - bits r" if "s \<in> set source" for s
    using clearRegion1_inside [OF assms(1), of s] assms(2,3) that by (auto simp: fits_def list_all_iff)
  then have "list_all region_ok (clearRegionFrom r source)"
    unfolding clearRegionFrom_def by (intro list_all_concat_map) (simp add: list_all_iff)
  moreover have "bits_of (clearRegionFrom r source) = bits_of source - bits r"
    using s(2) by (auto simp: clearRegionFrom_def bits_of_concat_map bits_of_def [of source])
  ultimately show ?thesis ..
qed

lemma bits_subset:
  "region_ok a \<Longrightarrow> region_ok b \<Longrightarrow> bits a \<subseteq> bits b \<longleftrightarrow> offset b \<le> offset a \<and> offset a + rsize a \<le> offset b + rsize b"
  by (simp add: region_ok_def bits_def)

lemma bits_disjoint:
  "region_ok a \<Longrightarrow> region_ok b \<Longrightarrow> bits a \<inter> bits b = {} \<longleftrightarrow> offset a + rsize a \<le> offset b \<or> offset b + rsize b \<le> offset a"
  by (auto simp: region_ok_def bits_def)

text \<open>A region that fits still fits after a disjoint one has been cleared.\<close>

lemma clearRegion1_disjoint:
  assumes "region_ok r" "region_ok s" "bits r \<inter> bits s = {}"
  shows "clearRegion1 r s = [s]"
  using assms(3) unfolding bits_disjoint [OF assms(1,2)]
  using assms(1,2) by (auto simp: clearRegion1_def Let_def rangesIntersect_def region_ok_def)

lemma clearRegion1_pieces:
  assumes "region_ok r" "region_ok s" "bits r \<subseteq> bits s" "p \<in> set (clearRegion1 r s)"
  shows "region_ok p \<and> (offset p = offset s \<and> offset p + rsize p = offset r \<or>
    offset p = offset r + rsize r \<and> offset p + rsize p = offset s + rsize s)"
proof -
  have s: "offset s \<le> offset r" "offset r + rsize r \<le> offset s + rsize s"
    using assms(3) unfolding bits_subset [OF assms(1,2)] by auto
  have i: "rangesIntersect (u32 (offset r)) (u32 (offset r + rsize r - 1)) (u32 (offset s)) (u32 (offset s + rsize s - 1))"
    using assms(1,2) s by (simp add: rangesIntersect_def region_ok_def)
  have "region_ok p"
    using clearRegion1_bits(1) [OF assms(1,2)] assms(4) by (simp add: list_all_iff)
  moreover have "offset p = offset s \<and> offset p + rsize p = offset r \<or>
      offset p = offset r + rsize r \<and> offset p + rsize p = offset s + rsize s"
    using assms(4) s assms(1,2) unfolding clearRegion1_def Let_def if_P [OF i]
    by (auto simp: region_ok_def split: if_splits)
  ultimately show ?thesis ..
qed

lemma clearRegion1_fits:
  assumes ok: "region_ok r" "region_ok r'" "region_ok s" and "bits r \<inter> bits r' = {}"
    and "bits r \<subseteq> bits s \<or> bits r \<inter> bits s = {}" "bits r' \<subseteq> bits s \<or> bits r' \<inter> bits s = {}"
  shows "fits r' (clearRegion1 r s)"
  using assms(5)
proof
  assume "bits r \<inter> bits s = {}"
  then show ?thesis
    using assms(6) clearRegion1_disjoint [OF ok(1,3)] by (simp add: fits_def)
next
  assume sub: "bits r \<subseteq> bits s"
  show ?thesis
    unfolding fits_def
  proof
    fix p assume "p \<in> set (clearRegion1 r s)"
    from clearRegion1_pieces [OF ok(1,3) sub this] have p: "region_ok p"
      "offset p = offset s \<and> offset p + rsize p = offset r \<or>
       offset p = offset r + rsize r \<and> offset p + rsize p = offset s + rsize s"
      by blast+
    show "bits r' \<subseteq> bits p \<or> bits r' \<inter> bits p = {}"
      using p(2) sub assms(4,6)
      unfolding bits_subset [OF ok(2) p(1)] bits_disjoint [OF ok(2) p(1)] bits_subset [OF ok(1,3)]
        bits_disjoint [OF ok(1,2)] bits_subset [OF ok(2,3)] bits_disjoint [OF ok(2,3)]
      using ok(1) by (auto simp: region_ok_def)
  qed
qed

lemma clearRegion_ok:
  assumes "list_all region_ok rs" "list_all region_ok source" "\<And>r. r \<in> set rs \<Longrightarrow> fits r source"
    and "pairwise (\<lambda>r r'. bits r \<inter> bits r' = {}) (set rs)" "distinct rs"
  shows "list_all region_ok (clearRegion rs source) \<and> bits_of (clearRegion rs source) = bits_of source - bits_of rs"
  using assms
proof (induction rs arbitrary: source)
  case (Cons r rs)
  let ?t = "clearRegionFrom r source"
  have r: "list_all region_ok ?t" "bits_of ?t = bits_of source - bits r"
    using clearRegionFrom_ok [of r source] Cons.prems(1-3) by auto
  have fits: "fits r' ?t" if "r' \<in> set rs" for r'
  proof -
    have "r \<noteq> r'"
      using Cons.prems(5) that by auto
    then have "bits r \<inter> bits r' = {}"
      using Cons.prems(4) that by (auto simp: pairwise_def)
    then have "fits r' (clearRegion1 r s)" if "s \<in> set source" for s
      using clearRegion1_fits [of r r' s] Cons.prems(1-3) \<open>r' \<in> set rs\<close> that
      by (auto simp: fits_def list_all_iff)
    then show ?thesis
      by (auto simp: fits_def clearRegionFrom_def)
  qed
  have "list_all region_ok (clearRegion rs ?t) \<and> bits_of (clearRegion rs ?t) = bits_of ?t - bits_of rs"
    by (rule Cons.IH) (use Cons.prems r fits in \<open>auto simp: pairwise_insert\<close>)
  moreover have "clearRegion rs [] = []" for rs
    by (induction rs) (auto simp: clearRegionFrom_def)
  ultimately show ?case
    using r by (auto simp: Let_def)
qed simp

section \<open>Queries are exact\<close>

lemma list_ex_cong: "(\<And>x. x \<in> set xs \<Longrightarrow> P x = Q x) \<Longrightarrow> list_ex P xs = list_ex Q xs"
  by (induction xs) auto

lemma isInRegion_const:
  assumes "list_all region_ok rs" "ap_ok c" "bitWidth c \<le> 64" "0 < type"
    and "ot = (if computed then 8 else int offsetType)" "0 \<le> apval c * ot" "apval c * ot + int type \<le> 2 ^ 31"
  shows "isInRegion co mbt rs (ConstantExpr c) offsetType type computed =
    Some (\<exists>r \<in> set rs. bits r \<inter> {apval c * ot ..< apval c * ot + int type} \<noteq> {})"
proof -
  have "ce_getZExtValue 64 c = Some (apval c)"
    using assms(2,3) in_width_mono [of "bitWidth c" "apval c" 64] by (simp add: ce_getZExtValue_def ap_ok_def)
  moreover have "take_bit 64 (apval c * ot) = apval c * ot"
    using assms(6,7) by (simp add: take_bit_int_eq_self)
  moreover have "rangesIntersect (u32 (offset r)) (u32 (offset r + rsize r - 1)) (u32 (apval c * ot)) (u32 (apval c * ot + int type - 1)) \<longleftrightarrow>
      bits r \<inter> {apval c * ot ..< apval c * ot + int type} \<noteq> {}" if "r \<in> set rs" for r
    using that assms(1,4,6,7) by (auto simp: rangesIntersect_def region_ok_def bits_def list_all_iff)
  then have "list_ex (\<lambda>r. rangesIntersect (u32 (offset r)) (u32 (offset r + rsize r - 1))
      (u32 (apval c * ot)) (u32 (apval c * ot + int type - 1))) rs \<longleftrightarrow>
      (\<exists>r \<in> set rs. bits r \<inter> {apval c * ot ..< apval c * ot + int type} \<noteq> {})"
    by (simp add: list_ex_iff)
  ultimately show ?thesis
    using assms(5) by (cases computed) (simp_all add: isInRegion_def Let_def)
qed

lemma Mul_Add_no_wrap:
  assumes "wfe off" "0 \<le> ot" "0 \<le> d" "eval off env * ot + d < 2 ^ getWidth off" "ot < 2 ^ getWidth off" "d < 2 ^ getWidth off"
  shows "eval (Mul_create off (ConstantExpr (ce_alloc ot (getWidth off)))) env = eval off env * ot"
    "eval (Add_create False (Mul_create off (ConstantExpr (ce_alloc ot (getWidth off)))) (ConstantExpr (ce_alloc d (getWidth off)))) env =
       eval off env * ot + d"
    "wfe (Mul_create off (ConstantExpr (ce_alloc ot (getWidth off))))"
    "getWidth (Mul_create off (ConstantExpr (ce_alloc ot (getWidth off)))) = getWidth off"
    "wfe (Add_create False (Mul_create off (ConstantExpr (ce_alloc ot (getWidth off)))) (ConstantExpr (ce_alloc d (getWidth off))))"
    "getWidth (Add_create False (Mul_create off (ConstantExpr (ce_alloc ot (getWidth off)))) (ConstantExpr (ce_alloc d (getWidth off)))) =
       getWidth off"
proof -
  let ?w = "getWidth off"
  let ?m = "Mul_create off (ConstantExpr (ce_alloc ot ?w))"
  let ?a = "Add_create False ?m (ConstantExpr (ce_alloc d ?w))"
  have w: "0 < ?w" "0 \<le> eval off env"
    using getWidth_pos [OF assms(1)] eval_in_width(1) [OF assms(1), of env] by (auto simp: in_width_def)
  have nn: "0 \<le> eval off env * ot"
    using w(2) assms(2) by simp
  have m: "wfe ?m" "getWidth ?m = ?w" "eval ?m env = eval off env * ot"
    using eqvD [OF Mul_create_ok, of off "ConstantExpr (ce_alloc ot ?w)"] assms w nn
    by (auto simp: ap_ok_def in_width_def take_bit_int_eq_self)
  have "wfe ?a" "getWidth ?a = ?w" "eval ?a env = eval off env * ot + d"
    using eqvD [OF Add_create_ok, of ?m "ConstantExpr (ce_alloc d ?w)"] m assms w nn
    by (auto simp: ap_ok_def in_width_def take_bit_int_eq_self)
  with m show "eval ?m env = eval off env * ot" "eval ?a env = eval off env * ot + d" "wfe ?m"
    "getWidth ?m = ?w" "wfe ?a" "getWidth ?a = ?w"
    by simp_all
qed

lemma Ugt_create_value:
  assumes "wfe l" "wfe r" "getWidth l = getWidth r"
  shows "wfe (Ugt_create False l r)" "getWidth (Ugt_create False l r) = 1"
    "eval (Ugt_create False l r) env = of_bool (eval l env > eval r env)"
  using eqvD [OF cmp_swapped_create_ok(1), of l r] assms by simp_all

lemma checkSymInRegion_must:
  assumes r: "region_ok r" "offset r + rsize r \<le> 2 ^ getWidth off"
    and off: "wfe off" "0 < type" "int type \<le> 2 ^ getWidth off"
    and ot: "ot = (if computed then 8 else int offsetType)" "ot < 2 ^ getWidth off"
    and nowrap: "\<And>env. P env \<Longrightarrow> eval off env * ot + int type \<le> 2 ^ getWidth off"
    and "\<exists>env. P env"
    and solver: "\<And>e. wfe e \<Longrightarrow> getWidth e = 1 \<Longrightarrow> mbt e = Some (\<exists>env. P env \<and> eval e env = 1)"
  shows "checkSymInRegion False mbt r off offsetType type computed \<longleftrightarrow>
    (\<forall>env. P env \<longrightarrow> bits r \<inter> {eval off env * ot ..< eval off env * ot + int type} \<noteq> {})"
proof -
  let ?w = "getWidth off"
  let ?rb = "ConstantExpr (ce_alloc (offset r) ?w)" and ?re = "ConstantExpr (ce_alloc (offset r + rsize r - 1) ?w)"
  let ?m = "Mul_create off (ConstantExpr (ce_alloc ot ?w))"
  let ?a = "Add_create False ?m (ConstantExpr (ce_alloc (int type - 1) ?w))"
  have w: "0 < ?w"
    using getWidth_pos [OF off(1)] .
  have ot0: "0 \<le> ot"
    using ot(1) by simp
  have c: "wfe ?rb" "wfe ?re" "eval ?rb env = offset r" "eval ?re env = offset r + rsize r - 1" for env
    using r w by (auto simp: ap_ok_def region_ok_def in_width_def take_bit_int_eq_self)
  obtain env0 where "P env0"
    using assms(9) by blast
  have v: "eval ?m env = eval off env * ot" "eval ?a env = eval off env * ot + int type - 1" if "P env" for env
    using Mul_Add_no_wrap(1,2) [OF off(1) ot0, of "int type - 1" env] nowrap [OF that] off ot(2) by auto
  have wf: "wfe ?m" "getWidth ?m = ?w" "wfe ?a" "getWidth ?a = ?w"
    using Mul_Add_no_wrap(3-6) [OF off(1) ot0, of "int type - 1" env0] nowrap [OF \<open>P env0\<close>] off ot(2) by auto
  have c1: "mbt (Ugt_create False ?rb ?a) = Some (\<exists>env. P env \<and> eval off env * ot + int type - 1 < offset r)"
    using Ugt_create_value [of ?rb ?a] c wf v solver [of "Ugt_create False ?rb ?a"] by auto
  have c2: "mbt (Ugt_create False ?m ?re) = Some (\<exists>env. P env \<and> eval off env * ot > offset r + rsize r - 1)"
    using Ugt_create_value [of ?m ?re] c wf v solver [of "Ugt_create False ?m ?re"] by auto
  have o1: "(if \<not> computed then Mul_create off (ConstantExpr (ce_alloc (int offsetType) ?w))
      else Mul_create off (ConstantExpr (ce_alloc 8 ?w))) = ?m"
    by (simp add: ot(1))
  have "checkSymInRegion False mbt r off offsetType type computed \<longleftrightarrow>
      (\<forall>env. P env \<longrightarrow> offset r < eval off env * ot + int type \<and> eval off env * ot < offset r + rsize r)"
    unfolding checkSymInRegion_def Let_def o1 c1 c2 by force
  also have "\<dots> \<longleftrightarrow> (\<forall>env. P env \<longrightarrow> bits r \<inter> {eval off env * ot ..< eval off env * ot + int type} \<noteq> {})"
    using r(1) off(2) by (auto simp: bits_def region_ok_def)
  finally show ?thesis .
qed

section \<open>Labels of an array and of an object\<close>

lemma setLowSymRegion_maps:
  assumes "highSymRegions lab name = Some cur"
  shows "highSymRegions (setLowSymRegion name rs lab) = (highSymRegions lab)(name \<mapsto> clearRegion rs cur)"
    "lowSymRegions (setLowSymRegion name rs lab) = (lowSymRegions lab)(name \<mapsto> rs)"
  using assms by (simp_all add: setLowSymRegion_def clearSymRegion_def clear_sym_def Let_def)

lemma setLowMemoryRegion_maps:
  assumes "highMemoryRegions lab st = Some m" "m a = Some cur"
  shows "highMemoryRegions (setLowMemoryRegion st a rs lab) st =
      Some (if clearRegion rs cur = [] then m(a := None) else m(a \<mapsto> clearRegion rs cur))"
  using assms by (simp add: setLowMemoryRegion_def clearMemoryRegion_def clear_mem_def Let_def)

text \<open>
  declaring regions of an array low takes exactly their bits off its high regions, when the
  regions are disjoint and each lies inside or apart from each high region, and leaves the labels
  of every other array alone.
\<close>

theorem low_clears_high:
  assumes "highSymRegions lab name = Some cur" "list_all region_ok rs" "list_all region_ok cur"
    and "\<And>r. r \<in> set rs \<Longrightarrow> fits r cur" "pairwise (\<lambda>r r'. bits r \<inter> bits r' = {}) (set rs)" "distinct rs"
  shows "\<exists>high. highSymRegions (setLowSymRegion name rs lab) = (highSymRegions lab)(name \<mapsto> high) \<and>
    bits_of high = bits_of cur - bits_of rs \<and>
    lowSymRegions (setLowSymRegion name rs lab) = (lowSymRegions lab)(name \<mapsto> rs)"
  using setLowSymRegion_maps [OF assms(1), of rs] clearRegion_ok [OF assms(2-6)] by blast

definition example_labels :: labels where
  "example_labels = \<lparr>highSymRegions = [''a'' \<mapsto> [example_region 0 32]], lowSymRegions = Map.empty,
     highMemoryRegions = [0 \<mapsto> Map.empty], lowMemoryRegions = [0 \<mapsto> Map.empty]\<rparr>"

theorem low_clears_high_witness:
  "\<exists>high. highSymRegions (setLowSymRegion ''a'' [example_region 8 8] example_labels) = [''a'' \<mapsto> high] \<and>
     bits_of high = {0 ..< 8} \<union> {16 ..< 32}"
proof -
  have "bits_of [example_region 0 32] - bits_of [example_region 8 8] = {0 ..< 8} \<union> {16 ..< 32}"
    by (auto simp: bits_def example_region_def)
  with low_clears_high [of example_labels "''a''" "[example_region 0 32]" "[example_region 8 8]"] show ?thesis
    by (auto simp: example_labels_def example_region_def region_ok_def fits_def bits_def)
qed

text \<open>
  an array that was high remains one after any part of it, even all of it, has been declared
  low: the key that \<open>clearSymRegion\<close> erases is put back by the assignment after it. For a memory
  object the key is gone once no region is left.
\<close>

theorem cleared_array_still_high:
  assumes "isASymRegion name True lab"
  shows "isASymRegion name True (setLowSymRegion name rs lab)"
  using assms setLowSymRegion_maps [of lab name] by (auto simp: isASymRegion_def)

theorem cleared_array_still_high_witness:
  "isASymRegion ''a'' True (setLowSymRegion ''a'' [example_region 0 32] example_labels)"
  by (rule cleared_array_still_high) (simp add: isASymRegion_def example_labels_def)



text \<open>
  an access at a symbolic offset is reported exactly when it touches the region under every
  solution of the path condition, given a solver that answers correctly and no wrap-around of the
  offset: a symbolic access that may but need not touch a secret is not reported.
\<close>

theorem symbolic_access_must:
  assumes "region_ok r" "offset r + rsize r \<le> 2 ^ getWidth off"
    and "as_const off = None" "wfe off" "0 < type" "int type \<le> 2 ^ getWidth off" "int offsetType < 2 ^ getWidth off"
    and "\<And>env. P env \<Longrightarrow> eval off env * int offsetType + int type \<le> 2 ^ getWidth off"
    and "\<exists>env. P env"
    and "\<And>e. wfe e \<Longrightarrow> getWidth e = 1 \<Longrightarrow> mbt e = Some (\<exists>env. P env \<and> eval e env = 1)"
  shows "isInRegion False mbt [r] off offsetType type False =
    Some (\<forall>env. P env \<longrightarrow> bits r \<inter> {eval off env * int offsetType ..< eval off env * int offsetType + int type} \<noteq> {})"
  using checkSymInRegion_must [of r off type "int offsetType" False offsetType P mbt] assms
  by (simp add: isInRegion_def)

theorem symbolic_access_must_witness:
  "isInRegion False (\<lambda>e. Some (\<exists>env. eval e env = 1)) [example_region 0 16] (ZExtExpr (example_byte 0 0) 32) 8 8 False =
     Some (\<forall>env. bits (example_region 0 16) \<inter>
       {eval (ZExtExpr (example_byte 0 0) 32) env * 8 ..< eval (ZExtExpr (example_byte 0 0) 32) env * 8 + 8} \<noteq> {})"
proof -
  have byte: "eval (ZExtExpr (example_byte 0 0) 32) env = eval (example_byte 0 0) env" "eval (example_byte 0 0) env < 256" for env
    using eval_in_width(1) [of "example_byte 0 0" env] in_width_mono [of 8 "eval (example_byte 0 0) env" 32]
    by (simp_all add: in_width_def)
  have "eval (ZExtExpr (example_byte 0 0) 32) env * 8 + 8 \<le> 2 ^ 32" for env
    unfolding byte(1) using byte(2) [of env] by simp
  then show ?thesis
    using symbolic_access_must [of "example_region 0 16" "ZExtExpr (example_byte 0 0) 32" 8 8 "\<lambda>_. True"
        "\<lambda>e. Some (\<exists>env. eval e env = 1)"]
    by (simp add: example_region_def region_ok_def)
qed

end
