(* ===== verification/Projection.thy ===== *)
theory Projection
  imports Labels "HOL-Library.Monad_Syntax"
begin

text \<open>
  What of an expression depends on labelled arrays (\<open>lib/Core/AnalyzeConstraint.cpp\<close>): the bit
  regions an expression takes from them (\<open>extractRegion\<close>), the test whether there are any, and the
  projection of a constraint on its labelled conjuncts. The labels enter through \<open>inSym\<close>, the
  query \<open>isInSymRegion\<close> for a read of one byte; a failed assertion is \<open>None\<close>.
\<close>

section \<open>Extracting regions\<close>

text \<open>
  \<open>extractRegion inSym rng concatSeen atTop e\<close> returns the regions and the number of labelled reads
  it counted (the reference parameter \<open>numsym\<close>, which every caller passes as 0).
\<close>

fun extractRegion ::
  "(array \<Rightarrow> expr \<Rightarrow> bool option) \<Rightarrow> region \<Rightarrow> bool \<Rightarrow> bool \<Rightarrow> expr \<Rightarrow> (region list \<times> nat) option" where
  "extractRegion inSym rng concatSeen atTop (ReadExpr a u ix) =
     do {
       m \<leftarrow> inSym a ix;
       (ri, nsi) \<leftarrow> extractRegion inSym rng False True ix;
       let n = (if m then 1 else 0) + (if ri \<noteq> [] then 1 else 0);
       (if n = 0 then Some ([], n)
        else case as_const ix of
          None \<Rightarrow> Some ([rng], n)
        | Some CE \<Rightarrow>
            if concatSeen then
              do {
                z \<leftarrow> ce_getZExtValue 64 CE;
                Some ([\<lparr>offset = i32 (u32 (take_bit 64 (z * int (arr_range a)))), rsize = int (arr_range a)\<rparr>], n)
              }
            else Some ([\<lparr>offset = 0, rsize = int (arr_range a)\<rparr>], n))
     }"
| "extractRegion inSym rng concatSeen atTop (ConcatExpr l r) =
     do {
       (r1, n1) \<leftarrow> extractRegion inSym rng True False l;
       (r2, n2) \<leftarrow> extractRegion inSym rng True False r;
       (if atTop \<and> n1 + n2 = 0 then Some ([], n1 + n2)
        else if r1 = [] \<and> r2 = [] then Some ([], n1 + n2)
        else if r1 = [] then Some (r2, n1 + n2)
        else if r2 = [] then Some (r1, n1 + n2)
        else Some (mergeAndCoalesce r1 r2, n1 + n2))
     }"
| "extractRegion inSym rng concatSeen atTop (ExtractExpr e off w) =
     do {
       (r1, n1) \<leftarrow> extractRegion inSym rng concatSeen False e;
       (if atTop \<and> n1 = 0 then Some ([], n1)
        else Some (intersect \<lparr>offset = int off, rsize = int w\<rparr> r1, n1))
     }"
| "extractRegion inSym rng concatSeen atTop (ZExtExpr e w) =
     do {
       (r1, n1) \<leftarrow> extractRegion inSym rng concatSeen False e;
       (if atTop \<and> n1 = 0 then Some ([], n1) else Some (r1, n1))
     }"
| "extractRegion inSym rng concatSeen atTop (SExtExpr e w) =
     do {
       (r1, n1) \<leftarrow> extractRegion inSym rng concatSeen False e;
       (if atTop \<and> n1 = 0 then Some ([], n1) else Some (r1, n1))
     }"
| "extractRegion inSym rng concatSeen atTop (BinaryExpr k l r) =
     (if k = Shl \<or> k = LShr \<or> k = AShr then
        do {
          (r1, n1) \<leftarrow> extractRegion inSym rng concatSeen False l;
          (if atTop \<and> n1 = 0 then Some ([], n1)
           else if r1 = [] then Some ([], n1)
           else case as_const r of
             None \<Rightarrow> Some ([rng], n1)
           | Some CE \<Rightarrow>
               do {
                 z \<leftarrow> ce_getZExtValue 64 CE;
                 (if k = Shl then Some (shiftLeft r1 (u32 z) (int (getWidth l)), n1)
                  else Some (shiftRight r1 (u32 z) (int (getWidth l)), n1))
               })
        }
      else
        do {
          (r1, n1) \<leftarrow> extractRegion inSym rng concatSeen False l;
          (r2, n2) \<leftarrow> extractRegion inSym rng concatSeen False r;
          (if atTop \<and> n1 + n2 = 0 then Some ([], n1 + n2) else Some (mergeAndCoalesce r1 r2, n1 + n2))
        })"
| "extractRegion inSym rng concatSeen atTop (SelectExpr c t f) =
     do {
       (r1, n1) \<leftarrow> extractRegion inSym rng concatSeen False c;
       (r2, n2) \<leftarrow> extractRegion inSym rng concatSeen False t;
       (r3, n3) \<leftarrow> extractRegion inSym rng concatSeen False f;
       (if atTop \<and> n1 + n2 + n3 = 0 then Some ([], n1 + n2 + n3)
        else Some (mergeAndCoalesce (mergeAndCoalesce r1 r2) r3, n1 + n2 + n3))
     }"
| "extractRegion inSym rng concatSeen atTop (NotExpr e) =
     do {
       (r1, n1) \<leftarrow> extractRegion inSym rng concatSeen False e;
       (if atTop \<and> n1 = 0 then Some ([], n1) else Some (r1, n1))
     }"
| "extractRegion inSym rng concatSeen atTop (NotOptimizedExpr e) =
     do {
       (r1, n1) \<leftarrow> extractRegion inSym rng concatSeen False e;
       (if atTop \<and> n1 = 0 then Some ([], n1) else Some (r1, n1))
     }"
| "extractRegion inSym rng concatSeen atTop (ConstantExpr c) = Some ([], 0)"

text \<open>The query for a read, as \<open>extractRegion\<close> makes it.\<close>

definition inSymRead ::
  "bool \<Rightarrow> (expr \<Rightarrow> bool option) \<Rightarrow> labels \<Rightarrow> bool \<Rightarrow> array \<Rightarrow> expr \<Rightarrow> bool option" where
  "inSymRead co mbt lab high a ix = isInSymRegion co mbt lab (arr_name a) ix 8 (arr_range a) False high"

definition exprHasSymRegion :: "(array \<Rightarrow> expr \<Rightarrow> bool option) \<Rightarrow> expr \<Rightarrow> bool option" where
  "exprHasSymRegion inSym e =
     do {
       (r1, ns) \<leftarrow> extractRegion inSym \<lparr>offset = 0, rsize = 64\<rparr> False True e;
       Some (if r1 = [] then False else list_ex (\<lambda>r. rsize r > 0) r1)
     }"

section \<open>Projection on the labelled part\<close>

fun getProjectionOnRegion ::
  "bool \<Rightarrow> (array \<Rightarrow> expr \<Rightarrow> bool option) \<Rightarrow> bool \<Rightarrow> expr \<Rightarrow> expr option" where
  "getProjectionOnRegion co inSym mb (ConstantExpr c) =
     do { z \<leftarrow> ce_getZExtValue 64 c; Some (ConstantExpr (ce_alloc z (bitWidth c))) }"
| "getProjectionOnRegion co inSym mb (ExtractExpr e off w) =
     do { k \<leftarrow> getProjectionOnRegion co inSym True e; Some (Extract_create k off w) }"
| "getProjectionOnRegion co inSym mb (ReadExpr a u ix) = Some (ReadExpr a u ix)"
| "getProjectionOnRegion co inSym mb (ConcatExpr l r) =
     do {
       k0 \<leftarrow> getProjectionOnRegion co inSym True l;
       k1 \<leftarrow> getProjectionOnRegion co inSym True r;
       Some (Concat_create k0 k1)
     }"
| "getProjectionOnRegion co inSym mb (BinaryExpr k l r) =
     (if (k = And \<or> k = Or \<or> k = Xor) \<and> \<not> mb then
        do {
          h0 \<leftarrow> exprHasSymRegion inSym l;
          h1 \<leftarrow> exprHasSymRegion inSym r;
          (if h0 \<and> h1 then
             do {
               k0 \<leftarrow> getProjectionOnRegion co inSym mb l;
               k1 \<leftarrow> getProjectionOnRegion co inSym mb r;
               Some (Binary_create co k k0 k1)
             }
           else if h0 then getProjectionOnRegion co inSym mb l
           else if h1 then getProjectionOnRegion co inSym mb r
           else None)
        }
      else
        do {
          let mb' = (if k = Eq \<or> k = Ne then mb else True);
          k0 \<leftarrow> getProjectionOnRegion co inSym mb' l;
          k1 \<leftarrow> getProjectionOnRegion co inSym mb' r;
          createFromKind co (KBinary k) [ArgExpr k0, ArgExpr k1]
        })"
| "getProjectionOnRegion co inSym mb (SelectExpr c t f) =
     do {
       k0 \<leftarrow> getProjectionOnRegion co inSym True c;
       k1 \<leftarrow> getProjectionOnRegion co inSym True t;
       k2 \<leftarrow> getProjectionOnRegion co inSym True f;
       createFromKind co KSelect [ArgExpr k0, ArgExpr k1, ArgExpr k2]
     }"
| "getProjectionOnRegion co inSym mb (NotExpr e) =
     do { k \<leftarrow> getProjectionOnRegion co inSym mb e; createFromKind co KNot [ArgExpr k] }"
| "getProjectionOnRegion co inSym mb (NotOptimizedExpr e) =
     do { k \<leftarrow> getProjectionOnRegion co inSym True e; createFromKind co KNotOptimized [ArgExpr k] }"
| "getProjectionOnRegion co inSym mb (ZExtExpr e w) =
     do { k \<leftarrow> getProjectionOnRegion co inSym True e; createFromKind co KZExt [ArgExpr k, ArgWidth w] }"
| "getProjectionOnRegion co inSym mb (SExtExpr e w) =
     do { k \<leftarrow> getProjectionOnRegion co inSym True e; createFromKind co KSExt [ArgExpr k, ArgWidth w] }"

section \<open>No labelled read, no dependence\<close>

lemma extractRegion_count: "extractRegion inSym rng cs atTop e = Some (rs, 0) \<Longrightarrow> rs = []"
proof (induction e arbitrary: rs rng cs atTop rule: expr.induct [where ?P2.0 = "\<lambda>_. True"])
  case (ExtractExpr e off w)
  then obtain r1 where "extractRegion inSym rng cs False e = Some (r1, 0)"
    "rs = [] \<or> rs = intersect \<lparr>offset = int off, rsize = int w\<rparr> r1"
    by (auto split: bind_splits if_splits)
  then show ?case
    using ExtractExpr.IH by fastforce
qed (auto split: bind_splits if_splits option.splits simp: mergeAndCoalesce_empty)

lemma extractRegion_count_simp:
  "NO_MATCH [] rs \<Longrightarrow> extractRegion inSym rng cs atTop e = Some (rs, 0) \<longleftrightarrow>
     rs = [] \<and> extractRegion inSym rng cs atTop e = Some ([], 0)"
  using extractRegion_count by auto

text \<open>
  Expressions over the bytes of arrays at constant places (whose bit positions are C \<open>int\<close>s),
  without extraction and shifts.
\<close>

primrec direct :: "expr \<Rightarrow> bool" and direct_upd :: "updates \<Rightarrow> bool" where
  "direct (ConstantExpr c) = True"
| "direct (NotOptimizedExpr e) = direct e"
| "direct (ReadExpr a u i) =
     (direct_upd u \<and>
      (case as_const i of
         None \<Rightarrow> False
       | Some c \<Rightarrow> 0 < arr_range a \<and> apval c * int (arr_range a) + int (arr_range a) < 2 ^ 31))"
| "direct (SelectExpr c t f) = (direct c \<and> direct t \<and> direct f)"
| "direct (ConcatExpr l r) = (direct l \<and> direct r)"
| "direct (ExtractExpr e off w) = False"
| "direct (ZExtExpr e w) = direct e"
| "direct (SExtExpr e w) = direct e"
| "direct (NotExpr e) = direct e"
| "direct (BinaryExpr k l r) = (direct l \<and> direct r \<and> k \<noteq> Shl \<and> k \<noteq> LShr \<and> k \<noteq> AShr)"
| "direct_upd UNil = True"
| "direct_upd (UpdateNode i v n) = False"

text \<open>Assignments that agree on every byte that is not labelled.\<close>

definition low_equal :: "(array \<Rightarrow> expr \<Rightarrow> bool option) \<Rightarrow> env \<Rightarrow> env \<Rightarrow> bool" where
  "low_equal inSym env1 env2 \<longleftrightarrow>
     (\<forall>a c. ap_ok c \<longrightarrow> bitWidth c = arr_domain a \<longrightarrow> inSym a (ConstantExpr c) \<noteq> Some True \<longrightarrow> env1 a (nat (apval c)) = env2 a (nat (apval c)))"

lemma no_region_no_dependence:
  "extractRegion inSym rng cs atTop e = Some ([], n) \<Longrightarrow> wfe e \<Longrightarrow> direct e \<Longrightarrow> low_equal inSym env1 env2 \<Longrightarrow>
   eval e env1 = eval e env2"
proof (induction e arbitrary: n rng cs atTop rule: expr.induct [where ?P2.0 = "\<lambda>_. True"])
  case (ReadExpr a u ix)
  then obtain c where c: "ix = ConstantExpr c" and u: "u = UNil"
    by (cases u; cases ix) auto
  have "inSym a (ConstantExpr c) \<noteq> Some True"
    using ReadExpr.prems(1) by (auto simp: c split: bind_splits if_splits)
  then have "env1 a (nat (apval c)) = env2 a (nat (apval c))"
    using ReadExpr.prems(2,4) by (simp add: low_equal_def c)
  then show ?case
    by (simp add: c u initial_def)
qed (auto split: bind_splits if_splits simp: mergeAndCoalesce_empty extractRegion_count_simp, metis+)

lemma extractRegion_direct_ok:
  "extractRegion inSym rng cs atTop e = Some (rs, n) \<Longrightarrow> wfe e \<Longrightarrow> direct e \<Longrightarrow> region_ok rng \<Longrightarrow>
   list_all region_ok rs"
proof (induction e arbitrary: rs n rng cs atTop rule: expr.induct [where ?P2.0 = "\<lambda>_. True"])
  case (ReadExpr a u ix)
  then obtain c where c: "ix = ConstantExpr c" and u: "u = UNil"
    and pos: "0 < arr_range a" "apval c * int (arr_range a) + int (arr_range a) < 2 ^ 31" "0 \<le> apval c"
    by (cases u; cases ix) (auto simp: ap_ok_def in_width_def)
  have "apval c * 1 \<le> apval c * int (arr_range a)"
    using pos by (intro mult_left_mono) auto
  then have lt: "apval c < 2 ^ 31" "apval c * int (arr_range a) < 2 ^ 31" "int (arr_range a) < 2 ^ 31"
    "0 \<le> apval c * int (arr_range a)"
    using pos by linarith+
  then have "take_bit 64 (apval c) = apval c" "take_bit 64 (apval c * int (arr_range a)) = apval c * int (arr_range a)"
    using pos by (auto intro!: take_bit_int_eq_self)
  moreover have "i32 (apval c * int (arr_range a)) = apval c * int (arr_range a)"
    using lt by (intro i32_id) auto
  then have "region_ok \<lparr>offset = i32 (apval c * int (arr_range a)), rsize = int (arr_range a)\<rparr>"
    "region_ok \<lparr>offset = 0, rsize = int (arr_range a)\<rparr>"
    using lt pos unfolding region_ok_def region.simps by linarith+
  ultimately show ?case
    using ReadExpr.prems(1,4) by (auto simp: c u ce_getZExtValue_def split: bind_splits if_splits)
qed (auto split: bind_splits if_splits simp: mergeAndCoalesce_ok)

section \<open>What a projection keeps\<close>

lemma createFromKind_Not: "createFromKind co KNot args = None"
  by (cases "(co, KNot, args)" rule: createFromKind.cases) auto

text \<open>Under bitwise operations a projection rebuilds the expression with the same value.\<close>

lemma projection_bitwise: "getProjectionOnRegion False inSym True e = Some e' \<Longrightarrow> eqv e' e"
proof (induction e arbitrary: e' rule: expr.induct [where ?P2.0 = "\<lambda>_. True"])
  case (ConstantExpr c)
  then show ?case
    using in_width_mono [of "bitWidth c" "apval c" 64]
    by (auto simp: ce_getZExtValue_def eqv_def ap_ok_def ce_alloc_def split: bind_splits if_splits)
next
  case (SelectExpr c t f)
  then obtain k0 k1 k2 where "eqv k0 c" "eqv k1 t" "eqv k2 f" "eqv e' (SelectExpr k0 k1 k2)"
    using Select_create_ok by (auto split: bind_splits)
  then show ?case
    using eqv_SelectExpr eqv_trans by blast
next
  case (BinaryExpr k l r)
  then obtain k0 k1 where "eqv k0 l" "eqv k1 r" "eqv e' (BinaryExpr k k0 k1)"
    by (auto split: bind_splits if_splits simp: create_ok)
  then show ?case
    using eqv_BinaryExpr eqv_trans by blast
next
  case (ConcatExpr l r)
  then obtain k0 k1 where "eqv k0 l" "eqv k1 r" "e' = Concat_create k0 k1"
    by (auto split: bind_splits)
  then show ?case
    using eqv_ConcatExpr eqv_trans Concat_create_ok by blast
qed (auto split: bind_splits simp: createFromKind_Not NotOptimized_create_def
      intro: eqv_unary eqv_trans [OF Extract_create_ok] eqv_trans [OF cast_create_ok(1)] eqv_trans [OF cast_create_ok(2)])

text \<open>
  Conditions without a connective that the projection would take apart, also below equalities,
  and conjunctions of such conditions (what branches put into the path condition): each conjunct
  is kept with its value or dropped.
\<close>

fun condition :: "expr \<Rightarrow> bool" where
  "condition (BinaryExpr k l r) =
     (if k = Eq \<or> k = Ne then condition l \<and> condition r else k \<noteq> And \<and> k \<noteq> Or \<and> k \<noteq> Xor)"
| "condition (NotExpr e) = False"
| "condition e = True"

fun conjunction :: "expr \<Rightarrow> bool" where
  "conjunction (BinaryExpr k l r) =
     (if k = And then conjunction l \<and> conjunction r else condition (BinaryExpr k l r))"
| "conjunction e = condition e"

lemma projection_condition:
  "getProjectionOnRegion False inSym False e = Some e' \<Longrightarrow> condition e \<Longrightarrow> eqv e' e"
proof (induction e arbitrary: e' rule: expr.induct [where ?P2.0 = "\<lambda>_. True"])
  case (BinaryExpr k l r)
  show ?case
  proof (cases "k = Eq \<or> k = Ne")
    case True
    then obtain k0 k1 where "eqv k0 l" "eqv k1 r" "eqv e' (BinaryExpr k k0 k1)"
      using BinaryExpr by (auto split: bind_splits if_splits simp: create_ok)
    then show ?thesis
      using eqv_BinaryExpr eqv_trans by blast
  next
    case False
    then have "getProjectionOnRegion False inSym True (BinaryExpr k l r) = Some e'"
      using BinaryExpr.prems by (auto split: if_splits)
    then show ?thesis
      by (rule projection_bitwise)
  qed
qed (use projection_bitwise [of inSym] in \<open>(force simp: Let_def)+\<close>)

lemma projection_conjunction:
  "getProjectionOnRegion False inSym False e = Some e' \<Longrightarrow> conjunction e \<Longrightarrow> wfe e \<Longrightarrow> getWidth e = 1 \<Longrightarrow>
   wfe e' \<and> getWidth e' = 1 \<and> (\<forall>env. eval e env = 1 \<longrightarrow> eval e' env = 1)"
proof (induction e arbitrary: e' rule: measure_induct_rule [where f = size])
  case (less e)
  show ?case
  proof (cases "\<exists>l r. e = BinaryExpr And l r")
    case True
    then obtain l r where e: "e = BinaryExpr And l r"
      by blast
    have IH: "wfe k \<and> getWidth k = 1 \<and> (\<forall>env. eval x env = 1 \<longrightarrow> eval k env = 1)"
      if "x = l \<or> x = r" "getProjectionOnRegion False inSym False x = Some k" for x k
      using that less.IH [of x k] less.prems by (auto simp: e)
    have both: "wfe (And_create k0 k1) \<and> getWidth (And_create k0 k1) = 1 \<and>
        (\<forall>env. eval k0 env = 1 \<longrightarrow> eval k1 env = 1 \<longrightarrow> eval (And_create k0 k1) env = 1)"
      if "wfe k0" "wfe k1" "getWidth k0 = 1" "getWidth k1 = 1" for k0 k1
      using that eqvD [OF And_create_ok, of k0 k1] by auto
    have and_1: "eval l env = 1 \<and> eval r env = 1" if "eval e env = 1" for env
      using that less.prems eval_Bool [of l env] eval_Bool [of r env] by (auto simp: e)
    from less.prems(1) consider
        k0 k1 where "e' = And_create k0 k1" "getProjectionOnRegion False inSym False l = Some k0"
          "getProjectionOnRegion False inSym False r = Some k1"
      | "getProjectionOnRegion False inSym False l = Some e'"
      | "getProjectionOnRegion False inSym False r = Some e'"
      by (auto simp: e split: bind_splits if_splits)
    then show ?thesis
    proof cases
      case 1
      then show ?thesis
        using IH [of l k0] IH [of r k1] both [of k0 k1] and_1 by simp
    qed (use IH and_1 in blast)+
  next
    case False
    then have "condition e"
      using less.prems(2) by (cases e) (auto split: if_splits)
    then show ?thesis
      using eqvD [OF projection_condition [OF less.prems(1)]] less.prems by simp
  qed
qed

text \<open>A projection has the type of the expression.\<close>

lemma projection_typed:
  "getProjectionOnRegion False inSym mb e = Some e' \<Longrightarrow> wfe e \<Longrightarrow> wfe e' \<and> getWidth e' = getWidth e"
proof (induction e arbitrary: e' mb rule: expr.induct [where ?P2.0 = "\<lambda>_. True"])
  case (ConstantExpr c)
  then show ?case
    using projection_bitwise [of inSym "ConstantExpr c" e'] by (simp add: eqv_def)
next
  case (SelectExpr c t f)
  then obtain k0 k1 k2 where "getProjectionOnRegion False inSym True c = Some k0"
      "getProjectionOnRegion False inSym True t = Some k1" "getProjectionOnRegion False inSym True f = Some k2"
      and e': "e' = Select_create False k0 k1 k2"
    by (auto split: bind_splits)
  then have "wfe (SelectExpr k0 k1 k2)" "getWidth k1 = getWidth t"
    using SelectExpr.IH SelectExpr.prems(2) by auto
  then show ?case
    using eqvD [OF Select_create_ok, of k0 k1 k2] by (simp add: e')
next
  case (BinaryExpr k l r)
  from BinaryExpr.prems(1) consider
      k0 k1 mb' where "getProjectionOnRegion False inSym mb' l = Some k0" "getProjectionOnRegion False inSym mb' r = Some k1"
        "e' = Binary_create False k k0 k1"
    | "k = And \<or> k = Or \<or> k = Xor" "getProjectionOnRegion False inSym mb l = Some e'"
    | "k = And \<or> k = Or \<or> k = Xor" "getProjectionOnRegion False inSym mb r = Some e'"
    by (auto split: bind_splits if_splits)
  then show ?case
  proof cases
    case 1
    then have "wfe (BinaryExpr k k0 k1)" "getWidth k0 = getWidth l"
      using BinaryExpr.IH BinaryExpr.prems(2) by auto
    then show ?thesis
      using eqvD [OF Binary_create_ok, of k k0 k1] by (simp add: 1(3))
  next
    case 2
    then show ?thesis
      using BinaryExpr.IH(1) [of mb e'] BinaryExpr.prems(2) by auto
  next
    case 3
    then show ?thesis
      using BinaryExpr.IH(2) [of mb e'] BinaryExpr.prems(2) by auto
  qed
next
  case (ConcatExpr l r)
  then obtain k0 k1 where "getProjectionOnRegion False inSym True l = Some k0"
      "getProjectionOnRegion False inSym True r = Some k1" and e': "e' = Concat_create k0 k1"
    by (auto split: bind_splits)
  then have "wfe (ConcatExpr k0 k1)" "getWidth k0 = getWidth l" "getWidth k1 = getWidth r"
    using ConcatExpr.IH ConcatExpr.prems(2) by auto
  then show ?case
    using eqvD [OF Concat_create_ok, of k0 k1] by (simp add: e')
next
  case (ExtractExpr e off w)
  then obtain k where k: "wfe k" "getWidth k = getWidth e" "e' = Extract_create k off w"
    by (auto split: bind_splits)
  then show ?case
    using eqvD [OF Extract_create_ok, of k off w] ExtractExpr.prems(2) by simp
next
  case (ZExtExpr e w)
  then obtain k where k: "wfe k" "getWidth k = getWidth e" "e' = ZExt_create k w"
    by (auto split: bind_splits)
  then show ?case
    using eqvD [OF cast_create_ok(1), of k w] ZExtExpr.prems(2) by simp
next
  case (SExtExpr e w)
  then obtain k where k: "wfe k" "getWidth k = getWidth e" "e' = SExt_create k w"
    by (auto split: bind_splits)
  then show ?case
    using eqvD [OF cast_create_ok(2), of k w] SExtExpr.prems(2) by simp
next
  case (NotOptimizedExpr e)
  then show ?case
    by (auto split: bind_splits simp: NotOptimized_create_def)
qed (auto split: bind_splits simp: createFromKind_Not)

section \<open>Properties\<close>

text \<open>
  A read of the byte at \<open>i\<close> of an array \<open>k\<close> (secret) or \<open>p\<close> (public) of 16 bytes; the labels of
  \<open>k\<close> are all its bits.
\<close>

definition example_secret :: "array \<Rightarrow> expr \<Rightarrow> bool option" where
  "example_secret a ix = Some (arr_name a = ''k'')"

definition byte_of :: "string \<Rightarrow> int \<Rightarrow> expr" where
  "byte_of name i = ReadExpr ((example_array 0)\<lparr>arr_name := name\<rparr>) UNil (ConstantExpr (ce_alloc i 32))"

lemma byte_of_ok [simp]: "wfe (byte_of name i)" "getWidth (byte_of name i) = 8" "condition (byte_of name i)"
  by (simp_all add: byte_of_def ap_ok_def array_ok_def isConstantArray_def isSymbolicArray_def example_array_def)

definition example_condition :: expr where
  "example_condition =
     BinaryExpr And (BinaryExpr Ult (byte_of ''k'' 1) (byte_of ''k'' 2))
       (BinaryExpr Eq (ConstantExpr (ce_alloc 7 8)) (byte_of ''p'' 0))"




text \<open>
  the projection of a conjunction of conditions is implied by it: every conjunct is kept with
  its value or dropped. (A disjunction is treated like a conjunction, so that its projection need not
  be implied.)
\<close>

theorem projection_implied:
  assumes "getProjectionOnRegion False inSym False e = Some e'" "conjunction e" "wfe e" "getWidth e = 1"
  shows "wfe e' \<and> getWidth e' = 1 \<and> (\<forall>env. eval e env = 1 \<longrightarrow> eval e' env = 1)"
  using projection_conjunction assms by blast

theorem projection_implied_witness:
  "\<exists>e'. getProjectionOnRegion False example_secret False example_condition = Some e' \<and>
     (\<forall>env. eval example_condition env = 1 \<longrightarrow> eval e' env = 1)"
proof -
  let ?e' = "Ult_create False (byte_of ''k'' 1) (byte_of ''k'' 2)"
  have "getProjectionOnRegion False example_secret False example_condition = Some ?e'"
    by (simp add: example_condition_def exprHasSymRegion_def example_secret_def byte_of_def example_array_def
        mergeAndCoalesce_def mergeAndCoalesce1_def coalasce_def canCoalesce_def rangesIntersect_def Let_def)
  moreover have "conjunction example_condition" "wfe example_condition" "getWidth example_condition = 1"
    by (simp_all add: example_condition_def ap_ok_def in_width_def)
  ultimately show ?thesis
    using projection_implied by blast
qed

text \<open>
  C18: projecting keeps the type: a projection of a well-typed expression is well typed and has the
  width of the expression, whatever is labelled and wherever connectives are taken apart.
\<close>

theorem projection_keeps_type:
  assumes "getProjectionOnRegion False inSym mb e = Some e'" "wfe e"
  shows "wfe e' \<and> getWidth e' = getWidth e"
  using assms by (rule projection_typed)

theorem projection_keeps_type_witness:
  "\<exists>e'. getProjectionOnRegion False example_secret False example_condition = Some e' \<and> wfe e' \<and> getWidth e' = 1"
proof -
  let ?e' = "Ult_create False (byte_of ''k'' 1) (byte_of ''k'' 2)"
  have "getProjectionOnRegion False example_secret False example_condition = Some ?e'"
    by (simp add: example_condition_def exprHasSymRegion_def example_secret_def byte_of_def example_array_def
        mergeAndCoalesce_def mergeAndCoalesce1_def coalasce_def canCoalesce_def rangesIntersect_def Let_def)
  moreover have "wfe example_condition" "getWidth example_condition = 1"
    by (simp_all add: example_condition_def ap_ok_def in_width_def)
  ultimately show ?thesis
    using projection_keeps_type by metis
qed

end
