(* ===== verification/ExprBuilder.thy ===== *)
theory ExprBuilder
  imports ExprFold "HOL-Library.Monad_Syntax"
begin

text \<open>
  The chained expression builders (\<open>lib/Expr/ExprBuilder.cpp\<close>). A builder is a function that is
  handed a method call as the node the call asks for (\<open>Add(l, r)\<close> is \<open>BinaryExpr Add l r\<close>) and
  returns what the method builds. The class \<open>ExprBuilder\<close> is the locale \<open>expr_builder\<close>: a builder
  returns an expression with the value of the node. The constant folding and the simplifying builder
  satisfy it over every base builder that does, so every chain of them does.
\<close>

section \<open>The interface\<close>

text \<open>
  How much there is to do in a sum: constants are free, which is what makes the reassociations of
  the folding builder stop.
\<close>

primrec weight :: "expr \<Rightarrow> nat" where
  "weight (ConstantExpr c) = 0"
| "weight (NotOptimizedExpr e) = Suc (weight e)"
| "weight (ReadExpr a u i) = Suc (weight i)"
| "weight (SelectExpr c t f) = Suc (weight c + weight t + weight f)"
| "weight (ConcatExpr l r) = Suc (weight l + weight r)"
| "weight (ExtractExpr e off w) = Suc (weight e)"
| "weight (ZExtExpr e w) = Suc (weight e)"
| "weight (SExtExpr e w) = Suc (weight e)"
| "weight (NotExpr e) = Suc (weight e)"
| "weight (BinaryExpr k l r) = Suc (weight l + weight r)"

fun is_sum :: "expr \<Rightarrow> bool" where
  "is_sum (BinaryExpr k l r) = (k = Add \<or> k = Sub)"
| "is_sum _ = False"

definition builds :: "expr option \<Rightarrow> expr \<Rightarrow> bool" where
  "builds res e \<longleftrightarrow> (\<exists>e'. res = Some e' \<and> eqv e' e \<and> (is_sum e \<longrightarrow> weight e' \<le> weight e))"

locale expr_builder =
  fixes mk :: "expr \<Rightarrow> expr option"
  assumes mk_builds: "builds (mk e) e"

lemma builds_Some: "eqv e' e \<Longrightarrow> (is_sum e \<Longrightarrow> weight e' \<le> weight e) \<Longrightarrow> builds (Some e') e"
  by (simp add: builds_def)

lemma builds_trans:
  "builds res e1 \<Longrightarrow> eqv e1 e \<Longrightarrow> (is_sum e \<Longrightarrow> is_sum e1 \<and> weight e1 \<le> weight e) \<Longrightarrow> builds res e"
  unfolding builds_def using eqv_trans by fastforce

lemma builds_bind:
  assumes "builds r e1" "\<And>x. r = Some x \<Longrightarrow> eqv x e1 \<Longrightarrow> (is_sum e1 \<Longrightarrow> weight x \<le> weight e1) \<Longrightarrow> builds (f x) e"
  shows "builds (r \<bind> f) e"
  using assms by (auto simp: builds_def)

section \<open>The default builder\<close>

text \<open>Every method allocates the node.\<close>

fun default_build :: "expr \<Rightarrow> expr option" where
  "default_build e = Some e"

interpretation default: expr_builder default_build
  by unfold_locales (simp add: builds_def)

section \<open>Dispatch on constants\<close>

text \<open>
  \<open>ConstantSpecializedExprBuilder\<close>: constants are folded and everything else goes to the methods
  \<open>S\<close> of the specialized builder; \<open>eq\<close> is the virtual method \<open>Eq\<close> of the builder itself.
\<close>

fun CS_Read_scan :: "(expr \<Rightarrow> expr \<Rightarrow> expr option) \<Rightarrow> expr \<Rightarrow> updates \<Rightarrow> updates option" where
  "CS_Read_scan eq ix UNil = Some UNil"
| "CS_Read_scan eq ix (UpdateNode i v n) =
     do {
       e \<leftarrow> eq ix i;
       (case as_const e of
          Some c \<Rightarrow> if ce_isFalse c then CS_Read_scan eq ix n else Some (UpdateNode i v n)
        | None \<Rightarrow> Some (UpdateNode i v n))
     }"

definition CS_Read ::
  "(expr \<Rightarrow> expr \<Rightarrow> expr option) \<Rightarrow> (expr \<Rightarrow> expr option) \<Rightarrow> array \<Rightarrow> updates \<Rightarrow> expr \<Rightarrow> expr option" where
  "CS_Read eq S a u ix = do { un \<leftarrow> CS_Read_scan eq ix u; S (ReadExpr a un ix) }"

definition CS_Select :: "(expr \<Rightarrow> expr option) \<Rightarrow> expr \<Rightarrow> expr \<Rightarrow> expr \<Rightarrow> expr option" where
  "CS_Select S c t f =
     (case as_const c of
        Some CE \<Rightarrow> Some (if ce_isTrue CE then t else f)
      | None \<Rightarrow> S (SelectExpr c t f))"

definition CS_Concat :: "(expr \<Rightarrow> expr option) \<Rightarrow> expr \<Rightarrow> expr \<Rightarrow> expr option" where
  "CS_Concat S l r =
     (case (as_const l, as_const r) of
        (Some LCE, Some RCE) \<Rightarrow> Some (ConstantExpr (ce_Concat LCE RCE))
      | _ \<Rightarrow> S (ConcatExpr l r))"

definition CS_Extract :: "(expr \<Rightarrow> expr option) \<Rightarrow> expr \<Rightarrow> nat \<Rightarrow> nat \<Rightarrow> expr option" where
  "CS_Extract S e off w =
     (case as_const e of
        Some CE \<Rightarrow> Some (ConstantExpr (ce_Extract CE off w))
      | None \<Rightarrow> S (ExtractExpr e off w))"

definition CS_ZExt :: "(expr \<Rightarrow> expr option) \<Rightarrow> expr \<Rightarrow> nat \<Rightarrow> expr option" where
  "CS_ZExt S e w =
     (case as_const e of Some CE \<Rightarrow> Some (ConstantExpr (ce_ZExt CE w)) | None \<Rightarrow> S (ZExtExpr e w))"

definition CS_SExt :: "(expr \<Rightarrow> expr option) \<Rightarrow> expr \<Rightarrow> nat \<Rightarrow> expr option" where
  "CS_SExt S e w =
     (case as_const e of Some CE \<Rightarrow> Some (ConstantExpr (ce_SExt CE w)) | None \<Rightarrow> S (SExtExpr e w))"

fun CS_Not :: "(expr \<Rightarrow> expr option) \<Rightarrow> expr \<Rightarrow> expr option" where
  "CS_Not S (NotExpr e) = Some e"
| "CS_Not S (ConstantExpr c) = Some (ConstantExpr (ce_Not c))"
| "CS_Not S e = S (NotExpr e)"

text \<open>The binary methods: the operation of the class \<open>ConstantExpr\<close> when both operands are constant.\<close>

definition CS_dispatch ::
  "(apint \<Rightarrow> apint \<Rightarrow> apint) \<Rightarrow> (bkind \<Rightarrow> expr \<Rightarrow> expr \<Rightarrow> expr option) \<Rightarrow> bkind \<Rightarrow> expr \<Rightarrow> expr \<Rightarrow> expr option" where
  "CS_dispatch op S k l r =
     (case as_const l of
        Some LCE \<Rightarrow> (case as_const r of Some RCE \<Rightarrow> Some (ConstantExpr (op LCE RCE)) | None \<Rightarrow> S k l r)
      | None \<Rightarrow> S k l r)"

fun CS_arith :: "bkind \<Rightarrow> apint \<Rightarrow> apint \<Rightarrow> apint" where
  "CS_arith Add = ce_Add" | "CS_arith Sub = ce_Sub" | "CS_arith Mul = ce_Mul"
| "CS_arith UDiv = ce_UDiv" | "CS_arith SDiv = ce_SDiv" | "CS_arith URem = ce_URem" | "CS_arith _ = ce_SRem"

fun CS_bits :: "bkind \<Rightarrow> apint \<Rightarrow> apint \<Rightarrow> apint" where
  "CS_bits And = ce_And" | "CS_bits Or = ce_Or" | "CS_bits Xor = ce_Xor"
| "CS_bits Shl = ce_Shl" | "CS_bits LShr = ce_LShr" | "CS_bits _ = ce_AShr"

fun CS_cmp :: "bkind \<Rightarrow> apint \<Rightarrow> apint \<Rightarrow> apint" where
  "CS_cmp Eq = ce_Eq" | "CS_cmp Ne = ce_Ne" | "CS_cmp Ult = ce_Ult" | "CS_cmp Ule = ce_Ule"
| "CS_cmp Ugt = ce_Ugt" | "CS_cmp Uge = ce_Uge" | "CS_cmp Slt = ce_Slt" | "CS_cmp Sle = ce_Sle"
| "CS_cmp Sgt = ce_Sgt" | "CS_cmp _ = ce_Sge"

definition CS_binary ::
  "(bkind \<Rightarrow> expr \<Rightarrow> expr \<Rightarrow> expr option) \<Rightarrow> bkind \<Rightarrow> expr \<Rightarrow> expr \<Rightarrow> expr option" where
  "CS_binary S k l r =
     CS_dispatch
       (if isCmpKind k then CS_cmp k
        else if k \<in> {And, Or, Xor, Shl, LShr, AShr} then CS_bits k
        else CS_arith k) S k l r"

text \<open>All methods, given the binary methods \<open>bin\<close> of the builder itself and the specialized rest.\<close>

fun CS_build ::
  "(bkind \<Rightarrow> expr \<Rightarrow> expr \<Rightarrow> expr option) \<Rightarrow> (expr \<Rightarrow> expr option) \<Rightarrow> expr \<Rightarrow> expr option" where
  "CS_build bin S (ReadExpr a u ix) = CS_Read (bin Eq) S a u ix"
| "CS_build bin S (SelectExpr c t f) = CS_Select S c t f"
| "CS_build bin S (ConcatExpr l r) = CS_Concat S l r"
| "CS_build bin S (ExtractExpr e off w) = CS_Extract S e off w"
| "CS_build bin S (ZExtExpr e w) = CS_ZExt S e w"
| "CS_build bin S (SExtExpr e w) = CS_SExt S e w"
| "CS_build bin S (NotExpr e) = CS_Not S e"
| "CS_build bin S (BinaryExpr k l r) = bin k l r"
| "CS_build bin S e = S e"

section \<open>The constant folding builder\<close>

text \<open>
  \<open>ConstantFoldingBuilder\<close>: \<open>B\<close> are the binary methods of the builder it is contained in
  (\<open>Builder->Add\<close>, \<dots>), \<open>base\<close> the base builder.
\<close>

fun constRight :: "bkind \<Rightarrow> expr \<Rightarrow> (expr \<times> apint) option" where
  "constRight k (BinaryExpr k' l r) =
     (if k' = k then (case as_const r of Some c \<Rightarrow> Some (l, c) | None \<Rightarrow> None) else None)"
| "constRight k _ = None"

fun kids_of :: "bkind \<Rightarrow> expr \<Rightarrow> (expr \<times> expr) option" where
  "kids_of k (BinaryExpr k' l r) = (if k' = k then Some (l, r) else None)"
| "kids_of k _ = None"

type_synonym methods = "bkind \<Rightarrow> expr \<Rightarrow> expr \<Rightarrow> expr option"

definition CF_Add_const :: "methods \<Rightarrow> (expr \<Rightarrow> expr option) \<Rightarrow> apint \<Rightarrow> expr \<Rightarrow> expr option" where
  "CF_Add_const B base c r =
     (if ce_isZero c then Some r
      else case constLeft Add r of
        Some (c1, x) \<Rightarrow> B Add (ConstantExpr (ce_Add c c1)) x
      | None \<Rightarrow> (case constRight Add r of
        Some (x, c1) \<Rightarrow> B Add (ConstantExpr (ce_Add c c1)) x
      | None \<Rightarrow> (case constLeft Sub r of
        Some (c1, x) \<Rightarrow> B Sub (ConstantExpr (ce_Add c c1)) x
      | None \<Rightarrow> (case constRight Sub r of
        Some (x, c1) \<Rightarrow> B Add (ConstantExpr (ce_Sub c c1)) x
      | None \<Rightarrow> base (BinaryExpr Add (ConstantExpr c) r)))))"

definition CF_Add :: "methods \<Rightarrow> (expr \<Rightarrow> expr option) \<Rightarrow> expr \<Rightarrow> expr \<Rightarrow> expr option" where
  "CF_Add B base l r =
     (case kids_of Add l of
        Some (x, y) \<Rightarrow> do { t \<leftarrow> B Add y r; B Add x t }
      | None \<Rightarrow> (case kids_of Sub l of
        Some (x, y) \<Rightarrow> do { t \<leftarrow> B Sub r y; B Add x t }
      | None \<Rightarrow> (case constLeft Add r of
        Some (c, y) \<Rightarrow> do { t \<leftarrow> B Add l y; B Add (ConstantExpr c) t }
      | None \<Rightarrow> (case constRight Add r of
        Some (y, c) \<Rightarrow> do { t \<leftarrow> B Add l y; B Add (ConstantExpr c) t }
      | None \<Rightarrow> (case constLeft Sub r of
        Some (c, y) \<Rightarrow> do { t \<leftarrow> B Sub l y; B Add (ConstantExpr c) t }
      | None \<Rightarrow> (case constRight Sub r of
        Some (y, c) \<Rightarrow> do { t \<leftarrow> B Add l y; B Add (ConstantExpr (ce_Neg c)) t }
      | None \<Rightarrow> base (BinaryExpr Add l r)))))))"

definition CF_Sub_const :: "methods \<Rightarrow> (expr \<Rightarrow> expr option) \<Rightarrow> apint \<Rightarrow> expr \<Rightarrow> expr option" where
  "CF_Sub_const B base c r =
     (case constLeft Add r of
        Some (c1, x) \<Rightarrow> B Sub (ConstantExpr (ce_Sub c c1)) x
      | None \<Rightarrow> (case constRight Add r of
        Some (x, c1) \<Rightarrow> B Sub (ConstantExpr (ce_Sub c c1)) x
      | None \<Rightarrow> (case constLeft Sub r of
        Some (c1, x) \<Rightarrow> B Add (ConstantExpr (ce_Sub c c1)) x
      | None \<Rightarrow> (case constRight Sub r of
        Some (x, c1) \<Rightarrow> B Sub (ConstantExpr (ce_Add c c1)) x
      | None \<Rightarrow> base (BinaryExpr Sub (ConstantExpr c) r)))))"

definition CF_Sub :: "methods \<Rightarrow> (expr \<Rightarrow> expr option) \<Rightarrow> expr \<Rightarrow> expr \<Rightarrow> expr option" where
  "CF_Sub B base l r =
     (case kids_of Add l of
        Some (x, y) \<Rightarrow> do { t \<leftarrow> B Sub y r; B Add x t }
      | None \<Rightarrow> (case kids_of Sub l of
        Some (x, y) \<Rightarrow> do { t \<leftarrow> B Add y r; B Sub x t }
      | None \<Rightarrow> (case constLeft Add r of
        Some (c, y) \<Rightarrow> do { t \<leftarrow> B Sub l y; B Add (ConstantExpr (ce_Neg c)) t }
      | None \<Rightarrow> (case constRight Add r of
        Some (y, c) \<Rightarrow> do { t \<leftarrow> B Sub l y; B Add (ConstantExpr (ce_Neg c)) t }
      | None \<Rightarrow> (case constLeft Sub r of
        Some (c, y) \<Rightarrow> do { t \<leftarrow> B Add l y; B Add (ConstantExpr (ce_Neg c)) t }
      | None \<Rightarrow> (case constRight Sub r of
        Some (y, c) \<Rightarrow> do { t \<leftarrow> B Sub l y; B Add (ConstantExpr c) t }
      | None \<Rightarrow> base (BinaryExpr Sub l r)))))))"

definition CF_Mul_const :: "(expr \<Rightarrow> expr option) \<Rightarrow> apint \<Rightarrow> expr \<Rightarrow> expr option" where
  "CF_Mul_const base c r =
     (if ce_isZero c then Some (ConstantExpr c) else if ce_isOne c then Some r
      else base (BinaryExpr Mul (ConstantExpr c) r))"

definition CF_And_const :: "(expr \<Rightarrow> expr option) \<Rightarrow> apint \<Rightarrow> expr \<Rightarrow> expr option" where
  "CF_And_const base c r =
     (if ce_isZero c then Some (ConstantExpr c) else if ce_isAllOnes c then Some r
      else base (BinaryExpr And (ConstantExpr c) r))"

definition CF_Or_const :: "(expr \<Rightarrow> expr option) \<Rightarrow> apint \<Rightarrow> expr \<Rightarrow> expr option" where
  "CF_Or_const base c r =
     (if ce_isZero c then Some r else if ce_isAllOnes c then Some (ConstantExpr c)
      else base (BinaryExpr Or (ConstantExpr c) r))"

definition CF_Xor_const :: "(expr \<Rightarrow> expr option) \<Rightarrow> apint \<Rightarrow> expr \<Rightarrow> expr option" where
  "CF_Xor_const base c r = (if ce_isZero c then Some r else base (BinaryExpr Xor (ConstantExpr c) r))"

definition CF_Eq_const :: "(expr \<Rightarrow> expr option) \<Rightarrow> apint \<Rightarrow> expr \<Rightarrow> expr option" where
  "CF_Eq_const base c r =
     (if bitWidth c = 1 then (if ce_isTrue c then Some r else base (NotExpr r))
      else base (BinaryExpr Eq (ConstantExpr c) r))"

text \<open>The overloads for a constant on the left, on the right (which swap) and on neither side.\<close>

definition CF_overload ::
  "(apint \<Rightarrow> expr \<Rightarrow> expr option) \<Rightarrow> (expr \<Rightarrow> apint \<Rightarrow> expr option) \<Rightarrow> (expr \<Rightarrow> expr \<Rightarrow> expr option) \<Rightarrow>
   expr \<Rightarrow> expr \<Rightarrow> expr option" where
  "CF_overload cn nc nn l r =
     (case as_const l of Some c \<Rightarrow> cn c r
      | None \<Rightarrow> (case as_const r of Some c \<Rightarrow> nc l c | None \<Rightarrow> nn l r))"

definition CF_binary :: "methods \<Rightarrow> (expr \<Rightarrow> expr option) \<Rightarrow> methods" where
  "CF_binary B base k l r =
     (if k = Add then CF_overload (CF_Add_const B base) (\<lambda>l c. CF_Add_const B base c l) (CF_Add B base) l r
      else if k = Sub then
        CF_overload (CF_Sub_const B base) (\<lambda>l c. CF_Add_const B base (ce_Neg c) l) (CF_Sub B base) l r
      else if k = Mul then
        CF_overload (CF_Mul_const base) (\<lambda>l c. CF_Mul_const base c l) (\<lambda>l r. base (BinaryExpr Mul l r)) l r
      else if k = And then
        CF_overload (CF_And_const base) (\<lambda>l c. CF_And_const base c l) (\<lambda>l r. base (BinaryExpr And l r)) l r
      else if k = Or then
        CF_overload (CF_Or_const base) (\<lambda>l c. CF_Or_const base c l) (\<lambda>l r. base (BinaryExpr Or l r)) l r
      else if k = Xor then
        CF_overload (CF_Xor_const base) (\<lambda>l c. CF_Xor_const base c l) (\<lambda>l r. base (BinaryExpr Xor l r)) l r
      else if k = Eq then
        CF_overload (CF_Eq_const base) (\<lambda>l c. CF_Eq_const base c l) (\<lambda>l r. base (BinaryExpr Eq l r)) l r
      else base (BinaryExpr k l r))"

text \<open>
  The virtual methods call each other through the enclosing builder; \<open>n\<close> bounds the depth of these
  calls, and \<open>CF_rank\<close> is a depth that is never reached.
\<close>

primrec constantFolding_calls :: "nat \<Rightarrow> (expr \<Rightarrow> expr option) \<Rightarrow> methods" where
  "constantFolding_calls 0 base k l r = None"
| "constantFolding_calls (Suc n) base k l r = CS_binary (CF_binary (constantFolding_calls n base) base) k l r"

definition CF_rank :: "expr \<Rightarrow> expr \<Rightarrow> nat" where
  "CF_rank l r = (weight l + weight r) * (weight l + weight r + 1) + weight l"

definition constantFolding :: "(expr \<Rightarrow> expr option) \<Rightarrow> expr \<Rightarrow> expr option" where
  "constantFolding base =
     CS_build (\<lambda>k l r. constantFolding_calls (Suc (CF_rank l r)) base k l r) base"

section \<open>The simplifying builder\<close>

definition SB_Eq_const :: "(expr \<Rightarrow> expr option) \<Rightarrow> apint \<Rightarrow> expr \<Rightarrow> expr option" where
  "SB_Eq_const base c r =
     (if bitWidth c = 1 then (if ce_isTrue c then Some r else base (NotExpr r))
      else base (BinaryExpr Eq (ConstantExpr c) r))"

definition SB_Eq :: "(expr \<Rightarrow> expr option) \<Rightarrow> expr \<Rightarrow> expr \<Rightarrow> expr option" where
  "SB_Eq base l r =
     (case as_const l of
        Some c \<Rightarrow> SB_Eq_const base c r
      | None \<Rightarrow> (case as_const r of
        Some c \<Rightarrow> SB_Eq_const base c l
      | None \<Rightarrow> if l = r then Some (ConstantExpr (ce_alloc 1 1)) else base (BinaryExpr Eq l r)))"

text \<open>The method \<open>Not\<close> together with the dispatch through the builder that contains it.\<close>

fun SB_Not :: "(expr \<Rightarrow> expr option) \<Rightarrow> expr \<Rightarrow> expr option" where
  "SB_Not base (BinaryExpr k l r) =
     (if k = Or then
        do {
          x \<leftarrow> SB_Not base l;
          y \<leftarrow> SB_Not base r;
          CS_binary (\<lambda>k l r. base (BinaryExpr k l r)) And x y
        }
      else base (NotExpr (BinaryExpr k l r)))"
| "SB_Not base e = CS_Not base e"

definition SB_binary :: "(expr \<Rightarrow> expr option) \<Rightarrow> methods" where
  "SB_binary base k l r =
     (let call = CS_binary (\<lambda>k l r. base (BinaryExpr k l r))
      in if k = Eq then SB_Eq base l r
         else if k = Ne then do { e \<leftarrow> CS_binary (\<lambda>_. SB_Eq base) Eq l r; SB_Not base e }
         else if k = Ugt then call Ult r l
         else if k = Uge then call Ule r l
         else if k = Sgt then call Slt r l
         else if k = Sge then call Sle r l
         else base (BinaryExpr k l r))"

fun simplifying :: "(expr \<Rightarrow> expr option) \<Rightarrow> expr \<Rightarrow> expr option" where
  "simplifying base (NotExpr e) = SB_Not base e"
| "simplifying base e = CS_build (CS_binary (SB_binary base)) base e"

section \<open>Folding constants\<close>

lemma CS_op_folds:
  "folds (if isCmpKind k then CS_cmp k
          else if k \<in> {And, Or, Xor, Shl, LShr, AShr} then CS_bits k
          else CS_arith k) k"
  by (cases k) (simp_all add: folds_arith folds_shift folds_cmp)

lemma CS_binary_builds:
  assumes "\<not> (\<exists>cl cr. l = ConstantExpr cl \<and> r = ConstantExpr cr) \<Longrightarrow> builds (S k l r) e"
    and "eqv (BinaryExpr k l r) e"
  shows "builds (CS_binary S k l r) e"
proof (cases "\<exists>cl cr. l = ConstantExpr cl \<and> r = ConstantExpr cr")
  case True
  then obtain cl cr where c: "l = ConstantExpr cl" "r = ConstantExpr cr"
    by blast
  then show ?thesis
    using eqv_trans [OF folds_eqv [OF CS_op_folds, of k cl cr] assms(2) [unfolded c]]
    unfolding CS_binary_def CS_dispatch_def by (simp add: builds_Some)
next
  case False
  then show ?thesis
    using assms(1) by (auto simp: CS_binary_def CS_dispatch_def split: option.split)
qed

lemma CS_Read_scan_ok:
  assumes eq: "\<And>l r. builds (eq l r) (BinaryExpr Eq l r)" and ix: "wfe ix" "getWidth ix = arr_domain a"
  shows "wfu u a \<Longrightarrow> \<exists>un. CS_Read_scan eq ix u = Some un \<and> wfu un a \<and>
    (\<forall>env. eval_upd un env a (eval ix env) = eval_upd u env a (eval ix env))"
proof (induction u rule: updates.induct [where ?P1.0 = "\<lambda>_. True"])
  case (UpdateNode i v n)
  obtain e where e: "eq ix i = Some e" "eqv e (BinaryExpr Eq ix i)"
    using eq [of ix i] by (auto simp: builds_def)
  have ev: "eval e env = of_bool (eval ix env = eval i env)" for env
    using eqvD [OF e(2)] UpdateNode.prems ix by simp
  have "eval i env \<noteq> eval ix env" if "e = ConstantExpr c" "ce_isFalse c" for c env
    using that ev [of env] by (auto simp: ce_isFalse_def)
  then show ?case
    using UpdateNode e(1) by (auto split: option.splits)
qed simp_all

lemma CS_Read_total:
  assumes "\<And>l r. builds (eq l r) (BinaryExpr Eq l r)"
  shows "\<exists>un. CS_Read_scan eq ix u = Some un"
proof (induction u rule: updates.induct [where ?P1.0 = "\<lambda>_. True"])
  case (UpdateNode i v n)
  then show ?case
    using assms [of ix i] by (auto simp: builds_def split: option.splits)
qed simp_all

lemma CS_Read_builds:
  assumes "\<And>l r. builds (eq l r) (BinaryExpr Eq l r)" "\<And>e. builds (S e) e"
  shows "builds (CS_Read eq S a u ix) (ReadExpr a u ix)"
proof -
  obtain un where un: "CS_Read_scan eq ix u = Some un"
    using CS_Read_total [OF assms(1)] by blast
  then have "eqv (ReadExpr a un ix) (ReadExpr a u ix)"
    using CS_Read_scan_ok [OF assms(1), of ix a u] by (auto simp: eqv_def)
  then have "builds (S (ReadExpr a un ix)) (ReadExpr a u ix)"
    by (rule builds_trans [OF assms(2)]) simp
  then show ?thesis
    by (simp add: CS_Read_def un)
qed

lemma CS_Not_builds: "(\<And>e. builds (S e) e) \<Longrightarrow> builds (CS_Not S e) (NotExpr e)"
proof (induction S e rule: CS_Not.induct)
  case (1 S e)
  have "eval e env = take_bit (getWidth e) (NOT (take_bit (getWidth e) (NOT (eval e env))))" if "wfe e" for env
    using that eval_in_width(1) [of e env] by (simp add: take_bit_not_take_bit)
  then show ?case
    by (auto intro!: builds_Some simp: eqv_def)
qed (auto intro!: builds_Some simp: eqv_def ce_Not_def)

lemma eqv_const_cast:
  "eqv (ConstantExpr (ce_ZExt c w)) (ZExtExpr (ConstantExpr c) w)"
  "eqv (ConstantExpr (ce_SExt c w)) (SExtExpr (ConstantExpr c) w)"
  by (auto simp: eqv_def ce_ZExt_def ce_SExt_def ap_ok_def)

lemma eqv_const_Select:
  "ce_isTrue c \<Longrightarrow> eqv t (SelectExpr (ConstantExpr c) t f)"
  "\<not> ce_isTrue c \<Longrightarrow> eqv f (SelectExpr (ConstantExpr c) t f)"
  by (auto simp: eqv_def ce_isTrue_def ap_ok_def in_width_Bool)

lemma CS_build_builds:
  assumes "\<And>k l r. builds (bin k l r) (BinaryExpr k l r)" "\<And>e. builds (S e) e"
  shows "builds (CS_build bin S e) e"
proof (cases "(bin, S, e)" rule: CS_build.cases)
  case (1 bin S a u ix)
  then show ?thesis
    using CS_Read_builds assms by simp
next
  case (2 bin S c t f)
  then show ?thesis
    using assms(2) eqv_const_Select by (auto simp: CS_Select_def split: option.split intro!: builds_Some)
next
  case (7 bin S e)
  then show ?thesis
    using CS_Not_builds assms by simp
qed (auto simp: assms CS_Concat_def CS_Extract_def CS_ZExt_def CS_SExt_def Concat_eqv_const Extract_eqv_const
      eqv_const_cast split: option.split intro!: builds_Some)

section \<open>Reassociation\<close>

lemma CF_rank_less:
  assumes "weight l' + weight r' < weight l + weight r \<or>
    weight l' + weight r' = weight l + weight r \<and> weight l' < weight l"
  shows "CF_rank l' r' < CF_rank l r"
  using assms
proof
  assume lt: "weight l' + weight r' < weight l + weight r"
  define t' t where "t' = weight l' + weight r'" and "t = weight l + weight r"
  have "(t' + 1) * (t' + 2) \<le> t * (t + 1)"
    using lt by (intro mult_mono) (auto simp: t'_def t_def)
  moreover have "weight l' \<le> t'"
    by (simp add: t'_def)
  ultimately show ?thesis
    unfolding CF_rank_def t'_def [symmetric] t_def [symmetric] by (simp add: algebra_simps)
qed (simp add: CF_rank_def)

lemma weight_pos: "as_const e = None \<Longrightarrow> 0 < weight e"
  by (cases e) auto

lemma constRight_Some [simp]: "constRight k e = Some (l, c) \<longleftrightarrow> e = BinaryExpr k l (ConstantExpr c)"
  by (cases e) (auto split: option.splits)

lemma kids_of_Some [simp]: "kids_of k e = Some (l, r) \<longleftrightarrow> e = BinaryExpr k l r"
  by (cases e) auto

lemma take_bit_multiple: "take_bit w v = v - 2 ^ w * (v div 2 ^ w :: int)"
  by (simp add: take_bit_eq_mod minus_mult_div_eq_mod)

lemmas modular = take_bit_multiple algebra_simps

lemma eqv_Add_const:
  "eqv (BinaryExpr Add (ConstantExpr (ce_Add c c1)) x) (BinaryExpr Add (ConstantExpr c) (BinaryExpr Add (ConstantExpr c1) x))"
  "eqv (BinaryExpr Add (ConstantExpr (ce_Add c c1)) x) (BinaryExpr Add (ConstantExpr c) (BinaryExpr Add x (ConstantExpr c1)))"
  "eqv (BinaryExpr Sub (ConstantExpr (ce_Add c c1)) x) (BinaryExpr Add (ConstantExpr c) (BinaryExpr Sub (ConstantExpr c1) x))"
  "eqv (BinaryExpr Add (ConstantExpr (ce_Sub c c1)) x) (BinaryExpr Add (ConstantExpr c) (BinaryExpr Sub x (ConstantExpr c1)))"
  by (auto simp: eqv_def ce_Add_def ce_Sub_def ap_ok_def) (simp_all only: take_bit_eq_iff_dvd, simp_all add: modular)

lemma eqv_CF_Sub_const:
  "eqv (BinaryExpr Sub (ConstantExpr (ce_Sub c c1)) x) (BinaryExpr Sub (ConstantExpr c) (BinaryExpr Add (ConstantExpr c1) x))"
  "eqv (BinaryExpr Sub (ConstantExpr (ce_Sub c c1)) x) (BinaryExpr Sub (ConstantExpr c) (BinaryExpr Add x (ConstantExpr c1)))"
  "eqv (BinaryExpr Add (ConstantExpr (ce_Sub c c1)) x) (BinaryExpr Sub (ConstantExpr c) (BinaryExpr Sub (ConstantExpr c1) x))"
  "eqv (BinaryExpr Sub (ConstantExpr (ce_Add c c1)) x) (BinaryExpr Sub (ConstantExpr c) (BinaryExpr Sub x (ConstantExpr c1)))"
  by (auto simp: eqv_def ce_Add_def ce_Sub_def ap_ok_def) (simp_all only: take_bit_eq_iff_dvd, simp_all add: modular)

lemma eqv_Add:
  "eqv (BinaryExpr Add x (BinaryExpr Add y z)) (BinaryExpr Add (BinaryExpr Add x y) z)"
  "eqv (BinaryExpr Add x (BinaryExpr Sub z y)) (BinaryExpr Add (BinaryExpr Sub x y) z)"
  "eqv (BinaryExpr Add z (BinaryExpr Add x y)) (BinaryExpr Add x (BinaryExpr Add z y))"
  "eqv (BinaryExpr Add z (BinaryExpr Add x y)) (BinaryExpr Add x (BinaryExpr Add y z))"
  "eqv (BinaryExpr Add z (BinaryExpr Sub x y)) (BinaryExpr Add x (BinaryExpr Sub z y))"
  "eqv (BinaryExpr Add (ConstantExpr (ce_Neg c)) (BinaryExpr Add x y)) (BinaryExpr Add x (BinaryExpr Sub y (ConstantExpr c)))"
  by (auto simp: eqv_def ce_Neg_def ap_ok_def) (simp_all only: take_bit_eq_iff_dvd, simp_all add: modular)

lemma eqv_Sub:
  "eqv (BinaryExpr Add x (BinaryExpr Sub y z)) (BinaryExpr Sub (BinaryExpr Add x y) z)"
  "eqv (BinaryExpr Sub x (BinaryExpr Add y z)) (BinaryExpr Sub (BinaryExpr Sub x y) z)"
  "eqv (BinaryExpr Add (ConstantExpr (ce_Neg c)) (BinaryExpr Sub x y)) (BinaryExpr Sub x (BinaryExpr Add (ConstantExpr c) y))"
  "eqv (BinaryExpr Add (ConstantExpr (ce_Neg c)) (BinaryExpr Sub x y)) (BinaryExpr Sub x (BinaryExpr Add y (ConstantExpr c)))"
  "eqv (BinaryExpr Add (ConstantExpr (ce_Neg c)) (BinaryExpr Add x y)) (BinaryExpr Sub x (BinaryExpr Sub (ConstantExpr c) y))"
  "eqv (BinaryExpr Add z (BinaryExpr Sub x y)) (BinaryExpr Sub x (BinaryExpr Sub y z))"
  "eqv (BinaryExpr Add (ConstantExpr (ce_Neg c)) x) (BinaryExpr Sub x (ConstantExpr c))"
  by (auto simp: eqv_def ce_Neg_def ap_ok_def) (simp_all only: take_bit_eq_iff_dvd, simp_all add: modular)

lemma eqv_const_fold:
  "ce_isZero c \<Longrightarrow> eqv x (BinaryExpr Add (ConstantExpr c) x)"
  "ce_isZero c \<Longrightarrow> eqv (ConstantExpr c) (BinaryExpr Mul (ConstantExpr c) x)"
  "ce_isOne c \<Longrightarrow> eqv x (BinaryExpr Mul (ConstantExpr c) x)"
  "ce_isZero c \<Longrightarrow> eqv (ConstantExpr c) (BinaryExpr And (ConstantExpr c) x)"
  "ce_isAllOnes c \<Longrightarrow> eqv x (BinaryExpr And (ConstantExpr c) x)"
  "ce_isZero c \<Longrightarrow> eqv x (BinaryExpr Or (ConstantExpr c) x)"
  "ce_isAllOnes c \<Longrightarrow> eqv (ConstantExpr c) (BinaryExpr Or (ConstantExpr c) x)"
  "ce_isZero c \<Longrightarrow> eqv x (BinaryExpr Xor (ConstantExpr c) x)"
  using eval_in_width(1) [of x]
  by (auto simp: eqv_def ce_isZero_def ce_isOne_def ce_isAllOnes_def ap_ok_def
      and.commute [of "mask _"] or.commute [of "mask _"] mask_and_in_width mask_or_in_width)

lemma eqv_const_Eq:
  "bitWidth c = 1 \<Longrightarrow> ce_isTrue c \<Longrightarrow> eqv x (BinaryExpr Eq (ConstantExpr c) x)"
  "bitWidth c = 1 \<Longrightarrow> \<not> ce_isTrue c \<Longrightarrow> eqv (NotExpr x) (BinaryExpr Eq (ConstantExpr c) x)"
proof -
  have "eval (NotExpr x) env = (if eval x env = 0 then 1 else 0)" if "wfe x" "getWidth x = Suc 0" for env
    using that eval_Bool [of x env] by auto
  then show "bitWidth c = 1 \<Longrightarrow> \<not> ce_isTrue c \<Longrightarrow> eqv (NotExpr x) (BinaryExpr Eq (ConstantExpr c) x)"
    by (auto simp: eqv_def ce_isTrue_def ap_ok_def simp del: eval.simps(9))
  show "bitWidth c = 1 \<Longrightarrow> ce_isTrue c \<Longrightarrow> eqv x (BinaryExpr Eq (ConstantExpr c) x)"
    by (rule eqv_true)
qed

lemma eqv_commute:
  "k \<in> {Add, Mul, And, Or, Xor, Eq} \<Longrightarrow> eqv (BinaryExpr k l r) (BinaryExpr k r l)"
  by (auto simp: eqv_def ac_simps)

section \<open>The folding builder satisfies the interface\<close>

text \<open>One call, and two nested calls, of the builder on the way to a sum of operands \<open>L\<close> and \<open>R\<close>.\<close>

definition calls_ok :: "methods \<Rightarrow> nat \<Rightarrow> bool" where
  "calls_ok B n \<longleftrightarrow> (\<forall>k l r. CF_rank l r < n \<longrightarrow> builds (B k l r) (BinaryExpr k l r))"

lemma calls_okD: "calls_ok B n \<Longrightarrow> CF_rank l r < n \<Longrightarrow> builds (B k l r) (BinaryExpr k l r)"
  by (simp add: calls_ok_def)

lemma one_call:
  assumes "calls_ok B (CF_rank L R)" "eqv (BinaryExpr k1 x y) (BinaryExpr k L R)" "is_sum (BinaryExpr k1 x y)"
    and "weight x + weight y < weight L + weight R"
  shows "builds (B k1 x y) (BinaryExpr k L R)"
  by (rule builds_trans [OF calls_okD [OF assms(1)] assms(2)])
    (use assms(3,4) in \<open>auto intro!: CF_rank_less\<close>)

lemma two_calls:
  assumes "calls_ok B (CF_rank L R)" "eqv (BinaryExpr k2 x (BinaryExpr k1 y z)) (BinaryExpr k L R)"
    and "is_sum (BinaryExpr k1 y z)" "is_sum (BinaryExpr k2 x x)"
    and "weight x < weight L" "Suc (weight x + weight y + weight z) \<le> weight L + weight R"
  shows "builds (do { t \<leftarrow> B k1 y z; B k2 x t }) (BinaryExpr k L R)"
proof (rule builds_bind)
  show "builds (B k1 y z) (BinaryExpr k1 y z)"
    using assms(6) by (intro calls_okD [OF assms(1)] CF_rank_less) simp
  fix t assume t: "eqv t (BinaryExpr k1 y z)" "is_sum (BinaryExpr k1 y z) \<Longrightarrow> weight t \<le> weight (BinaryExpr k1 y z)"
  then have "weight t \<le> Suc (weight y + weight z)"
    using assms(3) by simp
  then have le: "weight x + weight t \<le> weight L + weight R"
    using assms(6) by simp
  show "builds (B k2 x t) (BinaryExpr k L R)"
  proof (rule builds_trans)
    show "builds (B k2 x t) (BinaryExpr k2 x t)"
      using assms(5) le by (intro calls_okD [OF assms(1)] CF_rank_less) linarith
    show "eqv (BinaryExpr k2 x t) (BinaryExpr k L R)"
      by (rule eqv_trans [OF eqv_BinaryExpr [OF eqv_refl t(1)] assms(2)])
    show "is_sum (BinaryExpr k2 x t) \<and> weight (BinaryExpr k2 x t) \<le> weight (BinaryExpr k L R)"
      using assms(4) le by simp
  qed
qed

context expr_builder
begin

lemma base_builds: "eqv e1 e \<Longrightarrow> (is_sum e \<Longrightarrow> is_sum e1 \<and> weight e1 \<le> weight e) \<Longrightarrow> builds (mk e1) e"
  by (rule builds_trans [OF mk_builds])

lemma CF_Add_const_builds:
  assumes "calls_ok B (CF_rank L R)" "as_const r = None" "eqv (BinaryExpr Add (ConstantExpr c) r) (BinaryExpr k L R)"
    and "weight r \<le> weight L + weight R"
  shows "builds (CF_Add_const B mk c r) (BinaryExpr k L R)"
  using assms weight_pos [OF assms(2)]
  by (auto simp: CF_Add_const_def split: option.split
      intro!: builds_Some one_call base_builds
      elim!: eqv_trans [rotated] intro: eqv_Add_const eqv_const_fold)

lemma CF_Sub_const_builds:
  assumes "calls_ok B (CF_rank (ConstantExpr c) r)"
  shows "builds (CF_Sub_const B mk c r) (BinaryExpr Sub (ConstantExpr c) r)"
  using assms
  by (auto simp: CF_Sub_const_def split: option.split
      intro!: builds_Some one_call base_builds eqv_CF_Sub_const)

lemma CF_Add_builds:
  assumes "calls_ok B (CF_rank l r)" "as_const l = None"
  shows "builds (CF_Add B mk l r) (BinaryExpr Add l r)"
  using assms weight_pos [OF assms(2)]
  by (auto simp: CF_Add_def split: option.split intro!: two_calls base_builds eqv_Add)

lemma CF_Sub_builds:
  assumes "calls_ok B (CF_rank l r)" "as_const l = None"
  shows "builds (CF_Sub B mk l r) (BinaryExpr Sub l r)"
  using assms weight_pos [OF assms(2)]
  by (auto simp: CF_Sub_def split: option.split intro!: two_calls base_builds eqv_Sub)

lemma CF_const_builds:
  "builds (CF_Mul_const mk c r) (BinaryExpr Mul (ConstantExpr c) r)"
  "builds (CF_And_const mk c r) (BinaryExpr And (ConstantExpr c) r)"
  "builds (CF_Or_const mk c r) (BinaryExpr Or (ConstantExpr c) r)"
  "builds (CF_Xor_const mk c r) (BinaryExpr Xor (ConstantExpr c) r)"
  "builds (CF_Eq_const mk c r) (BinaryExpr Eq (ConstantExpr c) r)"
  by (auto simp: CF_Mul_const_def CF_And_const_def CF_Or_const_def CF_Xor_const_def CF_Eq_const_def
      intro!: builds_Some base_builds eqv_const_fold eqv_const_Eq)

lemma CF_overload_builds:
  assumes "\<And>c. l = ConstantExpr c \<Longrightarrow> as_const r = None \<Longrightarrow> builds (cn c r) e"
    and "\<And>c. as_const l = None \<Longrightarrow> r = ConstantExpr c \<Longrightarrow> builds (nc l c) e"
    and "as_const l = None \<Longrightarrow> as_const r = None \<Longrightarrow> builds (nn l r) e"
    and "\<not> (\<exists>cl cr. l = ConstantExpr cl \<and> r = ConstantExpr cr)"
  shows "builds (CF_overload cn nc nn l r) e"
  using assms by (auto simp: CF_overload_def split: option.split)

lemma CF_binary_builds:
  assumes B: "calls_ok B (CF_rank l r)" and nc: "\<not> (\<exists>cl cr. l = ConstantExpr cl \<and> r = ConstantExpr cr)"
  shows "builds (CF_binary B mk k l r) (BinaryExpr k l r)"
proof -
  have swap: "builds res (BinaryExpr k' l r)" if "builds res (BinaryExpr k' r l)" "k' \<in> {Mul, And, Or, Xor, Eq}" for res k'
    using that by (intro builds_trans [OF that(1)] eqv_commute) auto
  have add: "builds (CF_Add_const B mk c x) (BinaryExpr k' l r)"
    if "eqv (BinaryExpr Add (ConstantExpr c) x) (BinaryExpr k' l r)" "as_const x = None" "x = l \<or> x = r" for c x k'
    using that by (intro CF_Add_const_builds B) auto
  have "builds (CF_overload (CF_Add_const B mk) (\<lambda>l c. CF_Add_const B mk c l) (CF_Add B mk) l r) (BinaryExpr Add l r)"
    using B by (intro CF_overload_builds [OF _ _ _ nc] add CF_Add_builds) (simp_all add: eqv_commute)
  moreover have "builds (CF_overload (CF_Sub_const B mk) (\<lambda>l c. CF_Add_const B mk (ce_Neg c) l) (CF_Sub B mk) l r)
      (BinaryExpr Sub l r)"
    using B CF_Sub_const_builds by (intro CF_overload_builds [OF _ _ _ nc] add CF_Sub_builds) (simp_all add: eqv_Sub)
  moreover have "builds (CF_overload f (\<lambda>l c. f c l) (\<lambda>l r. mk (BinaryExpr k' l r)) l r) (BinaryExpr k' l r)"
    if "\<And>c x. builds (f c x) (BinaryExpr k' (ConstantExpr c) x)" "k' \<in> {Mul, And, Or, Xor, Eq}" for f k'
    using that swap by (intro CF_overload_builds [OF _ _ _ nc]) (auto simp: mk_builds)
  ultimately show ?thesis
    by (simp add: CF_binary_def CF_const_builds mk_builds)
qed

text \<open>Enough depth for the calls is given by the rank.\<close>

lemma constantFolding_calls_builds:
  "CF_rank l r < n \<Longrightarrow> builds (constantFolding_calls n mk k l r) (BinaryExpr k l r)"
proof (induction n arbitrary: k l r)
  case (Suc n)
  then have "calls_ok (constantFolding_calls n mk) (CF_rank l r)"
    by (auto simp: calls_ok_def)
  then show ?case
    by (auto intro!: CS_binary_builds CF_binary_builds)
qed simp

lemma constantFolding_builds: "builds (constantFolding mk e) e"
  unfolding constantFolding_def by (intro CS_build_builds constantFolding_calls_builds mk_builds) simp

section \<open>The simplifying builder satisfies the interface\<close>

lemma SB_Eq_const_builds: "builds (SB_Eq_const mk c r) (BinaryExpr Eq (ConstantExpr c) r)"
  by (auto simp: SB_Eq_const_def intro!: base_builds builds_Some eqv_const_Eq)

lemma SB_Eq_builds: "builds (SB_Eq mk l r) (BinaryExpr Eq l r)"
proof -
  have "builds (SB_Eq_const mk c l) (BinaryExpr Eq l (ConstantExpr c))" for c
    by (rule builds_trans [OF SB_Eq_const_builds eqv_commute]) simp_all
  moreover have "eqv (ConstantExpr (ce_alloc 1 1)) (BinaryExpr Eq l l)"
    by (simp add: eqv_def)
  ultimately show ?thesis
    by (auto simp: SB_Eq_def SB_Eq_const_builds mk_builds split: option.split intro!: builds_Some)
qed

lemma eqv_deMorgan: "eqv (BinaryExpr And (NotExpr l) (NotExpr r)) (NotExpr (BinaryExpr Or l r))"
  by (auto simp: eqv_def take_bit_and)

lemma CS_And_builds: "builds (CS_binary (\<lambda>k l r. mk (BinaryExpr k l r)) k l r) (BinaryExpr k l r)"
  by (auto intro!: CS_binary_builds mk_builds)

lemma SB_Not_builds: "builds (SB_Not mk e) (NotExpr e)"
proof (induction e rule: measure_induct_rule [where f = size])
  case (less e)
  show ?case
  proof (cases "\<exists>l r. e = BinaryExpr Or l r")
    case True
    then obtain l r where e: "e = BinaryExpr Or l r"
      by blast
    show ?thesis
      unfolding e SB_Not.simps
    proof (simp, rule builds_bind, rule less.IH, simp add: e, rule builds_bind, rule less.IH, simp add: e)
      fix x y assume "eqv x (NotExpr l)" "eqv y (NotExpr r)"
      then have "eqv (BinaryExpr And x y) (NotExpr (BinaryExpr Or l r))"
        using eqv_trans [OF eqv_BinaryExpr eqv_deMorgan] by blast
      then show "builds (CS_binary (\<lambda>k l r. mk (BinaryExpr k l r)) And x y) (NotExpr (BinaryExpr Or l r))"
        by (rule builds_trans [OF CS_And_builds]) simp
    qed
  next
    case False
    then have "SB_Not mk e = CS_Not mk e"
      by (cases e) auto
    then show ?thesis
      using CS_Not_builds mk_builds by simp
  qed
qed

lemma SB_binary_builds:
  assumes nc: "\<not> (\<exists>cl cr. l = ConstantExpr cl \<and> r = ConstantExpr cr)"
  shows "builds (SB_binary mk k l r) (BinaryExpr k l r)"
proof -
  have ne: "builds (do { e \<leftarrow> CS_binary (\<lambda>_. SB_Eq mk) Eq l r; SB_Not mk e }) (BinaryExpr Ne l r)"
  proof (rule builds_bind)
    show "builds (CS_binary (\<lambda>_. SB_Eq mk) Eq l r) (BinaryExpr Eq l r)"
      by (auto intro!: CS_binary_builds SB_Eq_builds)
    fix e assume "eqv e (BinaryExpr Eq l r)"
    moreover have "eqv (NotExpr (BinaryExpr Eq l r)) (BinaryExpr Ne l r)"
      by (auto simp: eqv_def)
    ultimately have "eqv (NotExpr e) (BinaryExpr Ne l r)"
      using eqv_trans [OF eqv_unary(1)] by blast
    then show "builds (SB_Not mk e) (BinaryExpr Ne l r)"
      by (rule builds_trans [OF SB_Not_builds]) simp
  qed
  have swap: "builds (CS_binary (\<lambda>k l r. mk (BinaryExpr k l r)) k' r l) (BinaryExpr k l r)"
    if "(k', k) \<in> {(Ult, Ugt), (Ule, Uge), (Slt, Sgt), (Sle, Sge)}" for k' k
    by (rule builds_trans [OF CS_And_builds]) (use that in \<open>auto simp: eqv_def\<close>)
  show ?thesis
    using ne swap SB_Eq_builds mk_builds by (simp add: SB_binary_def Let_def)
qed

lemma simplifying_builds: "builds (simplifying mk e) e"
proof -
  have "builds (CS_build (CS_binary (SB_binary mk)) mk e) e"
    by (intro CS_build_builds mk_builds CS_binary_builds SB_binary_builds) auto
  then show ?thesis
    using SB_Not_builds by (cases e) auto
qed

end

text \<open>The chain of builders that the query parser sets up (\<open>createDefaultExprBuilder\<close> and so on).\<close>

interpretation folding: expr_builder "constantFolding default_build"
  by unfold_locales (rule default.constantFolding_builds)

interpretation simplifying: expr_builder "simplifying (constantFolding default_build)"
  by unfold_locales (rule folding.simplifying_builds)

section \<open>Properties\<close>



text \<open>
  C20: the folding builder always comes to an end: the methods \<open>Add\<close> and \<open>Sub\<close> call each other through
  the enclosing builder to a depth of at most the rank of the operands, and moving constants outwards
  never makes a sum heavier.
\<close>

theorem folding_terminates:
  assumes "CF_rank l r < n"
  shows "\<exists>e'. constantFolding_calls n default_build k l r = Some e' \<and>
    (k = Add \<or> k = Sub \<longrightarrow> weight e' \<le> weight l + weight r + 1)"
  using default.constantFolding_calls_builds [OF assms, of k] by (auto simp: builds_def)

theorem folding_terminates_witness:
  "\<exists>e'. constantFolding_calls 100 default_build Sub (BinaryExpr Add (example_byte 0 1) (example_byte 0 2))
     (BinaryExpr Sub (ConstantExpr (ce_alloc 3 8)) (example_byte 0 3)) = Some e' \<and> weight e' \<le> 6"
  using folding_terminates [of "BinaryExpr Add (example_byte 0 1) (example_byte 0 2)"
      "BinaryExpr Sub (ConstantExpr (ce_alloc 3 8)) (example_byte 0 3)" 100 Sub]
  by (simp add: CF_rank_def example_byte_def eval_nat_numeral)

end
