(* ===== verification/ExprOrder.thy ===== *)
theory ExprOrder
  imports ExprStruct "HOL-Library.List_Lexorder" "HOL-Library.Char_ord"
begin

text \<open>
  Hash values and the order of expressions (\<open>lib/Expr/Expr.cpp\<close>, \<open>lib/Expr/Updates.cpp\<close>,
  \<open>compareContents\<close> in \<open>include/klee/Expr.h\<close>). The order is what every \<open>std::map\<close> with expressions
  as keys relies on; hash values identify path conditions in the resource tree. The hash of the
  bits of a constant (\<open>hash_value\<close> of LLVM) is the parameter \<open>hv\<close>.
\<close>

section \<open>Hash values\<close>

definition MAGIC_HASH_CONSTANT :: "32 word" where
  "MAGIC_HASH_CONSTANT = 39"

text \<open>The numbers of the kinds; 2 is skipped.\<close>

fun bkind_number :: "bkind \<Rightarrow> nat" where
  "bkind_number Add = 10" | "bkind_number Sub = 11" | "bkind_number Mul = 12" | "bkind_number UDiv = 13"
| "bkind_number SDiv = 14" | "bkind_number URem = 15" | "bkind_number SRem = 16" | "bkind_number And = 17"
| "bkind_number Or = 18" | "bkind_number Xor = 19" | "bkind_number Shl = 20" | "bkind_number LShr = 21"
| "bkind_number AShr = 22" | "bkind_number Eq = 23" | "bkind_number Ne = 24" | "bkind_number Ult = 25"
| "bkind_number Ule = 26" | "bkind_number Ugt = 27" | "bkind_number Uge = 28" | "bkind_number Slt = 29"
| "bkind_number Sle = 30" | "bkind_number Sgt = 31" | "bkind_number Sge = 32"

fun kind_number :: "ekind \<Rightarrow> nat" where
  "kind_number KConstant = 0" | "kind_number KNotOptimized = 1" | "kind_number KRead = 3"
| "kind_number KSelect = 4" | "kind_number KConcat = 5" | "kind_number KExtract = 6"
| "kind_number KZExt = 7" | "kind_number KSExt = 8" | "kind_number KNot = 9"
| "kind_number (KBinary k) = bkind_number k"

text \<open>\<open>Expr::computeHash\<close> from the hash values of the kids.\<close>

definition computeHash :: "ekind \<Rightarrow> 32 word list \<Rightarrow> 32 word" where
  "computeHash k hs =
     foldl (\<lambda>res h. push_bit 1 res XOR (h * MAGIC_HASH_CONSTANT)) (of_nat (kind_number k) * MAGIC_HASH_CONSTANT) hs"

text \<open>Names are hashed character by character, as signed \<open>char\<close>s.\<close>

definition name_hash :: "string \<Rightarrow> 32 word" where
  "name_hash name =
     foldl (\<lambda>res c. res * MAGIC_HASH_CONSTANT + word_of_int (signed_take_bit 7 (of_char c))) 0 name"

definition array_hash :: "array \<Rightarrow> 32 word" where
  "array_hash a = name_hash (arr_name a) * MAGIC_HASH_CONSTANT + of_nat (arr_size a)"

primrec expr_hash :: "(apint \<Rightarrow> 32 word) \<Rightarrow> expr \<Rightarrow> 32 word"
  and node_hash :: "(apint \<Rightarrow> 32 word) \<Rightarrow> updates \<Rightarrow> 32 word" where
  "expr_hash hv (ConstantExpr c) = hv c XOR (of_nat (bitWidth c) * MAGIC_HASH_CONSTANT)"
| "expr_hash hv (NotOptimizedExpr e) = computeHash KNotOptimized [expr_hash hv e]"
| "expr_hash hv (ReadExpr a u i) =
     (expr_hash hv i * MAGIC_HASH_CONSTANT) XOR (name_hash (arr_name a) XOR node_hash hv u)"
| "expr_hash hv (SelectExpr c t f) = computeHash KSelect [expr_hash hv c, expr_hash hv t, expr_hash hv f]"
| "expr_hash hv (ConcatExpr l r) = computeHash KConcat [expr_hash hv l, expr_hash hv r]"
| "expr_hash hv (ExtractExpr e off w) =
     (of_nat off * MAGIC_HASH_CONSTANT) XOR (of_nat w * MAGIC_HASH_CONSTANT) XOR (expr_hash hv e * MAGIC_HASH_CONSTANT)"
| "expr_hash hv (ZExtExpr e w) = (of_nat w * MAGIC_HASH_CONSTANT) XOR (expr_hash hv e * MAGIC_HASH_CONSTANT)"
| "expr_hash hv (SExtExpr e w) = (of_nat w * MAGIC_HASH_CONSTANT) XOR (expr_hash hv e * MAGIC_HASH_CONSTANT)"
| "expr_hash hv (NotExpr e) = expr_hash hv e * MAGIC_HASH_CONSTANT * of_nat (kind_number KNot)"
| "expr_hash hv (BinaryExpr k l r) = computeHash (KBinary k) [expr_hash hv l, expr_hash hv r]"
| "node_hash hv UNil = 0"
| "node_hash hv (UpdateNode i v n) = expr_hash hv i XOR expr_hash hv v XOR node_hash hv n"

section \<open>Comparison\<close>

definition cmp3 :: "'a::linorder \<Rightarrow> 'a \<Rightarrow> int" where
  "cmp3 x y = (if x = y then 0 else if x < y then -1 else 1)"

definition andThen :: "int \<Rightarrow> int \<Rightarrow> int" where
  "andThen res rest = (if res \<noteq> 0 then res else rest)"

text \<open>The comparison of kinds and hash values before the contents.\<close>

definition compare_heads :: "(apint \<Rightarrow> 32 word) \<Rightarrow> expr \<Rightarrow> expr \<Rightarrow> int" where
  "compare_heads hv a b =
     andThen (cmp3 (kind_number (getKind a)) (kind_number (getKind b))) (cmp3 (expr_hash hv a) (expr_hash hv b))"

text \<open>
  \<open>Expr::compare\<close>. Two shared objects compare as equal at once, and so do pairs found equal before;
  both shortcuts only save the comparison of equal terms.
\<close>

primrec expr_compare :: "(apint \<Rightarrow> 32 word) \<Rightarrow> expr \<Rightarrow> expr \<Rightarrow> int"
  and nodes_compare :: "(apint \<Rightarrow> 32 word) \<Rightarrow> updates \<Rightarrow> updates \<Rightarrow> int" where
  "expr_compare hv (ConstantExpr c) b = andThen (compare_heads hv (ConstantExpr c) b)
     (case b of ConstantExpr c' \<Rightarrow> andThen (cmp3 (bitWidth c) (bitWidth c')) (cmp3 (apval c) (apval c')) | _ \<Rightarrow> 0)"
| "expr_compare hv (NotOptimizedExpr e) b = andThen (compare_heads hv (NotOptimizedExpr e) b)
     (case b of NotOptimizedExpr e' \<Rightarrow> expr_compare hv e e' | _ \<Rightarrow> 0)"
| "expr_compare hv (ReadExpr a u i) b = andThen (compare_heads hv (ReadExpr a u i) b)
     (case b of
        ReadExpr a' u' i' \<Rightarrow>
          andThen (cmp3 (arr_name a) (arr_name a')) (andThen (cmp3 (arr_ptr a) (arr_ptr a'))
            (andThen (cmp3 (ul_size u) (ul_size u')) (andThen (nodes_compare hv u u') (expr_compare hv i i'))))
      | _ \<Rightarrow> 0)"
| "expr_compare hv (SelectExpr c t f) b = andThen (compare_heads hv (SelectExpr c t f) b)
     (case b of
        SelectExpr c' t' f' \<Rightarrow> andThen (expr_compare hv c c') (andThen (expr_compare hv t t') (expr_compare hv f f'))
      | _ \<Rightarrow> 0)"
| "expr_compare hv (ConcatExpr l r) b = andThen (compare_heads hv (ConcatExpr l r) b)
     (case b of
        ConcatExpr l' r' \<Rightarrow>
          andThen (cmp3 (getWidth (ConcatExpr l r)) (getWidth b)) (andThen (expr_compare hv l l') (expr_compare hv r r'))
      | _ \<Rightarrow> 0)"
| "expr_compare hv (ExtractExpr e off w) b = andThen (compare_heads hv (ExtractExpr e off w) b)
     (case b of
        ExtractExpr e' off' w' \<Rightarrow> andThen (cmp3 off off') (andThen (cmp3 w w') (expr_compare hv e e'))
      | _ \<Rightarrow> 0)"
| "expr_compare hv (ZExtExpr e w) b = andThen (compare_heads hv (ZExtExpr e w) b)
     (case b of ZExtExpr e' w' \<Rightarrow> andThen (cmp3 w w') (expr_compare hv e e') | _ \<Rightarrow> 0)"
| "expr_compare hv (SExtExpr e w) b = andThen (compare_heads hv (SExtExpr e w) b)
     (case b of SExtExpr e' w' \<Rightarrow> andThen (cmp3 w w') (expr_compare hv e e') | _ \<Rightarrow> 0)"
| "expr_compare hv (NotExpr e) b = andThen (compare_heads hv (NotExpr e) b)
     (case b of NotExpr e' \<Rightarrow> expr_compare hv e e' | _ \<Rightarrow> 0)"
| "expr_compare hv (BinaryExpr k l r) b = andThen (compare_heads hv (BinaryExpr k l r) b)
     (case b of BinaryExpr k' l' r' \<Rightarrow> andThen (expr_compare hv l l') (expr_compare hv r r') | _ \<Rightarrow> 0)"
| "nodes_compare hv UNil b = 0"
| "nodes_compare hv (UpdateNode i v n) b =
     (case b of
        UNil \<Rightarrow> 0
      | UpdateNode i' v' n' \<Rightarrow>
          andThen (expr_compare hv i i') (andThen (expr_compare hv v v') (nodes_compare hv n n')))"

section \<open>A total order\<close>

text \<open>What a three-way comparison of \<open>x\<close>, \<open>y\<close> and \<open>z\<close> must satisfy to be an order.\<close>

definition triangle :: "int \<Rightarrow> int \<Rightarrow> int \<Rightarrow> bool" where
  "triangle xy yz xz \<longleftrightarrow> (xy \<le> 0 \<longrightarrow> yz \<le> 0 \<longrightarrow> xz \<le> 0 \<and> (xz = 0 \<longleftrightarrow> xy = 0 \<and> yz = 0))"

lemma triangle_andThen:
  "triangle a b c \<Longrightarrow> (a = 0 \<Longrightarrow> b = 0 \<Longrightarrow> c = 0 \<Longrightarrow> triangle a' b' c') \<Longrightarrow>
   triangle (andThen a a') (andThen b b') (andThen c c')"
  by (auto simp: triangle_def andThen_def)

lemma triangle_cmp3 [intro]: "triangle (cmp3 x y) (cmp3 y z) (cmp3 x z)"
  by (auto simp: triangle_def cmp3_def)

lemma cmp3_0 [simp]: "cmp3 x y = 0 \<longleftrightarrow> x = y"
  by (simp add: cmp3_def)

lemma cmp3_swap: "cmp3 y x = - cmp3 x y"
  by (auto simp: cmp3_def)

lemma andThen_0 [simp]: "andThen a b = 0 \<longleftrightarrow> a = 0 \<and> b = 0"
  by (simp add: andThen_def)

lemma andThen_minus: "andThen (- a) (- b) = - andThen a b"
  by (simp add: andThen_def)

lemma compare_heads_swap: "compare_heads hv b a = - compare_heads hv a b"
  by (simp add: compare_heads_def cmp3_swap [of "kind_number (getKind a)"] cmp3_swap [of "expr_hash hv a"] andThen_minus)

lemma triangle_heads [intro]: "triangle (compare_heads hv a b) (compare_heads hv b c) (compare_heads hv a c)"
  unfolding compare_heads_def by (intro triangle_andThen triangle_cmp3)

lemma bkind_number_inject [simp]: "bkind_number k = bkind_number k' \<longleftrightarrow> k = k'"
  by (cases k; cases k'; simp)

lemma bkind_number_ge: "bkind_number k \<noteq> n" if "n < 10"
  using that by (cases k) simp_all

lemma kind_number_inject [simp]: "kind_number k = kind_number k' \<longleftrightarrow> k = k'"
  by (cases k; cases k') (simp_all add: bkind_number_ge bkind_number_ge [symmetric])

lemma compare_heads_0:
  "compare_heads hv a b = 0 \<longleftrightarrow> getKind b = getKind a \<and> expr_hash hv a = expr_hash hv b"
  by (auto simp: compare_heads_def)

text \<open>Expressions of one kind.\<close>

lemma getKind_eqs [simp]:
  "getKind b = KConstant \<longleftrightarrow> (\<exists>c. b = ConstantExpr c)" "getKind b = KNotOptimized \<longleftrightarrow> (\<exists>e. b = NotOptimizedExpr e)"
  "getKind b = KRead \<longleftrightarrow> (\<exists>a u i. b = ReadExpr a u i)" "getKind b = KSelect \<longleftrightarrow> (\<exists>c t f. b = SelectExpr c t f)"
  "getKind b = KConcat \<longleftrightarrow> (\<exists>l r. b = ConcatExpr l r)" "getKind b = KExtract \<longleftrightarrow> (\<exists>e off w. b = ExtractExpr e off w)"
  "getKind b = KZExt \<longleftrightarrow> (\<exists>e w. b = ZExtExpr e w)" "getKind b = KSExt \<longleftrightarrow> (\<exists>e w. b = SExtExpr e w)"
  "getKind b = KNot \<longleftrightarrow> (\<exists>e. b = NotExpr e)" "getKind b = KBinary k \<longleftrightarrow> (\<exists>l r. b = BinaryExpr k l r)"
  by (cases b; simp)+

lemma expr_compare_heads: "expr_compare hv a b = andThen (compare_heads hv a b) (expr_compare hv a b)"
  by (cases a) (simp_all add: andThen_def)

lemma triangle_same_kind:
  assumes "getKind b = getKind a \<Longrightarrow> getKind c = getKind a \<Longrightarrow>
    triangle (expr_compare hv a b) (expr_compare hv b c) (expr_compare hv a c)"
  shows "triangle (expr_compare hv a b) (expr_compare hv b c) (expr_compare hv a c)"
  by (subst (1 2 3) expr_compare_heads, intro triangle_andThen triangle_heads assms) (simp_all add: compare_heads_0)

lemma compare_triangle:
  "triangle (expr_compare hv a b) (expr_compare hv b c) (expr_compare hv a c)"
  "ul_size u = ul_size v \<Longrightarrow> ul_size v = ul_size w \<Longrightarrow>
   triangle (nodes_compare hv u v) (nodes_compare hv v w) (nodes_compare hv u w)"
proof (induction a and u arbitrary: b c and v w)
  case (UpdateNode i x n)
  then show ?case
    by (cases v; cases w) (auto intro!: triangle_andThen)
next
  case UNil
  then show ?case
    by (cases v; cases w) (auto simp: triangle_def)
qed (rule triangle_same_kind, (auto intro!: triangle_andThen)[1])+

text \<open>The arrays that occur; arrays with one address are one object.\<close>

primrec expr_arrays :: "expr \<Rightarrow> array set" and node_arrays :: "updates \<Rightarrow> array set" where
  "expr_arrays (ConstantExpr c) = {}"
| "expr_arrays (NotOptimizedExpr e) = expr_arrays e"
| "expr_arrays (ReadExpr a u i) = {a} \<union> node_arrays u \<union> expr_arrays i"
| "expr_arrays (SelectExpr c t f) = expr_arrays c \<union> expr_arrays t \<union> expr_arrays f"
| "expr_arrays (ConcatExpr l r) = expr_arrays l \<union> expr_arrays r"
| "expr_arrays (ExtractExpr e off w) = expr_arrays e"
| "expr_arrays (ZExtExpr e w) = expr_arrays e"
| "expr_arrays (SExtExpr e w) = expr_arrays e"
| "expr_arrays (NotExpr e) = expr_arrays e"
| "expr_arrays (BinaryExpr k l r) = expr_arrays l \<union> expr_arrays r"
| "node_arrays UNil = {}"
| "node_arrays (UpdateNode i v n) = expr_arrays i \<union> expr_arrays v \<union> node_arrays n"

definition one_object :: "array set \<Rightarrow> array set \<Rightarrow> bool" where
  "one_object A B \<longleftrightarrow> (\<forall>a \<in> A. \<forall>b \<in> B. arr_ptr a = arr_ptr b \<longrightarrow> a = b)"

lemma one_object_Un:
  "one_object (A \<union> A') (B \<union> B') \<Longrightarrow> one_object A B \<and> one_object A' B' \<and> one_object A B' \<and> one_object A' B"
  by (auto simp: one_object_def)

lemma compare_0:
  "expr_compare hv a b = 0 \<Longrightarrow> one_object (expr_arrays a) (expr_arrays b) \<Longrightarrow> a = b"
  "nodes_compare hv u v = 0 \<Longrightarrow> ul_size u = ul_size v \<Longrightarrow> one_object (node_arrays u) (node_arrays v) \<Longrightarrow> u = v"
proof (induction a and u arbitrary: b and v)
  case (UpdateNode i x n)
  then show ?case
    by (cases v) (auto dest!: one_object_Un)
next
  case UNil
  then show ?case
    by (cases v) auto
next
  case (ConstantExpr c)
  then show ?case
    by (cases b) (auto simp: compare_heads_0 intro: apint.expand)
next
  case (ReadExpr a u i)
  then obtain a' u' i' where b: "b = ReadExpr a' u' i'"
    by (auto simp: compare_heads_0)
  with ReadExpr.prems have "arr_ptr a = arr_ptr a'" "expr_compare hv i i' = 0" "nodes_compare hv u u' = 0" "ul_size u = ul_size u'"
    by auto
  moreover have "one_object {a} {a'}" "one_object (node_arrays u) (node_arrays u')" "one_object (expr_arrays i) (expr_arrays i')"
    using ReadExpr.prems(2) by (auto simp: b one_object_def)
  ultimately show ?case
    using ReadExpr.IH by (auto simp: b one_object_def)
qed (auto simp: compare_heads_0 dest!: one_object_Un)

lemma compare_refl: "expr_compare hv a a = 0" "nodes_compare hv u u = 0"
  by (induction a and u) (simp_all add: compare_heads_0)

lemma swap_same_kind:
  assumes "getKind b = getKind a \<Longrightarrow> expr_hash hv b = expr_hash hv a \<Longrightarrow> expr_compare hv b a = - expr_compare hv a b"
  shows "expr_compare hv b a = - expr_compare hv a b"
proof (cases "compare_heads hv a b = 0")
  case False
  then show ?thesis
    using compare_heads_swap [of hv b a] expr_compare_heads [of hv a b] expr_compare_heads [of hv b a]
    by (simp add: andThen_def)
qed (use assms in \<open>simp add: compare_heads_0\<close>)

lemma compare_swap:
  "expr_compare hv b a = - expr_compare hv a b"
  "ul_size u = ul_size v \<Longrightarrow> nodes_compare hv v u = - nodes_compare hv u v"
proof (induction a and u arbitrary: b and v)
  case (UpdateNode i x n)
  then show ?case
    by (cases v) (auto simp flip: andThen_minus)
next
  case UNil
  then show ?case
    by (cases v) auto
qed (rule swap_same_kind, (auto simp: andThen_def compare_heads_0 cmp3_def)[1])+

section \<open>Properties\<close>

text \<open>
  C21: \<open>compare\<close> is a total order on expressions, whatever the hash of constants is: it is 0 only for
  equal expressions (over arrays that are one object when they have one address), changes its sign
  with the order of the operands, and is transitive.
\<close>

theorem compare_is_order:
  assumes "one_object (expr_arrays a) (expr_arrays b)"
  shows "(expr_compare hv a b = 0 \<longleftrightarrow> a = b) \<and> expr_compare hv b a = - expr_compare hv a b \<and>
    (expr_compare hv a b < 0 \<longrightarrow> expr_compare hv b c < 0 \<longrightarrow> expr_compare hv a c < 0)"
  using compare_0(1) [OF _ assms] compare_refl(1) compare_swap(1) [of hv b a] compare_triangle(1) [of hv a b c]
  by (auto simp: triangle_def)

theorem compare_is_order_witness:
  "expr_compare (\<lambda>c. of_int (apval c)) (example_byte 0 1) (example_byte 0 2) \<noteq> 0"
  using compare_is_order [of "example_byte 0 1" "example_byte 0 2" "\<lambda>c. of_int (apval c)" "example_byte 0 2"]
  by (simp add: example_byte_def one_object_def ce_alloc_def)

text \<open>
  the hash of an extension does not tell a zero extension from a sign extension, also below other
  operators, so that different conditions on one byte have the same hash.
\<close>

theorem extension_hashes_collide:
  "expr_hash hv (BinaryExpr k (ZExtExpr e w) r) = expr_hash hv (BinaryExpr k (SExtExpr e w) r) \<and>
   expr_compare hv (BinaryExpr k (ZExtExpr e w) r) (BinaryExpr k (SExtExpr e w) r) \<noteq> 0"
  by (simp add: compare_heads_0)

end
