(* ===== verification/StdMap.thy ===== *)
theory StdMap
  imports Main "HOL-Library.Product_Lexorder"
begin

text \<open>
  The ordered containers of the C++ library: a \<open>std::map\<close> is the list of its entries in the order
  of the keys, a \<open>std::set\<close> the list of its elements, so that a loop over one is a loop over the
  list. \<open>map_insert\<close> is \<open>insert\<close>, which keeps an entry that is already there; \<open>map_assign\<close> is
  assignment through \<open>operator[]\<close>, which replaces it.
\<close>

definition map_insert :: "'k::linorder \<Rightarrow> 'v \<Rightarrow> ('k \<times> 'v) list \<Rightarrow> ('k \<times> 'v) list" where
  "map_insert k v m = (if map_of m k = None then insort_key fst (k, v) m else m)"

definition map_assign :: "'k::linorder \<Rightarrow> 'v \<Rightarrow> ('k \<times> 'v) list \<Rightarrow> ('k \<times> 'v) list" where
  "map_assign k v m = insort_key fst (k, v) (filter (\<lambda>p. fst p \<noteq> k) m)"

text \<open>Reading through \<open>operator[]\<close>; the entry that it creates for a missing key holds \<open>d\<close>.\<close>

definition map_at :: "'v \<Rightarrow> ('k \<times> 'v) list \<Rightarrow> 'k \<Rightarrow> 'v" where
  "map_at d m k = (case map_of m k of Some v \<Rightarrow> v | None \<Rightarrow> d)"

definition set_insert :: "'a::linorder \<Rightarrow> 'a list \<Rightarrow> 'a list" where
  "set_insert x xs = (if x \<in> set xs then xs else insort x xs)"

definition set_union :: "'a::linorder list \<Rightarrow> 'a list \<Rightarrow> 'a list" where
  "set_union xs ys = fold set_insert ys xs"

definition set_diff :: "'a list \<Rightarrow> 'a list \<Rightarrow> 'a list" where
  "set_diff xs ys = filter (\<lambda>x. x \<notin> set ys) xs"

section \<open>Maps\<close>

text \<open>A map is well formed when its keys are in order and distinct.\<close>

definition map_ok :: "('k::linorder \<times> 'v) list \<Rightarrow> bool" where
  "map_ok m \<longleftrightarrow> sorted (map fst m) \<and> distinct (map fst m)"

lemma map_of_insort_key:
  "map_of m k = None \<Longrightarrow> map_of (insort_key fst (k, v) m) = (map_of m)(k \<mapsto> v)"
  by (induction m) (auto split: if_splits)

lemma map_of_filter_key: "map_of (filter (\<lambda>p. fst p \<noteq> k) m) = (map_of m)(k := None)"
  by (induction m) (auto simp: fun_eq_iff)

lemma map_of_insert [simp]:
  "map_of (map_insert k v m) = (if map_of m k = None then (map_of m)(k \<mapsto> v) else map_of m)"
  by (simp add: map_insert_def map_of_insort_key)

lemma map_of_assign [simp]: "map_of (map_assign k v m) = (map_of m)(k \<mapsto> v)"
  by (simp add: map_assign_def map_of_insort_key map_of_filter_key)

lemma dom_insert [simp]: "dom (map_of (map_insert k v m)) = insert k (dom (map_of m))"
  and dom_assign [simp]: "dom (map_of (map_assign k v m)) = insert k (dom (map_of m))"
  by auto

lemma map_ok_Nil [simp]: "map_ok []"
  by (simp add: map_ok_def)

lemma keys_insort: "map fst (insort_key fst p m) = insort (fst p) (map fst m)"
  by (induction m) auto

lemma map_ok_insert: "map_ok m \<Longrightarrow> map_ok (map_insert k v m)"
  by (auto simp: map_ok_def map_insert_def keys_insort map_of_eq_None_iff sorted_insort distinct_insort)

lemma map_ok_filter: "map_ok m \<Longrightarrow> map_ok (filter P m)"
  by (induction m) (auto simp: map_ok_def)

lemma map_ok_assign: "map_ok m \<Longrightarrow> map_ok (map_assign k v m)"
  using map_ok_filter [of m "\<lambda>p. fst p \<noteq> k"]
  by (auto simp: map_ok_def map_assign_def keys_insort sorted_insort distinct_insort)

lemma map_ok_entry: "map_ok m \<Longrightarrow> (k, v) \<in> set m \<longleftrightarrow> map_of m k = Some v"
  by (simp add: map_ok_def)

section \<open>Sets\<close>

lemma set_set_insert [simp]: "set (set_insert x xs) = insert x (set xs)"
  by (auto simp: set_insert_def set_insort_key)

lemma set_set_union [simp]: "set (set_union xs ys) = set xs \<union> set ys"
  unfolding set_union_def by (induction ys arbitrary: xs) auto

lemma set_set_diff [simp]: "set (set_diff xs ys) = set xs - set ys"
  by (auto simp: set_diff_def)

definition set_ok :: "'a::linorder list \<Rightarrow> bool" where
  "set_ok xs \<longleftrightarrow> sorted xs \<and> distinct xs"

lemma set_ok_insert: "set_ok xs \<Longrightarrow> set_ok (set_insert x xs)"
  by (simp add: set_ok_def set_insert_def sorted_insort distinct_insort)

end
