(* ===== verification/CodeCache.thy ===== *)
theory CodeCache
  imports Complex_Main Prelude StdMap "HOL-Library.Monad_Syntax"
begin

text \<open>
  Cache side channels of the code (\<open>lib/Core/ResourceUsage.cpp\<close>): two paths that fetch instructions
  from different cache lines can be told apart. The module under analysis belongs to LLVM: its basic
  blocks, the identity of instructions, their source lines and the address ranges of source lines in
  the binary are the record \<open>llvmModule\<close>, a parameter. Sets are ordered lists.
\<close>

section \<open>Parameters\<close>

record llvmModule =
  insts :: "nat \<Rightarrow> nat list"
  successors :: "nat \<Rightarrow> nat list"
  predecessors :: "nat \<Rightarrow> nat list"
  parent :: "nat \<Rightarrow> nat"
  isIdenticalTo :: "nat \<Rightarrow> nat \<Rightarrow> bool"
  debugLine :: "nat \<Rightarrow> nat option"
  functionName :: "nat \<Rightarrow> string"
  lookupAddressRangeNoFile :: "string \<Rightarrow> nat \<Rightarrow> (nat \<times> nat) list option"

record options =
  cacheLineMode :: bool
  cacheBitmaskMode :: bool
  cacheLineBits :: nat
  cacheBitmask :: nat
  BasicBlockDist :: nat
  PeerBasicBlocks :: bool

section \<open>Neighbouring blocks\<close>

definition sameBB :: "llvmModule \<Rightarrow> nat \<Rightarrow> nat \<Rightarrow> bool" where
  "sameBB M bb1 bb2 = isIdenticalTo M (hd (insts M bb1)) (hd (insts M bb2))"

definition findPeerBBs :: "llvmModule \<Rightarrow> nat \<Rightarrow> nat list \<Rightarrow> nat list" where
  "findPeerBBs M tb result =
     fold (\<lambda>bbi result. fold (\<lambda>pc result. if \<not> sameBB M pc tb then set_insert pc result else result)
       (successors M bbi) result) (predecessors M tb) result"

function findBBAtDistance :: "llvmModule \<Rightarrow> nat \<Rightarrow> nat \<Rightarrow> nat \<Rightarrow> nat list \<Rightarrow> nat list" where
  "findBBAtDistance M bb current distance result =
     (if current > distance then result
      else fold (\<lambda>bbi result. findBBAtDistance M bbi (current + 1) distance (set_insert bbi result))
             (successors M bb) result)"
  by auto

termination findBBAtDistance
  by (relation "measure (\<lambda>(M, bb, current, distance, result). Suc distance - current)") auto

declare findBBAtDistance.simps [simp del]

definition findBBAtDistanceFrom :: "llvmModule \<Rightarrow> nat \<Rightarrow> nat \<Rightarrow> nat list \<Rightarrow> nat list" where
  "findBBAtDistanceFrom M inst distance result = findBBAtDistance M (parent M inst) 1 distance result"

section \<open>Addresses of a block\<close>

definition findSourceLocInfos :: "llvmModule \<Rightarrow> nat \<Rightarrow> (nat \<times> nat) list \<Rightarrow> (nat \<times> nat) list" where
  "findSourceLocInfos M bb pset =
     fold (\<lambda>i pset.
       case debugLine M i of
         None \<Rightarrow> pset
       | Some line \<Rightarrow>
           (case lookupAddressRangeNoFile M (functionName M bb) line of
              None \<Rightarrow> pset
            | Some p \<Rightarrow> set_union pset p)) (insts M bb) pset"

definition findVirtualAddresses :: "llvmModule \<Rightarrow> nat list \<Rightarrow> (nat \<times> nat) list \<Rightarrow> (nat \<times> nat) list" where
  "findVirtualAddresses M a aset = fold (findSourceLocInfos M) a aset"

section \<open>Comparing address ranges\<close>

text \<open>
  The addresses a loop \<open>for (unsigned i = lo; i <= hi; i++)\<close> visits; with the largest unsigned number
  as \<open>hi\<close> it does not end.
\<close>

definition addresses :: "nat \<times> nat \<Rightarrow> nat list option" where
  "addresses r = (if snd r = 2 ^ 32 - 1 \<and> fst r \<le> snd r then None else Some [fst r ..< Suc (snd r)])"

text \<open>The cache line of an address; with neither mode nothing is compared.\<close>

definition cacheLine :: "options \<Rightarrow> nat \<Rightarrow> nat option" where
  "cacheLine opts i =
     (if cacheLineMode opts then Some (drop_bit (cacheLineBits opts) i)
      else if cacheBitmaskMode opts then Some (i AND cacheBitmask opts)
      else None)"

definition otherLines :: "options \<Rightarrow> nat \<times> nat \<Rightarrow> nat list \<Rightarrow> nat list option" where
  "otherLines opts s2i s2C =
     do {
       addrs \<leftarrow> addresses s2i;
       Some (fold (\<lambda>i s2C. case cacheLine opts i of Some j \<Rightarrow> set_insert j s2C | None \<Rightarrow> s2C) addrs s2C)
     }"

text \<open>
  The addresses whose line the other side does not have, and the lines that are reported as missing:
  the second insertion is outside the \<open>if\<close> in bitmask mode.
\<close>

definition missingLines :: "options \<Rightarrow> nat \<times> nat \<Rightarrow> nat list \<Rightarrow> (nat list \<times> nat list) option" where
  "missingLines opts s1i s2C =
     do {
       addrs \<leftarrow> addresses s1i;
       Some (fold (\<lambda>i (codeCacheLines, missingCL).
         case cacheLine opts i of
           None \<Rightarrow> (codeCacheLines, missingCL)
         | Some j \<Rightarrow>
             (if j \<notin> set s2C then set_insert i codeCacheLines else codeCacheLines,
              if \<not> cacheLineMode opts \<or> j \<notin> set s2C then set_insert j missingCL else missingCL)) addrs ([], []))
     }"

text \<open>The inner loop: \<open>s2C\<close> grows from range to range.\<close>

fun compareRanges :: "options \<Rightarrow> nat \<times> nat \<Rightarrow> (nat \<times> nat) list \<Rightarrow> nat list \<Rightarrow> nat \<Rightarrow> nat option" where
  "compareRanges opts s1i [] s2C n = Some n"
| "compareRanges opts s1i (s2i # s2) s2C n =
     do {
       s2C' \<leftarrow> otherLines opts s2i s2C;
       (codeCacheLines, missingCL) \<leftarrow> missingLines opts s1i s2C';
       compareRanges opts s1i s2 s2C' (if codeCacheLines \<noteq> [] then n + 1 else n)
     }"

fun countMissing :: "options \<Rightarrow> (nat \<times> nat) list \<Rightarrow> (nat \<times> nat) list \<Rightarrow> nat \<Rightarrow> nat option" where
  "countMissing opts [] s2 n = Some n"
| "countMissing opts (s1i # s1) s2 n = do { m \<leftarrow> compareRanges opts s1i s2 [] n; countMissing opts s1 s2 m }"

text \<open>
  Whether a side channel is found, with the accuracy that is written when it is compared at all.
\<close>

definition checkCodeCacheSideChannel ::
  "options \<Rightarrow> (nat \<times> nat) list \<Rightarrow> (nat \<times> nat) list \<Rightarrow> (bool \<times> rat) option" where
  "checkCodeCacheSideChannel opts s1 s2 =
     (if s1 = [] \<or> s2 = [] then Some (False, 0)
      else do {
        missing \<leftarrow> countMissing opts s1 s2 0;
        Some (0 < missing, 100 * of_nat missing / of_nat (length s1 * length s2))
      })"

section \<open>The check of two paths\<close>

text \<open>The blocks of the other path that are close to the branch, or peers of the block.\<close>

definition filterBlocks :: "llvmModule \<Rightarrow> options \<Rightarrow> nat \<Rightarrow> nat \<Rightarrow> nat list \<Rightarrow> nat list" where
  "filterBlocks M opts branch di b =
     (if 0 < BasicBlockDist opts \<or> PeerBasicBlocks opts then
        (let flt = (if PeerBasicBlocks opts then findPeerBBs M di []
                    else findBBAtDistanceFrom M branch (BasicBlockDist opts) [])
         in fold (\<lambda>bt temp. if list_ex (sameBB M bt) flt then set_insert bt temp else temp) b [])
      else b)"

fun leakingBlocks ::
  "llvmModule \<Rightarrow> options \<Rightarrow> nat \<Rightarrow> nat list \<Rightarrow> nat list \<Rightarrow> nat list \<times> rat \<Rightarrow> (nat list \<times> rat) option" where
  "leakingBlocks M opts branch b [] (leakage, max_accuracy) = Some (leakage, max_accuracy)"
| "leakingBlocks M opts branch b (di # diff) (leakage, max_accuracy) =
     (let aset = findSourceLocInfos M di [];
          bset = findVirtualAddresses M (filterBlocks M opts branch di b) []
      in if bset = [] then leakingBlocks M opts branch b diff (leakage, max_accuracy)
         else do {
           (leak, accuracy) \<leftarrow> checkCodeCacheSideChannel opts aset bset;
           leakingBlocks M opts branch b diff
             (if leak then (set_insert di leakage, max max_accuracy accuracy) else (leakage, max_accuracy))
         })"

text \<open>\<open>checkCacheLeakage\<close>: the blocks that are reported for a branch instruction, if there are any.\<close>

definition checkCacheLeakage ::
  "llvmModule \<Rightarrow> options \<Rightarrow> nat \<Rightarrow> nat list \<Rightarrow> nat list \<Rightarrow> (nat list \<times> rat) option option" where
  "checkCacheLeakage M opts branch diff b =
     (if diff = [] then Some None
      else do {
        (leakage, max_accuracy) \<leftarrow> leakingBlocks M opts branch b diff ([], 0);
        Some (if leakage = [] then None else Some (leakage, max_accuracy))
      })"

section \<open>Blocks within a distance\<close>

definition edges :: "llvmModule \<Rightarrow> (nat \<times> nat) set" where
  "edges M = {(x, y). y \<in> set (successors M x)}"

lemma set_fold_step:
  assumes "\<And>x acc. x \<in> set xs \<Longrightarrow> set (f x acc) = set acc \<union> g x"
  shows "set (fold f xs acc) = set acc \<union> (\<Union>x \<in> set xs. g x)"
  using assms by (induction xs arbitrary: acc) auto

lemma findBBAtDistance_set:
  "current \<le> distance + 1 \<Longrightarrow>
   set (findBBAtDistance M bb current distance result) =
     set result \<union> {b. \<exists>n. 1 \<le> n \<and> n \<le> distance + 1 - current \<and> (bb, b) \<in> edges M ^^ n}"
proof (induction "distance + 1 - current" arbitrary: bb current result)
  case 0
  then show ?case
    by (subst findBBAtDistance.simps) simp
next
  case (Suc k)
  let ?within = "\<lambda>k bb. {b. \<exists>n. 1 \<le> n \<and> n \<le> k \<and> (bb, b) \<in> edges M ^^ n}"
  have "set (findBBAtDistance M bbi (current + 1) distance (set_insert bbi acc)) = set acc \<union> ({bbi} \<union> ?within k bbi)"
    for bbi acc
    using Suc(1) [of "current + 1" bbi "set_insert bbi acc"] Suc(2,3) by auto
  then have "set (findBBAtDistance M bb current distance result) =
      set result \<union> (\<Union>bbi \<in> set (successors M bb). {bbi} \<union> ?within k bbi)"
    using Suc(2,3) by (subst findBBAtDistance.simps) (auto simp: set_fold_step)
  moreover have "(\<Union>bbi \<in> set (successors M bb). {bbi} \<union> ?within k bbi) = ?within (Suc k) bb"
  proof (intro equalityI subsetI)
    fix b assume "b \<in> (\<Union>bbi \<in> set (successors M bb). {bbi} \<union> ?within k bbi)"
    then obtain bbi n where "(bb, bbi) \<in> edges M" "(bbi, b) \<in> edges M ^^ n" "n \<le> k"
      by (force simp: edges_def)
    then show "b \<in> ?within (Suc k) bb"
      using relpow_Suc_I2 [of bb bbi "edges M" b n] by (intro CollectI exI [of _ "Suc n"]) simp
  next
    fix b assume "b \<in> ?within (Suc k) bb"
    then obtain m where "1 \<le> m" "m \<le> Suc k" "(bb, b) \<in> edges M ^^ m"
      by blast
    then obtain n where n: "n \<le> k" "(bb, b) \<in> edges M ^^ Suc n"
      by (cases m) auto
    then obtain bbi where "(bb, bbi) \<in> edges M" "(bbi, b) \<in> edges M ^^ n"
      using relpow_Suc_D2 by metis
    moreover from this have "b = bbi \<or> b \<in> ?within k bbi"
      using n(1) by (cases "n = 0") auto
    ultimately show "b \<in> (\<Union>bbi \<in> set (successors M bb). {bbi} \<union> ?within k bbi)"
      by (auto simp: edges_def)
  qed
  ultimately show ?case
    using Suc(2) by simp
qed

section \<open>Lines of a range\<close>

definition lines :: "options \<Rightarrow> nat \<times> nat \<Rightarrow> nat set" where
  "lines opts r = {j. \<exists>i. fst r \<le> i \<and> i \<le> snd r \<and> cacheLine opts i = Some j}"

lemma addresses_SomeD: "addresses r = Some addrs \<Longrightarrow> set addrs = {fst r .. snd r}"
  by (auto simp: addresses_def split: if_splits)

lemma otherLines_set:
  assumes "otherLines opts r s2C = Some s"
  shows "set s = set s2C \<union> lines opts r"
proof -
  from assms obtain addrs where addrs: "addresses r = Some addrs"
    and s: "s = fold (\<lambda>i s2C. case cacheLine opts i of Some j \<Rightarrow> set_insert j s2C | None \<Rightarrow> s2C) addrs s2C"
    by (auto simp: otherLines_def split: bind_splits)
  have "set s = set s2C \<union> (\<Union>i \<in> set addrs. set_option (cacheLine opts i))"
    unfolding s by (rule set_fold_step) (auto split: option.split)
  with addresses_SomeD [OF addrs] show ?thesis
    by (auto simp: lines_def)
qed

lemma missingLines_empty:
  assumes "missingLines opts r s2C = Some (codeCacheLines, missingCL)"
  shows "codeCacheLines = [] \<longleftrightarrow> lines opts r \<subseteq> set s2C"
proof -
  let ?step = "\<lambda>i (codeCacheLines, missingCL).
         case cacheLine opts i of
           None \<Rightarrow> (codeCacheLines, missingCL)
         | Some j \<Rightarrow>
             (if j \<notin> set s2C then set_insert i codeCacheLines else codeCacheLines,
              if \<not> cacheLineMode opts \<or> j \<notin> set s2C then set_insert j missingCL else missingCL)"
  have step: "set (fst (fold ?step addrs acc)) =
      set (fst acc) \<union> {i \<in> set addrs. \<exists>j. cacheLine opts i = Some j \<and> j \<notin> set s2C}" for addrs acc
  proof (induction addrs arbitrary: acc)
    case (Cons i addrs)
    have "set (fst (?step i acc)) = set (fst acc) \<union> {k. k = i \<and> (\<exists>j. cacheLine opts i = Some j \<and> j \<notin> set s2C)}"
      by (cases acc; cases "cacheLine opts i") auto
    with Cons show ?case
      by auto
  qed simp
  from assms obtain addrs where addrs: "addresses r = Some addrs" "fold ?step addrs ([], []) = (codeCacheLines, missingCL)"
    by (auto simp: missingLines_def split: bind_splits)
  have "set codeCacheLines = {i \<in> {fst r .. snd r}. \<exists>j. cacheLine opts i = Some j \<and> j \<notin> set s2C}"
    using step [of addrs "([], [])"] addresses_SomeD [OF addrs(1)] by (simp add: addrs(2))
  then show ?thesis
    by (auto simp: lines_def simp flip: set_empty)
qed

section \<open>What the comparison finds\<close>

lemma compareRanges_covered:
  "compareRanges opts s1i s2 s2C n = Some m \<Longrightarrow> lines opts s1i \<subseteq> set s2C \<Longrightarrow> m = n"
proof (induction s2 arbitrary: s2C n)
  case (Cons s2i s2)
  then obtain s2C' cc cl where s: "otherLines opts s2i s2C = Some s2C'" "missingLines opts s1i s2C' = Some (cc, cl)"
    "compareRanges opts s1i s2 s2C' (if cc \<noteq> [] then n + 1 else n) = Some m"
    by (auto split: bind_splits)
  then have "cc = []" "lines opts s1i \<subseteq> set s2C'"
    using missingLines_empty [OF s(2)] otherLines_set [OF s(1)] Cons.prems(2) by auto
  then show ?case
    using Cons.IH [of s2C' n] s(3) by simp
qed simp

lemma compareRanges_bounds:
  "compareRanges opts s1i s2 s2C n = Some m \<Longrightarrow> n \<le> m \<and> m \<le> n + length s2"
proof (induction s2 arbitrary: s2C n)
  case (Cons s2i s2)
  then obtain s2C' n' where "compareRanges opts s1i s2 s2C' n' = Some m" "n' = n \<or> n' = n + 1"
    by (auto split: bind_splits)
  then show ?case
    using Cons.IH by fastforce
qed simp

text \<open>A range of the path counts when the first range of the other path does not cover it.\<close>

lemma compareRanges_first:
  assumes "compareRanges opts s1i (s2i # s2) [] n = Some m"
  shows "n < m \<longleftrightarrow> \<not> lines opts s1i \<subseteq> lines opts s2i"
proof -
  from assms obtain s2C cc cl where s: "otherLines opts s2i [] = Some s2C" "missingLines opts s1i s2C = Some (cc, cl)"
    "compareRanges opts s1i s2 s2C (if cc \<noteq> [] then n + 1 else n) = Some m"
    by (auto split: bind_splits)
  have lines: "cc = [] \<longleftrightarrow> lines opts s1i \<subseteq> lines opts s2i" "set s2C = lines opts s2i"
    using missingLines_empty [OF s(2)] otherLines_set [OF s(1)] by simp_all
  show ?thesis
  proof (cases "cc = []")
    case True
    with s(3) lines compareRanges_covered [of opts s1i s2 s2C n m] show ?thesis
      by simp
  next
    case False
    with s(3) lines compareRanges_bounds [of opts s1i s2 s2C "n + 1" m] show ?thesis
      by simp
  qed
qed

lemma countMissing_first:
  "countMissing opts s1 (s2i # s2) n = Some m \<Longrightarrow>
   n \<le> m \<and> m \<le> n + length s1 * length (s2i # s2) \<and> (n < m \<longleftrightarrow> (\<exists>r \<in> set s1. \<not> lines opts r \<subseteq> lines opts s2i))"
proof (induction s1 arbitrary: n)
  case (Cons s1i s1)
  then obtain l where l: "compareRanges opts s1i (s2i # s2) [] n = Some l" "countMissing opts s1 (s2i # s2) l = Some m"
    by (auto simp del: compareRanges.simps split: bind_splits)
  show ?case
    using compareRanges_first [OF l(1)] compareRanges_bounds [OF l(1)] Cons.IH [OF l(2)] by auto
qed simp

lemma compareRanges_total:
  "snd s1i < 2 ^ 32 - 1 \<Longrightarrow> list_all (\<lambda>r. snd r < 2 ^ 32 - 1) s2 \<Longrightarrow> compareRanges opts s1i s2 s2C n \<noteq> None"
  by (induction s2 arbitrary: s2C n)
    (auto simp: otherLines_def missingLines_def addresses_def split: bind_splits prod.splits)

lemma countMissing_total:
  "list_all (\<lambda>r. snd r < 2 ^ 32 - 1) s1 \<Longrightarrow> list_all (\<lambda>r. snd r < 2 ^ 32 - 1) s2 \<Longrightarrow> countMissing opts s1 s2 n \<noteq> None"
  using compareRanges_total by (induction s1 arbitrary: n) (auto split: bind_splits)

lemma leakingBlocks_sound:
  "leakingBlocks M opts branch b diff (leakage, acc) = Some (leakage', acc') \<Longrightarrow>
   di \<in> set leakage' \<Longrightarrow> di \<in> set leakage \<or> di \<in> set diff \<and>
     (\<exists>r \<in> set (findSourceLocInfos M di []).
        \<not> lines opts r \<subseteq> lines opts (hd (findVirtualAddresses M (filterBlocks M opts branch di b) [])))"
proof (induction diff arbitrary: leakage acc)
  case (Cons d diff)
  let ?aset = "findSourceLocInfos M d []" and ?bset = "findVirtualAddresses M (filterBlocks M opts branch d b) []"
  show ?case
  proof (cases "?bset = []")
    case True
    then show ?thesis
      using Cons.IH [of leakage acc] Cons.prems by (auto simp: Let_def)
  next
    case False
    then obtain leak a where c: "checkCodeCacheSideChannel opts ?aset ?bset = Some (leak, a)"
      and rest: "leakingBlocks M opts branch b diff
        (if leak then (set_insert d leakage, max acc a) else (leakage, acc)) = Some (leakage', acc')"
      using Cons.prems(1) by (auto simp: Let_def split: bind_splits)
    have "leak \<Longrightarrow> \<exists>r \<in> set ?aset. \<not> lines opts r \<subseteq> lines opts (hd ?bset)"
      using c False countMissing_first [of opts ?aset "hd ?bset" "tl ?bset" 0]
      by (auto simp: checkCodeCacheSideChannel_def split: bind_splits if_splits)
    moreover have "di \<in> set (if leak then set_insert d leakage else leakage) \<or> di \<in> set diff \<and>
        (\<exists>r \<in> set (findSourceLocInfos M di []).
          \<not> lines opts r \<subseteq> lines opts (hd (findVirtualAddresses M (filterBlocks M opts branch di b) [])))"
      using Cons.IH [of "if leak then set_insert d leakage else leakage" "if leak then max acc a else acc"] rest Cons.prems(2)
      by (auto split: if_splits)
    ultimately show ?thesis
      by (auto split: if_splits)
  qed
qed simp

section \<open>Properties\<close>


definition example_options :: options where
  "example_options = \<lparr>cacheLineMode = True, cacheBitmaskMode = False, cacheLineBits = 6, cacheBitmask = 0,
     BasicBlockDist = 2, PeerBasicBlocks = False\<rparr>"


text \<open>
  so a side channel can be reported for blocks whose cache lines the other path has, all of them:
  it is enough that its first range does not have them.
\<close>

theorem code_cache_false_alarm:
  "\<exists>opts s1 s2 accuracy. checkCodeCacheSideChannel opts s1 s2 = Some (True, accuracy) \<and>
     (\<Union>r \<in> set s1. lines opts r) \<subseteq> (\<Union>r \<in> set s2. lines opts r)"
proof (intro exI conjI)
  show "checkCodeCacheSideChannel example_options [(64, 64)] [(0, 0), (64, 64)] = Some (True, 50)"
    by (simp add: checkCodeCacheSideChannel_def otherLines_def missingLines_def addresses_def cacheLine_def
        example_options_def set_insert_def drop_bit_eq_div)
qed auto

text \<open>
  \<open>findBBAtDistance\<close> collects exactly the blocks that at least one and at most \<open>distance\<close> edges of
  the control flow graph lead to.
\<close>

theorem blocks_within_distance:
  "set (findBBAtDistanceFrom M inst distance []) =
     {b. \<exists>n. 1 \<le> n \<and> n \<le> distance \<and> (parent M inst, b) \<in> edges M ^^ n}"
  unfolding findBBAtDistanceFrom_def by (subst findBBAtDistance_set) simp_all

text \<open>
  every block reported as leaking is one of the blocks the other path does not execute, and has
  an address range with a cache line missing from the first range it was compared with.
\<close>

theorem leaking_blocks_differ:
  assumes "checkCacheLeakage M opts branch diff b = Some (Some (leakage, accuracy))" "di \<in> set leakage"
  shows "di \<in> set diff \<and>
    (\<exists>r \<in> set (findSourceLocInfos M di []).
       \<not> lines opts r \<subseteq> lines opts (hd (findVirtualAddresses M (filterBlocks M opts branch di b) [])))"
  using assms leakingBlocks_sound [of M opts branch b diff "[]" 0]
  by (auto simp: checkCacheLeakage_def split: bind_splits if_splits)

text \<open>Two blocks, each of one instruction, in different cache lines.\<close>

definition example_module :: llvmModule where
  "example_module = \<lparr>insts = (\<lambda>bb. [bb]), successors = (\<lambda>bb. if bb = 0 then [1, 2] else []), predecessors = (\<lambda>_. [0]),
     parent = (\<lambda>i. i), isIdenticalTo = (=), debugLine = Some, functionName = (\<lambda>_. ''f''),
     lookupAddressRangeNoFile = (\<lambda>f l. Some [(64 * l, 64 * l + 3)])\<rparr>"

theorem leaking_blocks_differ_witness:
  "1 \<in> set [1 :: nat] \<and> (\<exists>r \<in> set (findSourceLocInfos example_module 1 []). \<not> lines example_options r \<subseteq>
     lines example_options (hd (findVirtualAddresses example_module (filterBlocks example_module example_options 0 1 [2]) [])))"
proof (rule leaking_blocks_differ)
  show "checkCacheLeakage example_module example_options 0 [1] [2] = Some (Some ([1], 100))"
    by (simp add: checkCacheLeakage_def example_module_def example_options_def Let_def findSourceLocInfos_def
        findVirtualAddresses_def filterBlocks_def findBBAtDistanceFrom_def findBBAtDistance.simps sameBB_def
        checkCodeCacheSideChannel_def otherLines_def missingLines_def addresses_def cacheLine_def
        set_insert_def set_union_def drop_bit_eq_div upt_rec)
qed simp

end
