(* ===== verification/ResourceTree.thy ===== *)
theory ResourceTree
  imports ExprOrder Regions CodeCache
begin

text \<open>
  The resource tree (\<open>lib/Core/ResourceUsage.cpp\<close>, \<open>class RD\<close> in \<open>ResourceUsage.h\<close>): every path
  segment of the execution has a node with its cost, its condition split into a secret part \<open>HC\<close> and
  a public part \<open>LC\<close>, and a pointer to the secret dependent branch above it, its H-ancestor. After the
  execution the costs of the leaves are propagated to the H-ancestors, where two paths with different
  secrets, compatible public inputs and different costs are a timing side channel.

  Nodes live in a heap from addresses to records; sets of nodes are lists of addresses in order. A
  failed assertion, a null pointer and \<open>exit\<close> are \<open>None\<close>. The parameter \<open>hv\<close> is the hash of a constant.
\<close>

section \<open>Nodes\<close>

type_synonym exhash = "32 word \<times> 32 word"
type_synonym range = "int \<times> int"

record rd =
  isHBr :: bool
  HA :: "nat option"
  HAset :: bool
  HC :: expr
  LC :: expr
  ru :: int
  finalized :: nat
  numSucc :: nat
  succ :: "nat list"
  rd_i :: nat
  stateid :: nat
  Ru :: "(exhash \<times> range) list"
  HE :: "(exhash \<times> expr \<times> expr) list"
  copyRd :: bool
  bbs :: "nat list"
  bbm :: "(exhash \<times> nat list) list"
  retval :: "expr option"
  isvoid :: bool
  lrets :: "(exhash \<times> expr option) list"
  pathterminated :: bool
  terminated :: "(exhash \<times> nat) list"
  timingObservationPoint :: bool
  topsLoc :: string
  RDSet :: "(exhash \<times> nat list) list"

type_synonym heap = "nat \<Rightarrow> rd option"

definition expr_true :: expr where
  "expr_true = ConstantExpr (ce_alloc 1 1)"

text \<open>\<open>newNode(ExecutionState *)\<close> at the instruction \<open>inst\<close>; the second component is the counter \<open>rdid\<close>.\<close>

definition newNode :: "nat \<Rightarrow> nat \<Rightarrow> rd \<times> nat" where
  "newNode inst rdid =
     (\<lparr>isHBr = False, HA = None, HAset = False, HC = expr_true, LC = expr_true, ru = 0, finalized = 0,
       numSucc = 0, succ = [], rd_i = inst, stateid = rdid, Ru = [], HE = [], copyRd = False, bbs = [],
       bbm = [], retval = None, isvoid = True, lrets = [], pathterminated = False, terminated = [],
       timingObservationPoint = False, topsLoc = '''', RDSet = []\<rparr>, rdid + 1)"

text \<open>\<open>newNode(ExecutionState *, Instruction *)\<close>.\<close>

definition newNodeAt :: "nat \<Rightarrow> nat \<Rightarrow> nat \<Rightarrow> rd \<times> nat" where
  "newNodeAt inst ii rdid = (let (r, n) = newNode inst rdid in (r\<lparr>rd_i := ii\<rparr>, n))"

text \<open>\<open>newNode(RD *)\<close>: a copy without successors and tables.\<close>

definition copyNode :: "rd \<Rightarrow> rd" where
  "copyNode r =
     (fst (newNode (rd_i r) (stateid r)))\<lparr>isHBr := isHBr r, HAset := HAset r, HC := HC r, LC := LC r, ru := ru r,
        finalized := finalized r, copyRd := True, bbs := bbs r, timingObservationPoint := timingObservationPoint r\<rparr>"

definition getHash :: "(apint \<Rightarrow> 32 word) \<Rightarrow> expr \<Rightarrow> expr \<Rightarrow> exhash" where
  "getHash hv e1 e2 = (expr_hash hv e1, expr_hash hv e2)"

definition combineRange :: "range \<Rightarrow> range \<Rightarrow> range" where
  "combineRange r1 r2 = (min (fst r1) (fst r2), max (snd r1) (snd r2))"

definition noRange :: range where
  "noRange = (2 ^ 31 - 1, - (2 ^ 31 - 1))"

section \<open>Propagation\<close>

text \<open>A path whose node is not a secret dependent branch is recorded at the H-ancestor \<open>a\<close>.\<close>

definition recordPath :: "(apint \<Rightarrow> 32 word) \<Rightarrow> nat \<Rightarrow> rd \<Rightarrow> rd \<Rightarrow> rd" where
  "recordPath hv p r a =
     (let eh = getHash hv (HC r) (LC r);
          R = map_at noRange (Ru a) eh;
          rr = combineRange R (i32 (ru r), i32 (ru r));
          lrets' = (if isvoid r then lrets a else map_insert eh (retval r) (lrets a))
      in a\<lparr>Ru := map_insert eh rr (Ru a),
           HE := map_insert eh (HC r, LC r) (HE a),
           RDSet := map_assign eh (set_insert p (map_at [] (RDSet a) eh)) (RDSet a),
           lrets := fold (\<lambda>(h, e) m. map_insert h e m) (lrets r) lrets',
           bbm := map_assign eh (set_union (map_at [] (bbm a) eh) (bbs r)) (bbm a),
           terminated := (if pathterminated r then map_assign eh (map_at 0 (terminated a) eh + 1) (terminated a)
                          else terminated a)\<rparr>)"

text \<open>
  The paths recorded at a secret dependent branch \<open>r\<close> are handed on to its own H-ancestor \<open>a\<close>, each
  with the conjunction of the conditions. \<open>bs\<close> is the one set of basic blocks that the loop fills.
\<close>

fun recordBranch ::
  "(apint \<Rightarrow> 32 word) \<Rightarrow> range \<Rightarrow> (exhash \<times> range) list \<Rightarrow> nat list \<Rightarrow> rd \<Rightarrow> rd \<Rightarrow> (rd \<times> rd) option" where
  "recordBranch hv R [] bs r a = Some (r, a)"
| "recordBranch hv R ((k, Rs) # rest) bs r a =
     do {
       (hc, lc) \<leftarrow> map_of (HE r) k;
       let HC' = And_create (HC r) hc;
       let LC' = And_create (LC r) lc;
       let eh2 = getHash hv HC' LC';
       let rr = combineRange R Rs;
       let r' = r\<lparr>RDSet := map_insert k [] (RDSet r), terminated := map_insert k 0 (terminated r)\<rparr>;
       blocks \<leftarrow> map_of (bbm r) k;
       let bs' = set_union bs blocks;
       recordBranch hv R rest bs' r'
         (a\<lparr>Ru := map_insert eh2 rr (Ru a),
            HE := map_insert eh2 (HC', LC') (HE a),
            RDSet := map_assign eh2 (set_union (map_at [] (RDSet a) eh2) (map_at [] (RDSet r) k)) (RDSet a),
            terminated := map_assign eh2 (map_at 0 (terminated a) eh2 + map_at 0 (terminated r) k) (terminated a),
            bbm := map_insert eh2 bs' (bbm a),
            lrets := fold (\<lambda>(h, e) m. map_insert h e m) (lrets r) (lrets a)\<rparr>)
     }"

text \<open>One round of the loop that climbs from a node to its H-ancestor.\<close>

definition climbStep :: "(apint \<Rightarrow> 32 word) \<Rightarrow> heap \<Rightarrow> nat \<Rightarrow> (heap \<times> nat) option" where
  "climbStep hv H p =
     do {
       r \<leftarrow> H p;
       pa \<leftarrow> HA r;
       a \<leftarrow> H pa;
       let eh = getHash hv (HC r) (LC r);
       let R = map_at noRange (Ru a) eh;
       (if \<not> isHBr r then Some (H(pa \<mapsto> recordPath hv p r a), pa)
        else do {
          (r', a') \<leftarrow> recordBranch hv R (Ru r) (map_at [] (bbm a) eh) r a;
          Some (H(p \<mapsto> r', pa \<mapsto> a'), pa)
        })
     }"

partial_function (option) climb :: "(apint \<Rightarrow> 32 word) \<Rightarrow> heap \<Rightarrow> nat \<Rightarrow> heap option" where
  "climb hv H p =
     (case H p of
        None \<Rightarrow> None
      | Some r \<Rightarrow>
          if HAset r then Option.bind (climbStep hv H p) (\<lambda>(H', pa). climb hv H' pa)
          else Some H)"

text \<open>
  The recursion, for the edges from a node to its successors that are still to be visited; only a node
  without successors climbs.
\<close>

definition countSucc :: "heap \<Rightarrow> nat \<Rightarrow> heap option" where
  "countSucc H p = do { r \<leftarrow> H p; Some (H(p \<mapsto> r\<lparr>finalized := finalized r + 1\<rparr>)) }"

definition outEdges :: "nat \<Rightarrow> rd \<Rightarrow> (nat \<times> nat) list" where
  "outEdges p r = map (Pair p) (succ r)"

partial_function (option) propagateEdges ::
  "(apint \<Rightarrow> 32 word) \<Rightarrow> heap \<Rightarrow> (nat \<times> nat) list \<Rightarrow> heap option" where
  "propagateEdges hv H es =
     (case es of
        [] \<Rightarrow> Some H
      | e # rest \<Rightarrow>
          Option.bind (countSucc H (fst e)) (\<lambda>H0.
          Option.bind (H0 (snd e)) (\<lambda>r.
          Option.bind (propagateEdges hv H0 (outEdges (snd e) r)) (\<lambda>H1.
          Option.bind (if succ r = [] then climb hv H1 (snd e) else Some H1) (\<lambda>H2.
          propagateEdges hv H2 rest)))))"

definition propagate :: "(apint \<Rightarrow> 32 word) \<Rightarrow> heap \<Rightarrow> nat \<Rightarrow> heap option" where
  "propagate hv H p =
     do {
       r \<leftarrow> H p;
       H1 \<leftarrow> propagateEdges hv H (outEdges p r);
       (if succ r = [] then climb hv H1 p else Some H1)
     }"

section \<open>Propagation is safe and ends\<close>

text \<open>
  The tables of a node agree: a recorded cost comes with its conditions and its basic blocks, which is
  what the assertions demand.
\<close>

definition tables_ok :: "rd \<Rightarrow> bool" where
  "tables_ok r \<longleftrightarrow> dom (map_of (Ru r)) = dom (map_of (HE r)) \<and> dom (map_of (Ru r)) \<subseteq> dom (map_of (bbm r))"

text \<open>What propagation does not touch.\<close>

definition links :: "rd \<Rightarrow> bool \<times> nat option \<times> bool \<times> nat list \<times> expr \<times> expr" where
  "links r = (isHBr r, HA r, HAset r, succ r, HC r, LC r)"

text \<open>
  A tree whose levels, below \<open>N\<close>, grow along successors and fall along H-ancestors.
\<close>

definition tree_ok :: "(nat \<Rightarrow> nat) \<Rightarrow> nat \<Rightarrow> heap \<Rightarrow> bool" where
  "tree_ok lvl N H \<longleftrightarrow> (\<forall>p r. H p = Some r \<longrightarrow> lvl p < N \<and> tables_ok r \<and>
     (HAset r \<longrightarrow> HA r \<noteq> None \<and> H (the (HA r)) \<noteq> None \<and> lvl (the (HA r)) < lvl p) \<and>
     (\<forall>s \<in> set (succ r). H s \<noteq> None \<and> lvl p < lvl s))"

lemma tree_okD:
  assumes "tree_ok lvl N H" "H p = Some r"
  shows "lvl p < N" "tables_ok r" "HAset r \<Longrightarrow> HA r \<noteq> None \<and> H (the (HA r)) \<noteq> None \<and> lvl (the (HA r)) < lvl p"
    "s \<in> set (succ r) \<Longrightarrow> H s \<noteq> None \<and> lvl p < lvl s"
  using assms unfolding tree_ok_def by blast+

lemma tree_ok_update:
  assumes "tree_ok lvl N H" "H p = Some r" "links r' = links r" "tables_ok r'"
  shows "tree_ok lvl N (H(p \<mapsto> r'))"
  unfolding tree_ok_def
proof (intro allI impI)
  fix q x assume "(H(p \<mapsto> r')) q = Some x"
  then obtain y where y: "H q = Some y" "links x = links y" "tables_ok x"
    using assms tree_okD(2) [OF assms(1), of q] by (cases "q = p") auto
  then have "HA x = HA y" "HAset x = HAset y" "succ x = succ y"
    by (simp_all add: links_def)
  with y tree_okD [OF assms(1) y(1)] show "lvl q < N \<and> tables_ok x \<and>
     (HAset x \<longrightarrow> HA x \<noteq> None \<and> (H(p \<mapsto> r')) (the (HA x)) \<noteq> None \<and> lvl (the (HA x)) < lvl q) \<and>
     (\<forall>s \<in> set (succ x). (H(p \<mapsto> r')) s \<noteq> None \<and> lvl q < lvl s)"
    by auto
qed

lemma recordPath_ok:
  "tables_ok a \<Longrightarrow> tables_ok (recordPath hv p r a)" "links (recordPath hv p r a) = links a"
  "dom (map_of (Ru (recordPath hv p r a))) = insert (getHash hv (HC r) (LC r)) (dom (map_of (Ru a)))"
  by (auto simp: tables_ok_def recordPath_def links_def Let_def simp del: map_of_insert map_of_assign)

lemma recordBranch_ok:
  "tables_ok a \<Longrightarrow> (\<And>k. k \<in> fst ` set es \<Longrightarrow> k \<in> dom (map_of (HE r)) \<and> k \<in> dom (map_of (bbm r))) \<Longrightarrow>
   \<exists>r' a'. recordBranch hv R es bs r a = Some (r', a') \<and> tables_ok a' \<and> links a' = links a \<and> links r' = links r \<and>
     dom (map_of (Ru a)) \<subseteq> dom (map_of (Ru a')) \<and> Ru r' = Ru r \<and> HE r' = HE r \<and> bbm r' = bbm r"
proof (induction es arbitrary: bs r a)
  case (Cons e rest)
  obtain k Rs where e: "e = (k, Rs)"
    by (cases e)
  from Cons.prems(2) [of k] e obtain hl blocks where "map_of (HE r) k = Some hl" "map_of (bbm r) k = Some blocks"
    by auto
  then obtain hc lc where k: "map_of (HE r) k = Some (hc, lc)" "map_of (bbm r) k = Some blocks"
    by (cases hl) simp
  let ?HC' = "And_create (HC r) hc" and ?LC' = "And_create (LC r) lc"
  let ?r' = "r\<lparr>RDSet := map_insert k [] (RDSet r), terminated := map_insert k 0 (terminated r)\<rparr>"
  let ?eh2 = "getHash hv ?HC' ?LC'" and ?bs = "set_union bs blocks"
  let ?a' = "a\<lparr>Ru := map_insert ?eh2 (combineRange R Rs) (Ru a),
            HE := map_insert ?eh2 (?HC', ?LC') (HE a),
            RDSet := map_assign ?eh2 (set_union (map_at [] (RDSet a) ?eh2) (map_at [] (RDSet r) k)) (RDSet a),
            terminated := map_assign ?eh2 (map_at 0 (terminated a) ?eh2 + map_at 0 (terminated r) k) (terminated a),
            bbm := map_insert ?eh2 ?bs (bbm a),
            lrets := fold (\<lambda>(h, e) m. map_insert h e m) (lrets r) (lrets a)\<rparr>"
  have "tables_ok ?a'" "links ?a' = links a" "links ?r' = links r" "dom (map_of (Ru a)) \<subseteq> dom (map_of (Ru ?a'))"
    using Cons.prems(1) by (auto simp: tables_ok_def links_def simp del: map_of_insert map_of_assign)
  moreover have "\<And>k'. k' \<in> fst ` set rest \<Longrightarrow> k' \<in> dom (map_of (HE ?r')) \<and> k' \<in> dom (map_of (bbm ?r'))"
    using Cons.prems(2) by simp
  ultimately show ?case
    using Cons.IH [of ?a' ?r' ?bs] by (auto simp: k e Let_def simp del: map_of_insert map_of_assign)
qed simp

text \<open>How a heap evolves: the links stay, recorded keys stay recorded.\<close>

definition evolves :: "rd \<Rightarrow> rd \<Rightarrow> bool" where
  "evolves r r' \<longleftrightarrow> links r' = links r \<and> dom (map_of (Ru r)) \<subseteq> dom (map_of (Ru r'))"

definition same_links :: "heap \<Rightarrow> heap \<Rightarrow> bool" where
  "same_links H H' \<longleftrightarrow> (\<forall>q. rel_option evolves (H q) (H' q))"

lemma evolves_refl [simp]: "evolves r r"
  by (simp add: evolves_def)

lemma evolves_trans: "evolves r r' \<Longrightarrow> evolves r' r'' \<Longrightarrow> evolves r r''"
  by (auto simp: evolves_def)

lemma same_links_refl [simp]: "same_links H H"
  by (simp add: same_links_def option.rel_refl)

lemma same_links_trans: "same_links H H' \<Longrightarrow> same_links H' H'' \<Longrightarrow> same_links H H''"
  unfolding same_links_def
  by (metis (no_types, opaque_lifting) evolves_trans option.rel_cases option.rel_inject(2) option.rel_sel)

lemma same_links_update: "H p = Some r \<Longrightarrow> evolves r r' \<Longrightarrow> same_links H (H(p \<mapsto> r'))"
  by (simp add: same_links_def option.rel_refl)

lemma same_linksD: "same_links H H' \<Longrightarrow> H p = Some r \<Longrightarrow> \<exists>r'. H' p = Some r' \<and> evolves r r'"
  unfolding same_links_def by (metis option.rel_cases option.distinct(1) option.inject)

lemma climbStep_ok:
  assumes "tree_ok lvl N H" "H p = Some r" "HAset r"
  shows "\<exists>H' pa. climbStep hv H p = Some (H', pa) \<and> tree_ok lvl N H' \<and> H' pa \<noteq> None \<and> lvl pa < lvl p \<and>
    same_links H H' \<and> HA r = Some pa \<and>
    (\<not> isHBr r \<longrightarrow> (\<exists>a'. H' pa = Some a' \<and> getHash hv (HC r) (LC r) \<in> dom (map_of (Ru a'))))"
proof -
  obtain pa a where a: "HA r = Some pa" "H pa = Some a" "lvl pa < lvl p"
    using tree_okD(3) [OF assms] by auto
  have ok: "tables_ok r" "tables_ok a"
    using tree_okD(2) assms a by blast+
  show ?thesis
  proof (cases "isHBr r")
    case False
    moreover have "tree_ok lvl N (H(pa \<mapsto> recordPath hv p r a))"
      using tree_ok_update [OF assms(1) a(2)] recordPath_ok ok(2) by blast
    moreover have "same_links H (H(pa \<mapsto> recordPath hv p r a))"
      using a(2) by (rule same_links_update) (auto simp: evolves_def recordPath_ok)
    moreover have "climbStep hv H p = Some (H(pa \<mapsto> recordPath hv p r a), pa)"
      using a assms(2) False by (simp add: climbStep_def Let_def)
    ultimately show ?thesis
      using a by (auto simp: recordPath_ok)
  next
    case True
    let ?R = "map_at noRange (Ru a) (getHash hv (HC r) (LC r))"
      and ?bs = "map_at [] (bbm a) (getHash hv (HC r) (LC r))"
    have "\<And>k. k \<in> fst ` set (Ru r) \<Longrightarrow> k \<in> dom (map_of (HE r)) \<and> k \<in> dom (map_of (bbm r))"
      using ok(1) unfolding tables_ok_def dom_map_of_conv_image_fst by blast
    with recordBranch_ok [OF ok(2), of "Ru r" r hv ?R ?bs] obtain r' a' where rb: "recordBranch hv ?R (Ru r) ?bs r a = Some (r', a')" "tables_ok a'" "links a' = links a"
      "links r' = links r" "dom (map_of (Ru a)) \<subseteq> dom (map_of (Ru a'))" "Ru r' = Ru r" "HE r' = HE r" "bbm r' = bbm r"
      by blast
    then have "tables_ok r' = tables_ok r"
      by (simp only: tables_ok_def)
    with ok(1) have "tables_ok r'"
      by simp
    then have "tree_ok lvl N (H(p \<mapsto> r'))"
      using tree_ok_update assms rb(4) by blast
    then have "tree_ok lvl N (H(p \<mapsto> r', pa \<mapsto> a'))"
      using tree_ok_update [of lvl N "H(p \<mapsto> r')" pa a a'] a rb by (cases "pa = p") auto
    moreover have "same_links H (H(p \<mapsto> r', pa \<mapsto> a'))"
      using a rb assms(2)
      by (intro same_links_trans [OF same_links_update same_links_update]) (auto simp: evolves_def)
    moreover have "climbStep hv H p = Some (H(p \<mapsto> r', pa \<mapsto> a'), pa)"
      using True a assms(2) rb(1) by (simp add: climbStep_def Let_def)
    ultimately show ?thesis
      using True a by simp
  qed
qed

text \<open>A path is recorded at its H-ancestor, if it has one and is no secret dependent branch itself.\<close>

definition recorded :: "(apint \<Rightarrow> 32 word) \<Rightarrow> heap \<Rightarrow> nat \<Rightarrow> bool" where
  "recorded hv H p \<longleftrightarrow> (\<forall>r. H p = Some r \<and> HAset r \<and> \<not> isHBr r \<longrightarrow>
     (\<exists>a. H (the (HA r)) = Some a \<and> getHash hv (HC r) (LC r) \<in> dom (map_of (Ru a))))"

lemma same_linksD2:
  assumes "same_links H H'" "H' p = Some r'"
  shows "\<exists>r. H p = Some r \<and> evolves r r'"
  using assms unfolding same_links_def by (metis option.rel_cases option.distinct(1) option.inject)

lemma recorded_evolves:
  assumes "recorded hv H p" "same_links H H'"
  shows "recorded hv H' p"
  unfolding recorded_def
proof (intro allI impI)
  fix r' assume r': "H' p = Some r' \<and> HAset r' \<and> \<not> isHBr r'"
  then obtain r where r: "H p = Some r" "evolves r r'"
    using same_linksD2 [OF assms(2)] by blast
  then have eqs: "HAset r = HAset r'" "isHBr r = isHBr r'" "HA r = HA r'" "HC r = HC r'" "LC r = LC r'"
    by (simp_all add: evolves_def links_def)
  with r r' assms(1) obtain a where a: "H (the (HA r')) = Some a" "getHash hv (HC r') (LC r') \<in> dom (map_of (Ru a))"
    unfolding recorded_def by metis
  then show "\<exists>a. H' (the (HA r')) = Some a \<and> getHash hv (HC r') (LC r') \<in> dom (map_of (Ru a))"
    using same_linksD [OF assms(2) a(1)] by (auto simp: evolves_def)
qed

lemma climb_total:
  "tree_ok lvl N H \<Longrightarrow> H p \<noteq> None \<Longrightarrow>
   \<exists>H'. climb hv H p = Some H' \<and> tree_ok lvl N H' \<and> same_links H H' \<and> recorded hv H' p"
proof (induction "lvl p" arbitrary: p H rule: less_induct)
  case less
  then obtain r where r: "H p = Some r"
    by blast
  show ?case
  proof (cases "HAset r")
    case True
    then obtain H1 pa where s: "climbStep hv H p = Some (H1, pa)" "tree_ok lvl N H1" "H1 pa \<noteq> None" "lvl pa < lvl p"
      "same_links H H1" "HA r = Some pa"
      and rec: "\<not> isHBr r \<longrightarrow> (\<exists>a'. H1 pa = Some a' \<and> getHash hv (HC r) (LC r) \<in> dom (map_of (Ru a')))"
      using climbStep_ok [OF less.prems(1) r True, of hv] by (elim exE conjE) (rule that)
    then obtain H' where H': "climb hv H1 pa = Some H'" "tree_ok lvl N H'" "same_links H1 H'"
      using less.hyps by blast
    obtain r1 where "H1 p = Some r1" "HA r1 = HA r" "isHBr r1 = isHBr r" "HC r1 = HC r" "LC r1 = LC r"
      using same_linksD [OF s(5) r] by (auto simp: evolves_def links_def)
    then have "recorded hv H1 p"
      using s(6) rec by (simp add: recorded_def)
    then have "recorded hv H' p"
      using H'(3) by (rule recorded_evolves)
    moreover have "climb hv H p = Some H'"
      using r True s(1) H'(1) by (subst climb.simps) simp
    ultimately show ?thesis
      using H'(2) same_links_trans [OF s(5) H'(3)] by blast
  next
    case False
    with r less.prems show ?thesis
      by (subst climb.simps) (simp add: recorded_def)
  qed
qed

lemma countSucc_ok:
  assumes "tree_ok lvl N H" "H p = Some r"
  shows "\<exists>H'. countSucc H p = Some H' \<and> tree_ok lvl N H' \<and> same_links H H'"
proof -
  have "tree_ok lvl N (H(p \<mapsto> r\<lparr>finalized := finalized r + 1\<rparr>))"
    by (rule tree_ok_update [OF assms]) (use tree_okD(2) [OF assms] in \<open>auto simp: links_def tables_ok_def\<close>)
  moreover have "same_links H (H(p \<mapsto> r\<lparr>finalized := finalized r + 1\<rparr>))"
    using assms(2) by (rule same_links_update) (simp add: evolves_def links_def)
  ultimately show ?thesis
    using assms(2) by (simp add: countSucc_def)
qed

text \<open>Edges of the heap from nodes of at least the level \<open>n\<close>.\<close>

definition edges_ok :: "(nat \<Rightarrow> nat) \<Rightarrow> heap \<Rightarrow> nat \<Rightarrow> (nat \<times> nat) list \<Rightarrow> bool" where
  "edges_ok lvl H n es \<longleftrightarrow> (\<forall>(p, s) \<in> set es. n \<le> lvl p \<and> (\<exists>r. H p = Some r \<and> s \<in> set (succ r)))"

lemma edges_ok_links: "edges_ok lvl H n es \<Longrightarrow> same_links H H' \<Longrightarrow> edges_ok lvl H' n es"
  unfolding edges_ok_def by (fastforce dest: same_linksD simp: links_def evolves_def)

text \<open>The edges of the tree, and the leaves below a node.\<close>

definition treeEdges :: "heap \<Rightarrow> (nat \<times> nat) set" where
  "treeEdges H = {(p, s). \<exists>r. H p = Some r \<and> s \<in> set (succ r)}"

lemma treeEdges_links: "same_links H H' \<Longrightarrow> treeEdges H' = treeEdges H"
  unfolding treeEdges_def by (fastforce dest: same_linksD same_linksD2 simp: evolves_def links_def)

definition leaf :: "heap \<Rightarrow> nat \<Rightarrow> bool" where
  "leaf H q \<longleftrightarrow> (\<exists>r. H q = Some r \<and> succ r = [])"

lemma leaf_links: "same_links H H' \<Longrightarrow> leaf H' q = leaf H q"
  unfolding leaf_def by (fastforce dest: same_linksD same_linksD2 simp: evolves_def links_def)

definition leavesRecorded :: "(apint \<Rightarrow> 32 word) \<Rightarrow> heap \<Rightarrow> heap \<Rightarrow> nat \<Rightarrow> bool" where
  "leavesRecorded hv H H' s \<longleftrightarrow> (\<forall>q. (s, q) \<in> (treeEdges H)\<^sup>* \<longrightarrow> leaf H q \<longrightarrow> recorded hv H' q)"

lemma leavesRecorded_evolves:
  "leavesRecorded hv H H1 s \<Longrightarrow> same_links H1 H2 \<Longrightarrow> leavesRecorded hv H H2 s"
  unfolding leavesRecorded_def using recorded_evolves by blast

lemma leavesRecorded_links: "same_links H0 H \<Longrightarrow> leavesRecorded hv H H' s = leavesRecorded hv H0 H' s"
  by (simp add: leavesRecorded_def treeEdges_links leaf_links)

lemma propagateEdges_total:
  "tree_ok lvl N H \<Longrightarrow> edges_ok lvl H n es \<Longrightarrow> n \<le> N \<Longrightarrow>
   \<exists>H'. propagateEdges hv H es = Some H' \<and> tree_ok lvl N H' \<and> same_links H H' \<and>
     (\<forall>(p, s) \<in> set es. leavesRecorded hv H H' s)"
proof (induction "N - n" arbitrary: n es H rule: less_induct)
  case outer: less
  from outer.prems(1,2) show ?case
  proof (induction es arbitrary: H)
    case Nil
    then show ?case
      by (subst propagateEdges.simps) simp
  next
    case (Cons e es)
    obtain p s where e: "e = (p, s)"
      by fastforce
    with Cons.prems obtain r where r: "H p = Some r" "s \<in> set (succ r)" "n \<le> lvl p"
      by (auto simp: edges_ok_def)
    then obtain H0 where H0: "countSucc H p = Some H0" "tree_ok lvl N H0" "same_links H H0"
      using countSucc_ok Cons.prems(1) by blast
    then obtain rs where rs: "H0 s = Some rs" "lvl p < lvl s" "lvl s < N"
      using tree_okD(4) [OF Cons.prems(1) r(1,2)] same_linksD tree_okD(1) by (metis not_None_eq)
    have "edges_ok lvl H0 (lvl s) (outEdges s rs)"
      using rs(1) by (auto simp: edges_ok_def outEdges_def)
    moreover have "N - lvl s < N - n" "lvl s \<le> N"
      using rs(2,3) r(3) by auto
    ultimately obtain H1 where H1: "propagateEdges hv H0 (outEdges s rs) = Some H1" "tree_ok lvl N H1" "same_links H0 H1"
      "\<forall>(p, s) \<in> set (outEdges s rs). leavesRecorded hv H0 H1 s"
      using outer.hyps [of "lvl s" H0 "outEdges s rs"] H0(2) by blast
    obtain H2 where H2: "(if succ rs = [] then climb hv H1 s else Some H1) = Some H2" "tree_ok lvl N H2" "same_links H1 H2"
      "succ rs = [] \<longrightarrow> recorded hv H2 s"
      using climb_total [OF H1(2), of s hv] same_linksD [OF H1(3) rs(1)] H1(2) by (cases "succ rs = []") auto
    have below: "leavesRecorded hv H0 H2 s"
      unfolding leavesRecorded_def
    proof (intro allI impI)
      fix q assume q: "(s, q) \<in> (treeEdges H0)\<^sup>*" "leaf H0 q"
      show "recorded hv H2 q"
      proof (cases "q = s")
        case True
        with q(2) rs(1) H2(4) show ?thesis
          by (auto simp: leaf_def)
      next
        case False
        with q(1) obtain s' where s': "(s, s') \<in> treeEdges H0" "(s', q) \<in> (treeEdges H0)\<^sup>*"
          by (metis converse_rtranclE)
        then have "(s, s') \<in> set (outEdges s rs)"
          using rs(1) by (auto simp: treeEdges_def outEdges_def)
        then have "leavesRecorded hv H0 H1 s'"
          using H1(4) by blast
        then have "recorded hv H1 q"
          using s'(2) q(2) by (simp add: leavesRecorded_def)
        then show ?thesis
          using H2(3) recorded_evolves by blast
      qed
    qed
    have links: "same_links H H2"
      by (rule same_links_trans [OF same_links_trans [OF H0(3) H1(3)] H2(3)])
    have "edges_ok lvl H n es"
      using Cons.prems(2) by (simp add: edges_ok_def)
    then have "edges_ok lvl H2 n es"
      using links by (rule edges_ok_links)
    then obtain H' where H': "propagateEdges hv H2 es = Some H'" "tree_ok lvl N H'" "same_links H2 H'"
      "\<forall>(p, s) \<in> set es. leavesRecorded hv H2 H' s"
      using Cons.IH [OF H2(2)] by blast
    moreover have "propagateEdges hv H (e # es) = propagateEdges hv H2 es"
      using H2(1) by (subst propagateEdges.simps) (simp add: e H0(1) rs(1) H1(1) split: if_splits)
    moreover have "same_links H H'"
      using links H'(3) by (rule same_links_trans)
    moreover have "leavesRecorded hv H H' s"
      using leavesRecorded_evolves [OF below H'(3)] leavesRecorded_links [OF H0(3)] by blast
    moreover have "\<forall>(p, s) \<in> set es. leavesRecorded hv H H' s"
      using H'(4) leavesRecorded_links [OF links] by blast
    ultimately show ?case
      by (auto simp: e)
  qed
qed

lemma propagate_total:
  assumes "tree_ok lvl N H" "H p \<noteq> None"
  shows "\<exists>H'. propagate hv H p = Some H' \<and> tree_ok lvl N H' \<and> same_links H H' \<and> leavesRecorded hv H H' p"
proof -
  obtain r where r: "H p = Some r"
    using assms(2) by blast
  have "edges_ok lvl H (lvl p) (outEdges p r)" "lvl p \<le> N"
    using r tree_okD(1) [OF assms(1) r] by (auto simp: edges_ok_def outEdges_def)
  then obtain H1 where H1: "propagateEdges hv H (outEdges p r) = Some H1" "tree_ok lvl N H1" "same_links H H1"
    "\<forall>(p, s) \<in> set (outEdges p r). leavesRecorded hv H H1 s"
    using propagateEdges_total [OF assms(1)] by blast
  show ?thesis
  proof (cases "succ r = []")
    case True
    then obtain H' where H': "climb hv H1 p = Some H'" "tree_ok lvl N H'" "same_links H1 H'" "recorded hv H' p"
      using climb_total [OF H1(2), of p] same_linksD [OF H1(3) r] by blast
    have "(p, q) \<in> (treeEdges H)\<^sup>* \<Longrightarrow> q = p" for q
      using r True by (auto simp: treeEdges_def elim: converse_rtranclE)
    with H'(4) have "leavesRecorded hv H H' p"
      unfolding leavesRecorded_def by blast
    with H' r True H1 show ?thesis
      using same_links_trans by (auto simp: propagate_def)
  next
    case False
    have "leavesRecorded hv H H1 p"
      unfolding leavesRecorded_def
    proof (intro allI impI)
      fix q assume q: "(p, q) \<in> (treeEdges H)\<^sup>*" "leaf H q"
      with r False have "q \<noteq> p"
        by (auto simp: leaf_def)
      with q(1) obtain s where s: "(p, s) \<in> treeEdges H" "(s, q) \<in> (treeEdges H)\<^sup>*"
        by (metis converse_rtranclE)
      then have "(p, s) \<in> set (outEdges p r)"
        using r by (auto simp: treeEdges_def outEdges_def)
      then show "recorded hv H1 q"
        using H1(4) s(2) q(2) unfolding leavesRecorded_def by blast
    qed
    with H1 r False show ?thesis
      by (simp add: propagate_def)
  qed
qed

section \<open>Properties\<close>

text \<open>A secret dependent branch with two paths, for the examples.\<close>

definition example_path :: "expr \<Rightarrow> int \<Rightarrow> rd" where
  "example_path h c = (fst (newNode 0 0))\<lparr>HA := Some 0, HAset := True, HC := h, ru := c, bbs := [nat c], pathterminated := True\<rparr>"

definition example_tree :: "expr \<Rightarrow> expr \<Rightarrow> int \<Rightarrow> int \<Rightarrow> heap" where
  "example_tree h1 h2 c1 c2 =
     [0 \<mapsto> (fst (newNode 0 0))\<lparr>isHBr := True, succ := [1, 2]\<rparr>, 1 \<mapsto> example_path h1 c1, 2 \<mapsto> example_path h2 c2]"

lemma example_tree_ok: "tree_ok (\<lambda>p. if p = 0 then 0 else 1) 2 (example_tree h1 h2 c1 c2)"
  by (auto simp: tree_ok_def example_tree_def example_path_def newNode_def tables_ok_def split: if_splits)



text \<open>
  the first path recorded under a pair of hash values decides the cost: a second path under the
  same pair, which the code means to widen the range, does not change it, because
  \<open>std::map::insert\<close> keeps the old entry. Its number of terminated paths and its blocks are counted.
\<close>

theorem first_cost_stays:
  assumes "getHash hv (HC r1) (LC r1) = k" "getHash hv (HC r2) (LC r2) = k" "map_of (Ru a) k = None"
    and "0 \<le> ru r1" "ru r1 < 2 ^ 31"
  shows "map_of (Ru (recordPath hv p2 r2 (recordPath hv p1 r1 a))) k = Some (ru r1, ru r1)"
  using assms
  by (simp add: recordPath_def Let_def map_at_def combineRange_def noRange_def)

theorem first_cost_stays_witness:
  "map_of (Ru (recordPath (\<lambda>_. 0) 2 (example_path expr_true 500)
     (recordPath (\<lambda>_. 0) 1 (example_path expr_true 5) (fst (newNode 0 0)))))
     (getHash (\<lambda>_. 0) expr_true expr_true) = Some (5, 5)"
  using first_cost_stays [of "\<lambda>_. 0" "example_path expr_true 5" "getHash (\<lambda>_. 0) expr_true expr_true"
      "example_path expr_true 500" "fst (newNode 0 0)" 2 1]
  by (simp add: example_path_def newNode_def)

text \<open>
  when the paths of a branch are handed on to the next H-ancestor, the second path is recorded
  there with the basic blocks of the first path too: the set of blocks is not emptied between them.
\<close>

theorem blocks_accumulate:
  assumes "recordBranch hv R [(k1, R1), (k2, R2)] [] r a = Some (r', a')"
    and "map_of (HE r) k1 = Some (h1, l1)" "map_of (HE r) k2 = Some (h2, l2)"
    and "eh1 = getHash hv (And_create (HC r) h1) (And_create (LC r) l1)"
    and "eh2 = getHash hv (And_create (HC r) h2) (And_create (LC r) l2)"
    and "eh1 \<noteq> eh2" "map_of (bbm a) eh1 = None" "map_of (bbm a) eh2 = None"
  shows "set (map_at [] (bbm a') eh1) = set (map_at [] (bbm r) k1) \<and>
    set (map_at [] (bbm a') eh2) = set (map_at [] (bbm r) k1) \<union> set (map_at [] (bbm r) k2)"
  using assms by (auto simp: Let_def map_at_def split: bind_splits)

definition example_branch :: rd where
  "example_branch = (fst (newNode 0 0))\<lparr>isHBr := True, Ru := [((0, 0), (1, 1)), ((1, 0), (2, 2))],
     HE := [((0, 0), (expr_true, expr_true)), ((1, 0), (NotOptimizedExpr expr_true, expr_true))],
     bbm := [((0, 0), [7]), ((1, 0), [8])]\<rparr>"

lemma example_fields [simp]:
  "Ru example_branch = [((0, 0), (1, 1)), ((1, 0), (2, 2))]" "HC example_branch = expr_true" "LC example_branch = expr_true"
  "map_of (HE example_branch) (0, 0) = Some (expr_true, expr_true)"
  "map_of (HE example_branch) (1, 0) = Some (NotOptimizedExpr expr_true, expr_true)"
  "map_at [] (bbm example_branch) (0, 0) = [7]" "map_at [] (bbm example_branch) (1, 0) = [8]"
  "bbm (fst (newNode i n)) = []"
  by (simp_all add: example_branch_def newNode_def map_at_def)

theorem blocks_accumulate_witness:
  "\<exists>r' a' eh1 eh2. recordBranch (\<lambda>_. 0) (0, 0) (Ru example_branch) [] example_branch (fst (newNode 0 0)) = Some (r', a') \<and>
     set (map_at [] (bbm a') eh1) = {7} \<and> set (map_at [] (bbm a') eh2) = {7, 8}"
proof -
  let ?hv = "\<lambda>_. 0"
  let ?eh1 = "getHash ?hv (And_create expr_true expr_true) (And_create expr_true expr_true)"
  let ?eh2 = "getHash ?hv (And_create expr_true (NotOptimizedExpr expr_true)) (And_create expr_true expr_true)"
  have keys: "?eh1 \<noteq> ?eh2"
    by (simp add: getHash_def expr_true_def And_create_def BCREATE_R_def AndExpr_createPartialR_def AndExpr_createPartial_def
        ce_And_def ce_isAllOnes_def computeHash_def MAGIC_HASH_CONSTANT_def)
  have "k \<in> dom (map_of (HE example_branch)) \<and> k \<in> dom (map_of (bbm example_branch))"
    if "k \<in> fst ` set (Ru example_branch)" for k
    using that by (auto simp: example_branch_def)
  moreover have "tables_ok (fst (newNode 0 0))"
    by (simp add: tables_ok_def newNode_def)
  ultimately obtain r' a'
    where rb: "recordBranch ?hv (0, 0) (Ru example_branch) [] example_branch (fst (newNode 0 0)) = Some (r', a')"
    using recordBranch_ok [of "fst (newNode 0 0)" "Ru example_branch" example_branch ?hv "(0, 0)" "[]"] by blast
  have "set (map_at [] (bbm a') ?eh1) = {7}" "set (map_at [] (bbm a') ?eh2) = {7, 8}"
    using blocks_accumulate [of ?hv "(0, 0)" "(0, 0)" "(1, 1)" "(1, 0)" "(2, 2)" example_branch "fst (newNode 0 0)" r' a'
        expr_true expr_true "NotOptimizedExpr expr_true" expr_true ?eh1 ?eh2, OF rb [unfolded example_fields(1)] _ _ _ _ keys]
    by (simp_all add: insert_commute)
  with rb show ?thesis
    by blast
qed

end
