(* ===== verification/Leakage.thy ===== *)
theory Leakage
  imports ResourceTree
begin

text \<open>
  The search for side channels in the resource tree after propagation (\<open>printLeakage\<close>,
  \<open>checkLeakage\<close>, \<open>updatesource\<close>, \<open>isTrue\<close> in \<open>lib/Core/ResourceUsage.cpp\<close> and
  \<open>timeSideChannelAnalysis\<close> in \<open>lib/Core/Executor.cpp\<close>). What the code prints is collected as a list
  of reports. The solver is the parameter \<open>mbt\<close>, \<open>mayBeTrue\<close> under no constraints, with \<open>None\<close> for a
  failure, on which the code exits.
\<close>

section \<open>Reports\<close>

record timing =
  t_node :: nat
  t_keys :: "exhash \<times> exhash"
  t_diff :: int
  t_observed :: "(int \<times> nat list) option"
  t_terminated :: "(int \<times> nat \<times> nat) option"

datatype report =
    TimingLeak timing
  | CacheLeak nat "nat list" rat

type_synonym source = "((exhash \<times> exhash) \<times> nat) list"

definition updatesource :: "exhash \<Rightarrow> exhash \<Rightarrow> nat \<Rightarrow> source \<Rightarrow> source option" where
  "updatesource k1 k2 p sv =
     (if map_of sv (k1, k2) \<noteq> None \<or> map_of sv (k2, k1) \<noteq> None then None
      else Some (map_insert (k2, k1) p (map_insert (k1, k2) p sv)))"

section \<open>Costs\<close>

text \<open>
  The difference of two ranges. The second comparison is that of \<open>R1.first\<close> with itself, as in the
  code.
\<close>

definition costDiff :: "range \<Rightarrow> range \<Rightarrow> int" where
  "costDiff R1 R2 =
     (let dc1 = (if snd R1 > snd R2 then i32 (snd R1 - snd R2) else i32 (snd R2 - snd R1));
          dc2 = (if fst R1 > fst R1 then i32 (fst R1 - fst R2) else i32 (fst R2 - fst R1))
      in if dc1 > dc2 then dc1 else dc2)"

definition absDiff :: "int \<Rightarrow> int \<Rightarrow> int" where
  "absDiff x y = (if x > y then x - y else y - x)"

text \<open>
  The pairs of timing observation points of two paths at one location, with the largest difference
  and the points of the first path that have it.
\<close>

definition observedDiff :: "rd list \<Rightarrow> rd list \<Rightarrow> (nat \<Rightarrow> nat) \<Rightarrow> (int \<times> nat list) option" where
  "observedDiff rs1 rs2 ptr =
     (if list_ex timingObservationPoint rs1 \<and> list_ex timingObservationPoint rs2 then
        (let diffmap =
           fold (\<lambda>i m. fold (\<lambda>r2 m.
             let r1 = rs1 ! i
             in if timingObservationPoint r1 \<and> timingObservationPoint r2 \<and> topsLoc r1 = topsLoc r2
                then (let d = absDiff (ru r1) (ru r2) in map_assign d (set_insert (ptr i) (map_at [] m d)) m)
                else m) rs2 m) [0 ..< length rs1] [];
             mx = fold (\<lambda>(d, _) mx. if d > mx then d else mx) diffmap 0
         in map_option (Pair mx) (map_of diffmap mx))
      else None)"

text \<open>The two leaves of terminated paths with the largest difference.\<close>

definition terminatedDiff :: "(nat \<times> rd) list \<Rightarrow> (nat \<times> rd) list \<Rightarrow> (int \<times> nat \<times> nat) option" where
  "terminatedDiff rs1 rs2 =
     (if list_ex (pathterminated \<circ> snd) rs1 \<and> list_ex (pathterminated \<circ> snd) rs2 then
        fold (\<lambda>(p1, r1). fold (\<lambda>(p2, r2) best.
          if pathterminated r1 \<and> pathterminated r2 \<and> \<not> timingObservationPoint r1 \<and> \<not> timingObservationPoint r2 \<and>
             absDiff (ru r1) (ru r2) > (case best of Some (mx, _) \<Rightarrow> mx | None \<Rightarrow> 0)
          then Some (absDiff (ru r1) (ru r2), p1, p2) else best) rs2) rs1 None
      else None)"

section \<open>Pairs of paths\<close>

definition deref :: "heap \<Rightarrow> nat list \<Rightarrow> rd list option" where
  "deref H ps = opt_list (map H ps)"

text \<open>Whether the secrets may differ and the public inputs may agree.\<close>

definition secretsDiffer :: "bool \<Rightarrow> (expr \<Rightarrow> bool option) \<Rightarrow> expr \<Rightarrow> expr \<Rightarrow> bool option" where
  "secretsDiffer co mbt h1 h2 =
     do {
       b \<leftarrow> mbt (And_create h1 (createIsZero co h2));
       (if b then Some True else mbt (And_create h2 (createIsZero co h1)))
     }"

definition cacheReport :: "llvmModule \<Rightarrow> options \<Rightarrow> rd \<Rightarrow> nat \<Rightarrow> nat list \<Rightarrow> nat list \<Rightarrow> report list option" where
  "cacheReport M opts r p diff b =
     do {
       leak \<leftarrow> checkCacheLeakage M opts (rd_i r) diff b;
       Some (case leak of None \<Rightarrow> [] | Some (blocks, accuracy) \<Rightarrow> [CacheLeak p blocks accuracy])
     }"

record analysis =
  an_co :: bool
  an_solver :: "expr \<Rightarrow> bool option"
  an_module :: llvmModule
  an_options :: options

text \<open>
  One round of the inner loop of \<open>printLeakage\<close> for the paths \<open>k1\<close> and \<open>k2\<close> recorded at the node \<open>p\<close>.
\<close>

definition printPair ::
  "analysis \<Rightarrow> heap \<Rightarrow> nat \<Rightarrow> rd \<Rightarrow> exhash \<Rightarrow> exhash \<Rightarrow> source \<times> report list \<Rightarrow> (source \<times> report list) option" where
  "printPair A H p r k1 k2 st =
     do {
       let (sv, out) = st;
       (h1, l1) \<leftarrow> map_of (HE r) k1;
       (h2, l2) \<leftarrow> map_of (HE r) k2;
       (if map_of sv (k1, k2) \<noteq> None \<or> map_of sv (k2, k1) \<noteq> None then Some st
        else do {
          R1 \<leftarrow> map_of (Ru r) k1;
          R2 \<leftarrow> map_of (Ru r) k2;
          differ \<leftarrow> secretsDiffer (an_co A) (an_solver A) h1 h2;
          (if \<not> differ then Some st
           else do {
             agree \<leftarrow> an_solver A (And_create l1 l2);
             (if \<not> agree then Some st
              else do {
                bs1 \<leftarrow> map_of (bbm r) k1;
                bs2 \<leftarrow> map_of (bbm r) k2;
                let ds1 = set_diff bs1 bs2;
                let ds2 = set_diff bs2 bs1;
                c1 \<leftarrow> cacheReport (an_module A) (an_options A) r p ds1 bs2;
                c2 \<leftarrow> cacheReport (an_module A) (an_options A) r p ds2 bs1;
                (if map_at 0 (terminated r) k1 > 0 \<and> map_at 0 (terminated r) k2 > 0 \<and> costDiff R1 R2 > 0 then
                   do {
                     let p1 = map_at [] (RDSet r) k1;
                     let p2 = map_at [] (RDSet r) k2;
                     rs1 \<leftarrow> deref H p1;
                     rs2 \<leftarrow> deref H p2;
                     sv' \<leftarrow> updatesource k1 k2 p sv;
                     Some (sv', out @ c1 @ c2 @
                       [TimingLeak \<lparr>t_node = p, t_keys = (k1, k2), t_diff = costDiff R1 R2,
                          t_observed = observedDiff rs1 rs2 (\<lambda>i. p1 ! i),
                          t_terminated = terminatedDiff (zip p1 rs1) (zip p2 rs2)\<rparr>])
                   }
                 else Some (sv, out @ c1 @ c2))
              })
           })
        })
     }"

fun printPairs ::
  "analysis \<Rightarrow> heap \<Rightarrow> nat \<Rightarrow> rd \<Rightarrow> exhash \<Rightarrow> exhash list \<Rightarrow> source \<times> report list \<Rightarrow> (source \<times> report list) option" where
  "printPairs A H p r k1 [] st = Some st"
| "printPairs A H p r k1 (k2 # ks) st = do { st' \<leftarrow> printPair A H p r k1 k2 st; printPairs A H p r k1 ks st' }"

fun printKeys ::
  "analysis \<Rightarrow> heap \<Rightarrow> nat \<Rightarrow> rd \<Rightarrow> exhash list \<Rightarrow> source \<times> report list \<Rightarrow> (source \<times> report list) option" where
  "printKeys A H p r [] st = Some st"
| "printKeys A H p r (k1 # ks) st =
     do {
       hl \<leftarrow> map_of (HE r) k1;
       blocks \<leftarrow> map_of (bbm r) k1;
       st' \<leftarrow> printPairs A H p r k1 ks st;
       printKeys A H p r ks st'
     }"

definition printLeakage ::
  "analysis \<Rightarrow> heap \<Rightarrow> nat \<Rightarrow> rd \<Rightarrow> source \<times> report list \<Rightarrow> (source \<times> report list) option" where
  "printLeakage A H p r st = printKeys A H p r (map fst (Ru r)) st"

section \<open>The whole tree\<close>

text \<open>The nodes below \<open>ps\<close>, children first, in the order in which \<open>checkLeakage\<close> gets to them.\<close>

partial_function (option) postorder :: "heap \<Rightarrow> nat list \<Rightarrow> nat list option" where
  "postorder H ps =
     (case ps of
        [] \<Rightarrow> Some []
      | p # rest \<Rightarrow>
          Option.bind (H p) (\<lambda>r.
          Option.bind (postorder H (succ r)) (\<lambda>below.
          Option.bind (postorder H rest) (\<lambda>others.
          Some (below @ p # others)))))"

fun checkNodes :: "analysis \<Rightarrow> heap \<Rightarrow> nat list \<Rightarrow> source \<times> report list \<Rightarrow> (source \<times> report list) option" where
  "checkNodes A H [] st = Some st"
| "checkNodes A H (p # ps) st =
     do {
       r \<leftarrow> H p;
       st' \<leftarrow> (if length (Ru r) > 1 then printLeakage A H p r st else Some st);
       checkNodes A H ps st'
     }"

definition checkLeakage :: "analysis \<Rightarrow> heap \<Rightarrow> nat \<Rightarrow> source \<times> report list \<Rightarrow> (source \<times> report list) option" where
  "checkLeakage A H p st = do { ps \<leftarrow> postorder H [p]; checkNodes A H ps st }"

fun analyseRoots ::
  "(apint \<Rightarrow> 32 word) \<Rightarrow> analysis \<Rightarrow> nat list \<Rightarrow> heap \<times> source \<times> report list \<Rightarrow> (heap \<times> source \<times> report list) option" where
  "analyseRoots hv A [] (H, st) = Some (H, st)"
| "analyseRoots hv A (rroot # roots) (H, st) =
     do { H' \<leftarrow> propagate hv H rroot; st' \<leftarrow> checkLeakage A H' rroot st; analyseRoots hv A roots (H', st') }"

section \<open>What is reported\<close>

text \<open>A solver that answers correctly, and line tables whose ranges stay below the last address.\<close>

definition below_last :: "(nat \<times> nat) list \<Rightarrow> bool" where
  "below_last rs \<longleftrightarrow> list_all (\<lambda>r. snd r < 2 ^ 32 - 1) rs"

definition exact :: "analysis \<Rightarrow> bool" where
  "exact A \<longleftrightarrow> \<not> an_co A \<and>
     (\<forall>c. wfe c \<longrightarrow> getWidth c = 1 \<longrightarrow> an_solver A c = Some (\<exists>env. eval c env = 1)) \<and>
     (\<forall>f l rs. lookupAddressRangeNoFile (an_module A) f l = Some rs \<longrightarrow> below_last rs)"

text \<open>
  A node whose tables agree, whose conditions are Booleans, and whose recorded paths are nodes.
\<close>

definition node_ok :: "heap \<Rightarrow> rd \<Rightarrow> bool" where
  "node_ok H r \<longleftrightarrow> tables_ok r \<and> distinct (map fst (Ru r)) \<and>
     (\<forall>k h l. map_of (HE r) k = Some (h, l) \<longrightarrow> wfe h \<and> getWidth h = 1 \<and> wfe l \<and> getWidth l = 1) \<and>
     (\<forall>k. \<forall>q \<in> set (map_at [] (RDSet r) k). H q \<noteq> None)"

definition fresh :: "source \<Rightarrow> exhash \<Rightarrow> exhash \<Rightarrow> bool" where
  "fresh sv k1 k2 \<longleftrightarrow> map_of sv (k1, k2) = None \<and> map_of sv (k2, k1) = None"

text \<open>
  A timing side channel between two recorded paths: the secret conditions differ under some
  assignment, the public ones hold together under some assignment, both paths have terminated, and
  the costs differ.
\<close>

definition leaks :: "rd \<Rightarrow> exhash \<Rightarrow> exhash \<Rightarrow> bool" where
  "leaks r k1 k2 \<longleftrightarrow> (\<exists>h1 l1 h2 l2 R1 R2.
     map_of (HE r) k1 = Some (h1, l1) \<and> map_of (HE r) k2 = Some (h2, l2) \<and>
     map_of (Ru r) k1 = Some R1 \<and> map_of (Ru r) k2 = Some R2 \<and>
     (\<exists>env. eval h1 env \<noteq> eval h2 env) \<and> (\<exists>env. eval l1 env = 1 \<and> eval l2 env = 1) \<and>
     0 < map_at 0 (terminated r) k1 \<and> 0 < map_at 0 (terminated r) k2 \<and> 0 < costDiff R1 R2)"

definition timings :: "report list \<Rightarrow> (exhash \<times> exhash) set" where
  "timings out = {t_keys t |t. TimingLeak t \<in> set out}"

lemma timings_append [simp]:
  "timings [] = {}" "timings (xs @ ys) = timings xs \<union> timings ys" "timings [TimingLeak t] = {t_keys t}"
  by (auto simp: timings_def)

lemma And_create_Bool:
  assumes "wfe p" "getWidth p = 1" "wfe q" "getWidth q = 1"
  shows "wfe (And_create p q)" "getWidth (And_create p q) = 1"
    "eval (And_create p q) env = 1 \<longleftrightarrow> eval p env = 1 \<and> eval q env = 1"
  using eqvD [OF And_create_ok, of p q] assms eval_Bool [of p env] eval_Bool [of q env] by auto

lemma createIsZero_Bool:
  assumes "wfe p" "getWidth p = 1"
  shows "wfe (createIsZero False p)" "getWidth (createIsZero False p) = 1"
    "eval (createIsZero False p) env = 1 \<longleftrightarrow> eval p env = 0"
  using eqvD [OF createIsZero_ok, of p] assms eval_Bool [of p env] by auto

lemma secretsDiffer_exact:
  assumes "exact A" "wfe h1" "getWidth h1 = 1" "wfe h2" "getWidth h2 = 1"
  shows "secretsDiffer (an_co A) (an_solver A) h1 h2 = Some (\<exists>env. eval h1 env \<noteq> eval h2 env)"
proof -
  have s: "wfe c \<Longrightarrow> getWidth c = 1 \<Longrightarrow> an_solver A c = Some (\<exists>env. eval c env = 1)" for c
    using assms(1) unfolding exact_def by blast
  have "an_co A = False"
    using assms(1) by (simp add: exact_def)
  moreover have "(\<exists>env. eval h1 env \<noteq> eval h2 env) \<longleftrightarrow>
      (\<exists>env. eval h1 env = 1 \<and> eval h2 env = 0) \<or> (\<exists>env. eval h2 env = 1 \<and> eval h1 env = 0)"
    using eval_Bool [OF assms(2)] eval_Bool [OF assms(4)] assms(3,5) by (metis One_nat_def zero_neq_one)
  ultimately show ?thesis
    using assms(2-5) by (auto simp: secretsDiffer_def s And_create_Bool createIsZero_Bool)
qed

lemma fold_preserves: "(\<And>x acc. P acc \<Longrightarrow> P (f x acc)) \<Longrightarrow> P acc \<Longrightarrow> P (fold f xs acc)"
  by (induction xs arbitrary: acc) auto

lemma below_last_findSourceLocInfos:
  assumes "\<And>f l rs. lookupAddressRangeNoFile M f l = Some rs \<Longrightarrow> below_last rs" "below_last pset"
  shows "below_last (findSourceLocInfos M bb pset)"
proof -
  have "below_last (set_union acc rs)" if "below_last acc" "lookupAddressRangeNoFile M f l = Some rs" for acc rs f l
    using that(1) assms(1) [OF that(2)] by (auto simp: below_last_def list_all_iff)
  with assms(2) show ?thesis
    unfolding findSourceLocInfos_def by (intro fold_preserves [where P = below_last]) (auto split: option.split)
qed

lemma below_last_findVirtualAddresses:
  assumes "\<And>f l rs. lookupAddressRangeNoFile M f l = Some rs \<Longrightarrow> below_last rs"
  shows "below_last (findVirtualAddresses M bs [])"
  unfolding findVirtualAddresses_def
  by (rule fold_preserves [where P = below_last]) (rule below_last_findSourceLocInfos [OF assms], simp_all add: below_last_def)

lemma leakingBlocks_total:
  assumes "\<And>f l rs. lookupAddressRangeNoFile M f l = Some rs \<Longrightarrow> below_last rs"
  shows "leakingBlocks M opts branch b diff acc \<noteq> None"
proof (induction diff arbitrary: acc)
  case (Cons d diff)
  let ?aset = "findSourceLocInfos M d []" and ?bset = "findVirtualAddresses M (filterBlocks M opts branch d b) []"
  have "below_last ?aset" "below_last ?bset"
    using below_last_findSourceLocInfos [OF assms] below_last_findVirtualAddresses [OF assms]
    by (simp_all add: below_last_def)
  then have "countMissing opts ?aset ?bset 0 \<noteq> None"
    unfolding below_last_def by (rule countMissing_total)
  then have "checkCodeCacheSideChannel opts ?aset ?bset \<noteq> None"
    by (auto simp: checkCodeCacheSideChannel_def)
  with Cons show ?case
    by (cases acc) (auto simp: Let_def)
next
  case Nil
  then show ?case
    by (cases acc) simp
qed

lemma cacheReport_total:
  assumes "exact A"
  shows "\<exists>out. cacheReport (an_module A) (an_options A) r p diff b = Some out \<and> timings out = {}"
proof -
  have "checkCacheLeakage (an_module A) (an_options A) (rd_i r) diff b \<noteq> None"
    using leakingBlocks_total [of "an_module A" "an_options A" "rd_i r" b diff "([], 0)"] assms
    by (auto simp: checkCacheLeakage_def exact_def)
  then show ?thesis
    by (auto simp: cacheReport_def timings_def split: option.split)
qed

lemma deref_total: "(\<And>q. q \<in> set ps \<Longrightarrow> H q \<noteq> None) \<Longrightarrow> \<exists>rs. deref H ps = Some rs"
  unfolding deref_def by (induction ps) force+

lemma node_okD:
  assumes "node_ok H r" "k \<in> dom (map_of (Ru r))"
  obtains h l R bs where "map_of (HE r) k = Some (h, l)" "map_of (Ru r) k = Some R" "map_of (bbm r) k = Some bs"
    "wfe h" "getWidth h = 1" "wfe l" "getWidth l = 1"
proof -
  have "k \<in> dom (map_of (HE r))" "k \<in> dom (map_of (bbm r))"
    using assms by (auto simp: node_ok_def tables_ok_def)
  then obtain hl bs where 1: "map_of (HE r) k = Some hl" "map_of (bbm r) k = Some bs"
    by blast
  obtain h l where hl: "hl = (h, l)"
    by (cases hl)
  obtain R where R: "map_of (Ru r) k = Some R"
    using assms(2) by blast
  have "\<forall>k h l. map_of (HE r) k = Some (h, l) \<longrightarrow> wfe h \<and> getWidth h = 1 \<and> wfe l \<and> getWidth l = 1"
    using assms(1) by (simp add: node_ok_def)
  with 1 hl have "wfe h \<and> getWidth h = 1 \<and> wfe l \<and> getWidth l = 1"
    by blast
  with 1 hl R show thesis
    using that by blast
qed

lemma pair_neq: "{a, b} \<noteq> {x, y} \<Longrightarrow> (a, b) \<noteq> (x, y)" "{a, b} \<noteq> {x, y} \<Longrightarrow> (a, b) \<noteq> (y, x)"
  by auto

lemma map_of_insert_other:
  "c \<noteq> x \<Longrightarrow> c \<noteq> y \<Longrightarrow> map_of (map_insert y v (map_insert x w m)) c = map_of m c"
  by simp

text \<open>One round of the inner loop.\<close>

lemma printPair_ok:
  assumes A: "exact A" and r: "node_ok H r" and k: "k1 \<in> dom (map_of (Ru r))" "k2 \<in> dom (map_of (Ru r))"
  shows "\<exists>sv' out'. printPair A H p r k1 k2 (sv, out) = Some (sv', out') \<and>
    timings out' = timings out \<union> (if fresh sv k1 k2 \<and> leaks r k1 k2 then {(k1, k2)} else {}) \<and>
    (\<forall>a b. {a, b} \<noteq> {k1, k2} \<longrightarrow> map_of sv' (a, b) = map_of sv (a, b))"
proof -
  obtain h1 l1 R1 bs1 where e1: "map_of (HE r) k1 = Some (h1, l1)" "map_of (Ru r) k1 = Some R1" "map_of (bbm r) k1 = Some bs1"
    and w1: "wfe h1" "getWidth h1 = 1" "wfe l1" "getWidth l1 = 1"
    by (rule node_okD [OF r k(1)])
  obtain h2 l2 R2 bs2 where e2: "map_of (HE r) k2 = Some (h2, l2)" "map_of (Ru r) k2 = Some R2" "map_of (bbm r) k2 = Some bs2"
    and w2: "wfe h2" "getWidth h2 = 1" "wfe l2" "getWidth l2 = 1"
    by (rule node_okD [OF r k(2)])
  note e = e1 e2
  define d where "d \<longleftrightarrow> (\<exists>env. eval h1 env \<noteq> eval h2 env)"
  define a where "a \<longleftrightarrow> (\<exists>env. eval l1 env = 1 \<and> eval l2 env = 1)"
  have differ: "secretsDiffer (an_co A) (an_solver A) h1 h2 = Some d"
    unfolding d_def using secretsDiffer_exact A w1 w2 by blast
  have agree: "an_solver A (And_create l1 l2) = Some a"
    unfolding a_def using A w1 w2 And_create_Bool [of l1 l2] by (simp add: exact_def)
  obtain c1 where c1: "cacheReport (an_module A) (an_options A) r p (set_diff bs1 bs2) bs2 = Some c1" "timings c1 = {}"
    using cacheReport_total [OF A] by blast
  obtain c2 where c2: "cacheReport (an_module A) (an_options A) r p (set_diff bs2 bs1) bs1 = Some c2" "timings c2 = {}"
    using cacheReport_total [OF A] by blast
  have known: "\<forall>q \<in> set (map_at [] (RDSet r) k). H q \<noteq> None" for k
    using r unfolding node_ok_def by blast
  obtain rs1 where rs1: "deref H (map_at [] (RDSet r) k1) = Some rs1"
    using deref_total [of "map_at [] (RDSet r) k1" H] known by blast
  obtain rs2 where rs2: "deref H (map_at [] (RDSet r) k2) = Some rs2"
    using deref_total [of "map_at [] (RDSet r) k2" H] known by blast
  have leaks: "leaks r k1 k2 \<longleftrightarrow> d \<and> a \<and>
     0 < map_at 0 (terminated r) k1 \<and> 0 < map_at 0 (terminated r) k2 \<and> 0 < costDiff R1 R2"
    by (simp add: leaks_def e d_def a_def)
  show ?thesis
  proof (cases "fresh sv k1 k2")
    case False
    then have "printPair A H p r k1 k2 (sv, out) = Some (sv, out)"
      by (auto simp: printPair_def e fresh_def)
    with False show ?thesis
      by simp
  next
    case True
    then have sv: "map_of sv (k1, k2) = None" "map_of sv (k2, k1) = None"
      by (simp_all add: fresh_def)
    define sv' where "sv' = map_insert (k2, k1) p (map_insert (k1, k2) p sv)"
    have u: "updatesource k1 k2 p sv = Some sv'"
      by (simp add: updatesource_def sv sv'_def)
    have others: "\<forall>a b. {a, b} \<noteq> {k1, k2} \<longrightarrow> map_of sv' (a, b) = map_of sv (a, b)"
    proof (intro allI impI)
      fix a b
      assume "{a, b} \<noteq> {k1, k2}"
      then have "(a, b) \<noteq> (k1, k2)" "(a, b) \<noteq> (k2, k1)"
        by (rule pair_neq)+
      then show "map_of sv' (a, b) = map_of sv (a, b)"
        unfolding sv'_def by (rule map_of_insert_other)
    qed
    show ?thesis
      using True others
      by (simp add: printPair_def e sv u differ agree c1 c2 rs1 rs2 leaks Let_def)
  qed
qed

text \<open>The inner loop and the outer one: every two of the keys meet once, in their order.\<close>

fun pairs :: "'a list \<Rightarrow> ('a \<times> 'a) list" where
  "pairs [] = []"
| "pairs (x # xs) = map (Pair x) xs @ pairs xs"

lemma pairs_elements: "(a, b) \<in> set (pairs xs) \<Longrightarrow> a \<in> set xs \<and> b \<in> set xs"
  by (induction xs) auto

lemma printPairs_ok:
  assumes A: "exact A" and r: "node_ok H r" and k1: "k1 \<in> dom (map_of (Ru r))"
  shows "set ks \<subseteq> dom (map_of (Ru r)) \<Longrightarrow> distinct ks \<Longrightarrow> k1 \<notin> set ks \<Longrightarrow>
    \<exists>sv' out'. printPairs A H p r k1 ks (sv, out) = Some (sv', out') \<and>
      timings out' = timings out \<union> {(k1, k2) |k2. k2 \<in> set ks \<and> fresh sv k1 k2 \<and> leaks r k1 k2} \<and>
      (\<forall>a b. k1 \<notin> {a, b} \<longrightarrow> map_of sv' (a, b) = map_of sv (a, b))"
proof (induction ks arbitrary: sv out)
  case Nil
  then show ?case
    by simp
next
  case (Cons k2 ks)
  obtain sv1 out1 where 1: "printPair A H p r k1 k2 (sv, out) = Some (sv1, out1)"
    "timings out1 = timings out \<union> (if fresh sv k1 k2 \<and> leaks r k1 k2 then {(k1, k2)} else {})"
    and unchanged: "\<And>a b. {a, b} \<noteq> {k1, k2} \<Longrightarrow> map_of sv1 (a, b) = map_of sv (a, b)"
    using printPair_ok [OF A r k1, of k2 p sv out] Cons.prems(1) by auto
  obtain sv2 out2 where 2: "printPairs A H p r k1 ks (sv1, out1) = Some (sv2, out2)"
    "timings out2 = timings out1 \<union> {(k1, k2) |k2. k2 \<in> set ks \<and> fresh sv1 k1 k2 \<and> leaks r k1 k2}"
    "\<forall>a b. k1 \<notin> {a, b} \<longrightarrow> map_of sv2 (a, b) = map_of sv1 (a, b)"
    using Cons.IH [of sv1 out1] Cons.prems by auto
  have "fresh sv1 k1 k \<longleftrightarrow> fresh sv k1 k" if "k \<in> set ks" for k
  proof -
    have "{k1, k} \<noteq> {k1, k2}" "{k, k1} \<noteq> {k1, k2}"
      using that Cons.prems(2,3) by (auto simp: doubleton_eq_iff)
    then show ?thesis
      by (simp add: fresh_def unchanged)
  qed
  then have "{(k1, k2) |k2. k2 \<in> set ks \<and> fresh sv1 k1 k2 \<and> leaks r k1 k2} =
      {(k1, k2) |k2. k2 \<in> set ks \<and> fresh sv k1 k2 \<and> leaks r k1 k2}"
    by blast
  then have "timings out2 = timings out \<union> {(k1, k) |k. k \<in> set (k2 # ks) \<and> fresh sv k1 k \<and> leaks r k1 k}"
    unfolding 2(2) 1(2) by auto
  moreover have "\<forall>a b. k1 \<notin> {a, b} \<longrightarrow> map_of sv2 (a, b) = map_of sv (a, b)"
  proof (intro allI impI)
    fix a b
    assume "k1 \<notin> {a, b}"
    then have "{a, b} \<noteq> {k1, k2}" and "map_of sv2 (a, b) = map_of sv1 (a, b)"
      using 2(3) by blast+
    then show "map_of sv2 (a, b) = map_of sv (a, b)"
      using unchanged by metis
  qed
  ultimately show ?case
    using 1(1) 2(1) by simp
qed

lemma printKeys_ok:
  assumes A: "exact A" and r: "node_ok H r"
  shows "set ks \<subseteq> dom (map_of (Ru r)) \<Longrightarrow> distinct ks \<Longrightarrow>
    \<exists>sv' out'. printKeys A H p r ks (sv, out) = Some (sv', out') \<and>
      timings out' = timings out \<union> {(k1, k2) \<in> set (pairs ks). fresh sv k1 k2 \<and> leaks r k1 k2}"
proof (induction ks arbitrary: sv out)
  case Nil
  then show ?case
    by simp
next
  case (Cons k1 ks)
  from Cons.prems have k1: "k1 \<in> dom (map_of (Ru r))"
    by simp
  obtain h l R bs where e: "map_of (HE r) k1 = Some (h, l)" "map_of (bbm r) k1 = Some bs"
    by (rule node_okD [OF r k1])
  obtain sv1 out1 where 1: "printPairs A H p r k1 ks (sv, out) = Some (sv1, out1)"
    "timings out1 = timings out \<union> {(k1, k2) |k2. k2 \<in> set ks \<and> fresh sv k1 k2 \<and> leaks r k1 k2}"
    and unchanged: "\<And>a b. k1 \<notin> {a, b} \<Longrightarrow> map_of sv1 (a, b) = map_of sv (a, b)"
    using printPairs_ok [OF A r k1, of ks p sv out] Cons.prems by auto
  obtain sv2 out2 where 2: "printKeys A H p r ks (sv1, out1) = Some (sv2, out2)"
    "timings out2 = timings out1 \<union> {(k1, k2) \<in> set (pairs ks). fresh sv1 k1 k2 \<and> leaks r k1 k2}"
    using Cons.IH [of sv1 out1] Cons.prems by auto
  have "fresh sv1 a b \<longleftrightarrow> fresh sv a b" if "(a, b) \<in> set (pairs ks)" for a b
  proof -
    have "k1 \<notin> {a, b}" "k1 \<notin> {b, a}"
      using pairs_elements [OF that] Cons.prems(2) by auto
    from unchanged [OF this(1)] unchanged [OF this(2)] show ?thesis
      by (simp only: fresh_def)
  qed
  then have "timings out2 = timings out \<union> {(a, b) \<in> set (pairs (k1 # ks)). fresh sv a b \<and> leaks r a b}"
    unfolding 2(2) 1(2) by auto
  then show ?case
    using 1(1) 2(1) e by simp
qed


text \<open>
  An example: one bit of a secret decides between a path that costs 3 and one that costs 8, under no
  public condition, with a solver that knows every assignment and without debug information.
\<close>

definition example_secret :: expr where
  "example_secret = ReadExpr \<lparr>arr_ptr = 1, arr_name = ''s'', arr_size = 1, arr_domain = 32, arr_range = 1, constantValues = []\<rparr> UNil
     (ConstantExpr (ce_alloc 0 32))"

definition example_analysis :: analysis where
  "example_analysis =
     \<lparr>an_co = False, an_solver = (\<lambda>c. Some (\<exists>env. eval c env = 1)),
      an_module = \<lparr>insts = (\<lambda>_. []), successors = (\<lambda>_. []), predecessors = (\<lambda>_. []), parent = (\<lambda>_. 0),
        isIdenticalTo = (\<lambda>_ _. False), debugLine = (\<lambda>_. None), functionName = (\<lambda>_. []),
        lookupAddressRangeNoFile = (\<lambda>_ _. None)\<rparr>,
      an_options = \<lparr>cacheLineMode = True, cacheBitmaskMode = False, cacheLineBits = 6, cacheBitmask = 0,
        BasicBlockDist = 0, PeerBasicBlocks = False\<rparr>\<rparr>"

definition example_node :: rd where
  "example_node = (fst (newNode 0 0))\<lparr>isHBr := True, Ru := [((0, 0), (3, 3)), ((1, 0), (8, 8))],
     HE := [((0, 0), (example_secret, expr_true)), ((1, 0), (NotExpr example_secret, expr_true))],
     bbm := [((0, 0), [7]), ((1, 0), [8])], terminated := [((0, 0), 1), ((1, 0), 1)]\<rparr>"

lemma example_analysis_exact: "exact example_analysis"
  by (simp add: exact_def example_analysis_def)

lemma example_node_ok: "node_ok (\<lambda>_. None) example_node"
  by (auto simp: node_ok_def example_node_def newNode_def tables_ok_def example_secret_def expr_true_def array_ok_def
      isSymbolicArray_def map_at_def split: if_splits)

lemma example_leaks: "leaks example_node (0, 0) (1, 0)"
proof -
  have "eval example_secret env \<noteq> eval (NotExpr example_secret) env" for env
  proof -
    have "wfe example_secret" "getWidth example_secret = 1"
      by (simp_all add: example_secret_def array_ok_def isSymbolicArray_def)
    then show ?thesis
      using eval_Bool [of example_secret env] by auto
  qed
  then show ?thesis
    by (simp add: leaks_def example_node_def newNode_def map_at_def costDiff_def i32_id expr_true_def)
qed


text \<open>
  the cost of two paths that each have one cost is their distance, so \<open>printLeakage\<close> sees every
  difference between the leaves of a branch. Between two ranges the comparison of \<open>R1.first\<close> with
  itself takes the difference of the lower bounds in one direction only: it is the larger of the
  distance of the upper bounds and the signed difference of the lower ones.
\<close>

theorem cost_difference:
  assumes "0 \<le> n" "n \<le> a" "a < 2 ^ 31" "0 \<le> m" "m \<le> b" "b < 2 ^ 31"
  shows "costDiff (n, a) (m, b) = max \<bar>a - b\<bar> (m - n) \<and>
    costDiff (n, n) (m, m) = \<bar>n - m\<bar>"
  using assms by (auto simp: costDiff_def i32_id Let_def)

theorem cost_difference_witness: "costDiff (9, 10) (2, 10) = 0 \<and> costDiff (2, 10) (9, 10) = 7"
  using cost_difference [of 9 10 2 10] cost_difference [of 2 10 9 10] by simp

end
