(* ===== verification/TreeBuild.thy ===== *)
theory TreeBuild
  imports ResourceTree Projection
begin

text \<open>
  How the executor builds the resource tree (\<open>lib/Core/Executor.cpp\<close>: the part of \<open>run\<close> after an
  instruction, \<open>handleTimingObservationPoint\<close>, the end of a path; \<open>rdmapinsert\<close> and \<open>getrdmap\<close> of
  \<open>lib/Core/ResourceUsage.cpp\<close>). A state of the executor has the node that its \<open>rdid\<close> leads to. A branch
  on a secret makes that node the H-ancestor of its successors, a branch on public data refines their
  public condition. States, instructions and nodes are named by their addresses; a new address is an
  argument. An assertion that fails and a call of \<open>exit\<close> are \<open>None\<close>.
\<close>

section \<open>State\<close>

type_synonym obs_points = "(nat \<times> (nat \<times> (string \<times> (nat \<times> nat list) list) list) list) list"

record tree =
  nodes :: heap
  rdmap :: "(nat \<times> nat) list"
  rdids :: "nat \<rightharpoonup> nat"
  rdid :: nat
  resourceTreeRootList :: "nat list"
  secretDescendants :: "nat list"
  timingObsPointsMap :: obs_points
  timingObsPointProducerMap :: "(nat \<times> nat) list"
  numHAncestors :: nat
  numHLMixedConstraints :: nat

text \<open>
  What the executor asks while it executes one instruction: the labels of the reads, the solver under
  the path condition of a state, and the instruction a state is at.
\<close>

record queries =
  q_co :: bool
  q_high :: "array \<Rightarrow> expr \<Rightarrow> bool option"
  q_low :: "array \<Rightarrow> expr \<Rightarrow> bool option"
  q_mayBeTrue :: "nat \<Rightarrow> expr \<Rightarrow> bool option"
  q_inst :: "nat \<Rightarrow> nat"

definition rdmapinsert :: "nat \<Rightarrow> nat \<Rightarrow> tree \<Rightarrow> tree" where
  "rdmapinsert i p t = t\<lparr>rdmap := map_insert i p (rdmap t)\<rparr>"

text \<open>A state without a node has the \<open>rdid\<close> -1, which is \<open>None\<close>.\<close>

definition getrdmap :: "tree \<Rightarrow> nat \<Rightarrow> nat option" where
  "getrdmap t s = do { i \<leftarrow> rdids t s; map_of (rdmap t) i }"

text \<open>The new node of a state, at the address \<open>p\<close>, is filled in by \<open>f\<close> and entered.\<close>

definition enterNode :: "queries \<Rightarrow> nat \<Rightarrow> nat \<Rightarrow> (rd \<Rightarrow> rd) \<Rightarrow> tree \<Rightarrow> tree" where
  "enterNode Q p s f t =
     (let (r, n) = newNode (q_inst Q s) (rdid t)
      in rdmapinsert (stateid r) p
           (t\<lparr>nodes := (nodes t)(p \<mapsto> f r), rdids := (rdids t)(s \<mapsto> stateid r), rdid := n\<rparr>))"

definition setNode :: "nat \<Rightarrow> (rd \<Rightarrow> rd) \<Rightarrow> tree \<Rightarrow> tree" where
  "setNode p f t = t\<lparr>nodes := (nodes t)(p := map_option f (nodes t p))\<rparr>"

text \<open>The tree when \<open>run\<close> starts with the initial state.\<close>

definition initialTree :: "queries \<Rightarrow> nat \<Rightarrow> nat \<Rightarrow> tree" where
  "initialTree Q p s =
     (enterNode Q p s (\<lambda>r. r) \<lparr>nodes = Map.empty, rdmap = [], rdids = Map.empty, rdid = 0, resourceTreeRootList = [],
        secretDescendants = [], timingObsPointsMap = [], timingObsPointProducerMap = [], numHAncestors = 0,
        numHLMixedConstraints = 0\<rparr>)\<lparr>resourceTreeRootList := [p]\<rparr>"

section \<open>Branches\<close>

text \<open>
  The conditions of the two successors of a conditional branch: \<open>fork\<close> gives them the condition and
  its negation; when the loop bound is on, the code then stores the condition itself in both.
\<close>

definition lastConditions :: "bool \<Rightarrow> bool \<Rightarrow> expr \<Rightarrow> expr \<times> expr" where
  "lastConditions co bounded cond = (cond, if bounded then cond else createIsZero co cond)"

text \<open>What a successor gets from the node \<open>cur\<close> when nothing special applies.\<close>

definition inheritNode :: "rd \<Rightarrow> rd \<Rightarrow> rd" where
  "inheritNode cur r = r\<lparr>HA := HA cur, HAset := HAset cur, HC := HC cur, LC := LC cur, ru := ru cur, bbs := bbs cur\<rparr>"

text \<open>
  One successor \<open>s\<close>, with the condition \<open>r1\<close> and the new node \<open>p\<close>, of the branch instruction \<open>ii\<close> with
  \<open>n\<close> successors, executed by the state whose node is \<open>c\<close>. \<open>done\<close> tells whether \<open>c\<close> is already marked
  as a secret dependent branch.
\<close>

definition branchSuccessor ::
  "queries \<Rightarrow> nat \<Rightarrow> nat \<Rightarrow> nat \<Rightarrow> nat \<times> nat \<times> expr \<Rightarrow> tree \<times> bool \<Rightarrow> (tree \<times> bool) option" where
  "branchSuccessor Q c ii n = (\<lambda>(p, s, r1) (t, done).
     do {
       cur \<leftarrow> nodes t c;
       hasHloc \<leftarrow> exprHasSymRegion (q_high Q) r1;
       hasLloc \<leftarrow> exprHasSymRegion (q_low Q) r1;
       let t1 = (if hasHloc then t\<lparr>secretDescendants := set_insert s (secretDescendants t)\<rparr> else t);
       t2 \<leftarrow>
         (if hasHloc \<and> \<not> hasLloc then
            do {
              proj \<leftarrow> getProjectionOnRegion (q_co Q) (q_high Q) False r1;
              result \<leftarrow> q_mayBeTrue Q s proj;
              Some (if result then
                (let t2 = (if done then t1
                           else setNode c (\<lambda>r. r\<lparr>isHBr := True, rd_i := ii, finalized := 0, numSucc := n\<rparr>)
                                  (t1\<lparr>numHAncestors := numHAncestors t1 + 1\<rparr>))
                 in (enterNode Q p s (\<lambda>r. (inheritNode cur r)\<lparr>HA := Some c, HAset := True, HC := proj, LC := expr_true\<rparr>) t2, True))
                else (enterNode Q p s (inheritNode cur) t1, done))
            }
          else if hasLloc then
            do {
              let t2 = (if hasHloc then t1\<lparr>numHLMixedConstraints := numHLMixedConstraints t1 + 1\<rparr> else t1);
              proj \<leftarrow> getProjectionOnRegion (q_co Q) (q_low Q) False r1;
              result \<leftarrow> q_mayBeTrue Q s proj;
              Some (enterNode Q p s (\<lambda>r. if result then (inheritNode cur r)\<lparr>LC := And_create (LC cur) proj\<rparr>
                                         else inheritNode cur r) t2, done)
            }
          else Some (enterNode Q p s (inheritNode cur) t1, done));
       Some (setNode c (\<lambda>r. r\<lparr>succ := set_insert p (succ r)\<rparr>) (fst t2), snd t2)
     })"

fun branchSuccessors ::
  "queries \<Rightarrow> nat \<Rightarrow> nat \<Rightarrow> nat \<Rightarrow> (nat \<times> nat \<times> expr) list \<Rightarrow> tree \<times> bool \<Rightarrow> (tree \<times> bool) option" where
  "branchSuccessors Q c ii n [] td = Some td"
| "branchSuccessors Q c ii n (x # xs) td = do { td' \<leftarrow> branchSuccessor Q c ii n x td; branchSuccessors Q c ii n xs td' }"

text \<open>
  The cost of an instruction: that of the called function's model, or 1. \<open>removeDotSuffix\<close> takes the
  number off the name of a copied function; the dot at the end of a name stays, as the terminating
  zero is no digit.
\<close>

definition removeDotSuffix :: "string \<Rightarrow> string" where
  "removeDotSuffix name =
     (let pos = length (takeWhile (\<lambda>c. c \<noteq> CHR ''.'') name)
      in if pos < length name \<and> Suc pos < length name \<and> CHR ''0'' \<le> name ! Suc pos \<and> name ! Suc pos \<le> CHR ''9''
         then take pos name else name)"

definition getTimingModel :: "(string \<times> int) list \<Rightarrow> string \<Rightarrow> int" where
  "getTimingModel timingModels fname = (case map_of timingModels fname of Some c \<Rightarrow> c | None \<Rightarrow> 1)"

definition getTimingCost :: "(string \<times> int) list \<Rightarrow> string option \<Rightarrow> int" where
  "getTimingCost timingModels target =
     (case target of Some f \<Rightarrow> getTimingModel timingModels (removeDotSuffix f) | None \<Rightarrow> 1)"

text \<open>
  What follows an instruction \<open>ii\<close> of the block \<open>bb\<close> with the cost \<open>cost\<close>; \<open>succs\<close> are the successors
  when it was a branch.
\<close>

definition afterInstruction ::
  "queries \<Rightarrow> nat \<Rightarrow> nat \<Rightarrow> nat \<Rightarrow> int \<Rightarrow> (nat \<times> nat \<times> expr) list \<Rightarrow> tree \<Rightarrow> tree option" where
  "afterInstruction Q s ii bb cost succs t =
     do {
       c \<leftarrow> getrdmap t s;
       cur \<leftarrow> nodes t c;
       let t1 = setNode c (\<lambda>r. r\<lparr>ru := u32 (ru r + cost), bbs := set_insert bb (bbs r)\<rparr>) t;
       (if length succs > 1 then map_option fst (branchSuccessors Q c ii (length succs) succs (t1, False))
        else Some t1)
     }"

section \<open>The end of a path\<close>

definition terminateState :: "nat \<Rightarrow> bool \<Rightarrow> tree \<Rightarrow> tree option" where
  "terminateState s observed t =
     do {
       p \<leftarrow> getrdmap t s;
       Some ((if observed then setNode p (\<lambda>r. r\<lparr>timingObservationPoint := True\<rparr>) t else t)\<lparr>rdids := (rdids t)(s := None)\<rparr>)
     }"

text \<open>The return from the outermost function, with the value that is returned.\<close>

definition returnFromEntry :: "nat \<Rightarrow> expr option \<Rightarrow> tree \<Rightarrow> tree option" where
  "returnFromEntry s result t =
     do {
       p \<leftarrow> getrdmap t s;
       terminateState s False (setNode p (\<lambda>r. case result of
           None \<Rightarrow> r\<lparr>pathterminated := True\<rparr>
         | Some e \<Rightarrow> r\<lparr>pathterminated := True, isvoid := False, retval := Some e\<rparr>) t)
     }"

text \<open>A return that is public output joins the public condition.\<close>

definition publicReturn :: "queries \<Rightarrow> nat \<Rightarrow> expr \<Rightarrow> expr \<Rightarrow> tree \<Rightarrow> tree option" where
  "publicReturn Q s publicOutputVar result t =
     do {
       p \<leftarrow> getrdmap t s;
       Some (setNode p (\<lambda>r. r\<lparr>LC := And_create (LC r) (Binary_create (q_co Q) Eq publicOutputVar result)\<rparr>) t)
     }"

section \<open>Timing observation points\<close>

text \<open>Whether \<open>r1\<close> is reachable from one of \<open>ps\<close>, and the first successor it is reachable from.\<close>

partial_function (option) reachableFrom :: "heap \<Rightarrow> nat \<Rightarrow> nat list \<Rightarrow> bool option" where
  "reachableFrom H r1 ps =
     (case ps of
        [] \<Rightarrow> Some False
      | p # rest \<Rightarrow>
          if p = r1 then Some True
          else Option.bind (H p) (\<lambda>r.
               Option.bind (reachableFrom H r1 (succ r)) (\<lambda>b.
               if b then Some True else reachableFrom H r1 rest)))"

definition reachable :: "heap \<Rightarrow> nat \<Rightarrow> nat \<Rightarrow> bool option" where
  "reachable H r1 r2 = reachableFrom H r1 [r2]"

fun firstReaching :: "heap \<Rightarrow> nat \<Rightarrow> nat list \<Rightarrow> nat \<Rightarrow> int option" where
  "firstReaching H r1 [] sno = Some (- 1)"
| "firstReaching H r1 (p # ps) sno = do { b \<leftarrow> reachable H r1 p; (if b then Some (int sno) else firstReaching H r1 ps (sno + 1)) }"

definition reachableBySuccessor :: "heap \<Rightarrow> nat \<Rightarrow> nat \<Rightarrow> int option" where
  "reachableBySuccessor H r1 r2 = do { r \<leftarrow> H r2; firstReaching H r1 (succ r) 0 }"

text \<open>The observation point \<open>p\<close> is recorded at the topmost H-ancestor above it.\<close>

definition enterObsPoint :: "nat \<Rightarrow> nat \<Rightarrow> nat \<Rightarrow> string \<Rightarrow> nat \<Rightarrow> obs_points \<Rightarrow> obs_points" where
  "enterObsPoint i ha p fname sucno m =
     (let m1 = map_at [] m i;
          m2 = map_at [] m1 ha;
          m3 = map_at [] m2 fname;
          s = map_at [] m3 sucno
      in map_assign i (map_assign ha (map_assign fname (map_assign sucno (set_insert p s) m3) m2) m1) m)"

partial_function (option) topAncestor :: "heap \<Rightarrow> nat \<Rightarrow> nat option" where
  "topAncestor H ha = Option.bind (H ha) (\<lambda>r. case HA r of None \<Rightarrow> Some ha | Some ha' \<Rightarrow> topAncestor H ha')"

definition recordTimingObservationPoint :: "nat \<Rightarrow> nat option \<Rightarrow> string \<Rightarrow> tree \<Rightarrow> tree option" where
  "recordTimingObservationPoint p hap fname t =
     (case hap of
        None \<Rightarrow> Some t
      | Some ha0 \<Rightarrow>
          if fname = '''' then Some t
          else do {
            ha \<leftarrow> topAncestor (nodes t) ha0;
            r \<leftarrow> nodes t ha;
            sucno \<leftarrow> reachableBySuccessor (nodes t) p ha;
            (if sucno = - 1 then None
             else Some (t\<lparr>timingObsPointsMap := enterObsPoint (rd_i r) ha p fname (nat sucno) (timingObsPointsMap t)\<rparr>))
          })"

text \<open>
  \<open>handleTimingObservationPoint\<close>: a copy \<open>s'\<close> of the state \<open>s\<close> ends here, with the new node \<open>p\<close>; with
  \<open>restart\<close> the state goes on with a fresh root at the address given.
\<close>

definition observedNode :: "string \<Rightarrow> rd \<Rightarrow> rd \<Rightarrow> rd" where
  "observedNode fname cur r =
     (inheritNode cur r)\<lparr>isHBr := isHBr cur, rd_i := rd_i cur, pathterminated := True, timingObservationPoint := True, topsLoc := fname\<rparr>"

definition handleTimingObservationPoint ::
  "queries \<Rightarrow> nat \<Rightarrow> nat \<Rightarrow> nat \<Rightarrow> nat option \<Rightarrow> string \<Rightarrow> tree \<Rightarrow> tree option" where
  "handleTimingObservationPoint Q s s' p restart fname t =
     do {
       c \<leftarrow> getrdmap t s;
       cur \<leftarrow> nodes t c;
       let t1 = setNode c (\<lambda>r. r\<lparr>succ := set_insert p (succ r)\<rparr>) (enterNode Q p s' (observedNode fname cur) t);
       t2 \<leftarrow> recordTimingObservationPoint p (HA cur) fname
               (t1\<lparr>timingObsPointProducerMap := map_assign p c (timingObsPointProducerMap t1)\<rparr>);
       t3 \<leftarrow> terminateState s' True t2;
       Some (case restart of
           None \<Rightarrow> t3
         | Some q \<Rightarrow>
             (let t4 = enterNode Q q s (\<lambda>r. r) t3
              in setNode c (\<lambda>r. r\<lparr>succ := set_insert q (succ r)\<rparr>)
                   (t4\<lparr>resourceTreeRootList := set_insert q (resourceTreeRootList t4)\<rparr>)))
     }"

section \<open>Executions\<close>

text \<open>
  What the code outside this part does: \<open>new\<close> returns an address that is not in use, \<open>fork\<close> and
  \<open>branch\<close> make new states and keep the current one among the successors, conditions are Booleans, and
  the option \<open>-const-array-opt\<close> is off.
\<close>

definition boolean :: "expr \<Rightarrow> bool" where
  "boolean e \<longleftrightarrow> wfe e \<and> getWidth e = 1"

definition new_successors :: "tree \<Rightarrow> nat \<Rightarrow> (nat \<times> nat \<times> expr) list \<Rightarrow> bool" where
  "new_successors t s succs \<longleftrightarrow>
     distinct (map fst succs) \<and> list_all (\<lambda>(p, s', e). nodes t p = None \<and> (s' = s \<or> rdids t s' = None) \<and> boolean e) succs \<and>
     (length succs > 1 \<longrightarrow> s \<in> (\<lambda>(p, s', e). s') ` set succs)"

inductive step :: "tree \<Rightarrow> tree \<Rightarrow> bool" where
  instruction: "\<not> q_co Q \<Longrightarrow> new_successors t s succs \<Longrightarrow> afterInstruction Q s ii bb cost succs t = Some t' \<Longrightarrow> step t t'"
| finished: "returnFromEntry s result t = Some t' \<Longrightarrow> step t t'"
| abandoned: "terminateState s observed t = Some t' \<Longrightarrow> step t t'"
| public_return: "\<not> q_co Q \<Longrightarrow> wfe var \<Longrightarrow> wfe result \<Longrightarrow> getWidth var = getWidth result \<Longrightarrow>
    publicReturn Q s var result t = Some t' \<Longrightarrow> step t t'"
| observed: "nodes t p = None \<Longrightarrow> (\<And>q. restart = Some q \<Longrightarrow> nodes t q = None \<and> q \<noteq> p) \<Longrightarrow>
    handleTimingObservationPoint Q s s' p restart fname t = Some t' \<Longrightarrow> step t t'"

definition reached :: "tree \<Rightarrow> bool" where
  "reached t \<longleftrightarrow> (\<exists>Q p s. step\<^sup>*\<^sup>* (initialTree Q p s) t)"

inductive_cases step_cases: "step t t'"

end
