(* ===== verification/TreeInvariant.thy ===== *)
theory TreeInvariant
  imports TreeBuild
begin

text \<open>
  What holds of every resource tree that the executor builds (theory \<open>TreeBuild\<close>), operation by
  operation and for whole executions, and what follows for the propagation of costs.
\<close>

section \<open>Invariants\<close>

text \<open>
  A node is younger than its H-ancestor and older than its successors, its tables are empty, its
  H-ancestor is a secret dependent branch above it, and a secret dependent branch has successors
  (apart from the nodes \<open>C\<close>, which are being branched).
\<close>

definition node_inv :: "heap \<Rightarrow> nat \<Rightarrow> nat set \<Rightarrow> nat \<Rightarrow> rd \<Rightarrow> bool" where
  "node_inv H N C p r \<longleftrightarrow>
     stateid r < N \<and> (Ru r, HE r, bbm r, RDSet r, terminated r) = ([], [], [], [], []) \<and> boolean (HC r) \<and> boolean (LC r) \<and>
     (HAset r \<longleftrightarrow> HA r \<noteq> None) \<and>
     (\<forall>a. HA r = Some a \<longrightarrow> (\<exists>ra. H a = Some ra \<and> isHBr ra \<and> stateid ra < stateid r) \<and> (a, p) \<in> (treeEdges H)\<^sup>+) \<and>
     (\<forall>q \<in> set (succ r). \<exists>rq. H q = Some rq \<and> stateid r < stateid rq) \<and>
     (isHBr r \<longrightarrow> p \<in> C \<or> succ r \<noteq> [])"

definition tree_inv :: "nat set \<Rightarrow> tree \<Rightarrow> bool" where
  "tree_inv C t \<longleftrightarrow> (\<forall>p r. nodes t p = Some r \<longrightarrow> node_inv (nodes t) (rdid t) C p r) \<and>
     (\<forall>p \<in> set (resourceTreeRootList t). nodes t p \<noteq> None)"

text \<open>
  The table from numbers to nodes is consistent, and every state has a node of its own, which is no
  secret dependent branch (apart from the states \<open>X\<close>, which are about to get new nodes).
\<close>

definition states_inv :: "nat set \<Rightarrow> tree \<Rightarrow> bool" where
  "states_inv X t \<longleftrightarrow>
     (\<forall>i p. map_of (rdmap t) i = Some p \<longrightarrow> i < rdid t \<and> (\<exists>r. nodes t p = Some r \<and> stateid r = i)) \<and>
     (\<forall>s i. rdids t s = Some i \<longrightarrow> (\<exists>p r. map_of (rdmap t) i = Some p \<and> nodes t p = Some r \<and> (s \<notin> X \<longrightarrow> \<not> isHBr r))) \<and>
     (\<forall>s s' i. rdids t s = Some i \<longrightarrow> rdids t s' = Some i \<longrightarrow> s = s')"

text \<open>A heap grows: nodes stay, with their numbers, marks and edges.\<close>

definition grows :: "heap \<Rightarrow> heap \<Rightarrow> bool" where
  "grows H H' \<longleftrightarrow> (\<forall>p r. H p = Some r \<longrightarrow>
     (\<exists>r'. H' p = Some r' \<and> stateid r' = stateid r \<and> (isHBr r \<longrightarrow> isHBr r') \<and> set (succ r) \<subseteq> set (succ r')))"

lemma growsD: "grows H H' \<Longrightarrow> H p = Some r \<Longrightarrow>
    \<exists>r'. H' p = Some r' \<and> stateid r' = stateid r \<and> (isHBr r \<longrightarrow> isHBr r') \<and> set (succ r) \<subseteq> set (succ r')"
  by (simp add: grows_def)

lemma grows_refl [simp]: "grows H H"
  by (simp add: grows_def)

lemma grows_trans:
  assumes "grows H H'" "grows H' H''"
  shows "grows H H''"
  unfolding grows_def
proof (intro allI impI)
  fix p r assume "H p = Some r"
  from growsD [OF assms(1) this] obtain r' where r': "H' p = Some r'" "stateid r' = stateid r" "isHBr r \<longrightarrow> isHBr r'"
    "set (succ r) \<subseteq> set (succ r')"
    by (elim exE conjE) (rule that)
  with growsD [OF assms(2) r'(1)] show "\<exists>r'. H'' p = Some r' \<and> stateid r' = stateid r \<and> (isHBr r \<longrightarrow> isHBr r') \<and>
      set (succ r) \<subseteq> set (succ r')"
    by auto
qed

lemma grows_edges:
  assumes "grows H H'"
  shows "treeEdges H \<subseteq> treeEdges H'"
proof
  fix e assume "e \<in> treeEdges H"
  then obtain p s r where e: "e = (p, s)" "H p = Some r" "s \<in> set (succ r)"
    by (auto simp: treeEdges_def)
  with growsD [OF assms e(2)] show "e \<in> treeEdges H'"
    by (auto simp: treeEdges_def)
qed

lemma grows_update: "(\<And>r. H p = Some r \<Longrightarrow> stateid r' = stateid r \<and> (isHBr r \<longrightarrow> isHBr r') \<and> set (succ r) \<subseteq> set (succ r')) \<Longrightarrow>
    grows H (H(p \<mapsto> r'))"
  by (simp add: grows_def)

lemma node_inv_mono:
  assumes inv: "node_inv H N C p r" and g: "grows H H'" and "N \<le> N'" "C \<subseteq> C'"
  shows "node_inv H' N' C' p r"
  unfolding node_inv_def
proof (intro conjI allI impI ballI)
  show "stateid r < N'" "(Ru r, HE r, bbm r, RDSet r, terminated r) = ([], [], [], [], [])" "boolean (HC r)" "boolean (LC r)"
    "HAset r \<longleftrightarrow> HA r \<noteq> None"
    using inv assms(3) by (simp_all add: node_inv_def)
  show "p \<in> C' \<or> succ r \<noteq> []" if "isHBr r"
    using inv assms(4) that unfolding node_inv_def by blast
next
  fix a assume "HA r = Some a"
  with inv obtain ra where ra: "H a = Some ra" "isHBr ra" "stateid ra < stateid r" "(a, p) \<in> (treeEdges H)\<^sup>+"
    unfolding node_inv_def by blast
  then show "\<exists>ra. H' a = Some ra \<and> isHBr ra \<and> stateid ra < stateid r"
    using growsD [OF g ra(1)] by auto
  show "(a, p) \<in> (treeEdges H')\<^sup>+"
    using ra(4) grows_edges [OF g] by (rule trancl_mono)
next
  fix q assume "q \<in> set (succ r)"
  with inv obtain rq where "H q = Some rq" "stateid r < stateid rq"
    unfolding node_inv_def by blast
  then show "\<exists>rq. H' q = Some rq \<and> stateid r < stateid rq"
    using growsD [OF g] by fastforce
qed

text \<open>What the invariant sees of a node.\<close>

definition shape :: "rd \<Rightarrow> (nat \<times> nat option \<times> bool \<times> bool \<times> nat list) \<times> ((exhash \<times> range) list \<times> (exhash \<times> expr \<times> expr) list \<times>
    (exhash \<times> nat list) list \<times> (exhash \<times> nat list) list \<times> (exhash \<times> nat) list)" where
  "shape r = ((stateid r, HA r, HAset r, isHBr r, succ r), (Ru r, HE r, bbm r, RDSet r, terminated r))"

lemma node_inv_shape:
  "node_inv H N C p r \<Longrightarrow> shape r' = shape r \<Longrightarrow> boolean (HC r') \<Longrightarrow> boolean (LC r') \<Longrightarrow> node_inv H N C p r'"
  by (auto simp: node_inv_def shape_def)

lemma states_inv_mono:
  assumes "states_inv X t" "rdmap t' = rdmap t" "rdids t' = rdids t" "rdid t' = rdid t"
    and same: "\<And>p r. nodes t p = Some r \<Longrightarrow> \<exists>r'. nodes t' p = Some r' \<and> stateid r' = stateid r \<and> (isHBr r' \<longrightarrow> isHBr r)"
  shows "states_inv X t'"
proof -
  have "i < rdid t \<and> (\<exists>r. nodes t' p = Some r \<and> stateid r = i)" if i: "map_of (rdmap t) i = Some p" for i p
  proof -
    from assms(1) i obtain r where "i < rdid t" "nodes t p = Some r" "stateid r = i"
      unfolding states_inv_def by blast
    then show ?thesis
      using same by blast
  qed
  moreover have "\<exists>p r. map_of (rdmap t) i = Some p \<and> nodes t' p = Some r \<and> (s \<notin> X \<longrightarrow> \<not> isHBr r)" if s: "rdids t s = Some i" for s i
  proof -
    from assms(1) s obtain p r where "map_of (rdmap t) i = Some p" "nodes t p = Some r" "s \<notin> X \<longrightarrow> \<not> isHBr r"
      unfolding states_inv_def by blast
    then show ?thesis
      using same by blast
  qed
  moreover have "\<forall>s s' i. rdids t s = Some i \<longrightarrow> rdids t s' = Some i \<longrightarrow> s = s'"
    using assms(1) unfolding states_inv_def by blast
  ultimately show ?thesis
    using assms(2-4) by (simp add: states_inv_def)
qed

lemma setNode_inv:
  assumes "tree_inv C t" "states_inv X t"
    and f: "\<And>r. nodes t p = Some r \<Longrightarrow> boolean (HC r) \<Longrightarrow> boolean (LC r) \<Longrightarrow>
      shape (f r) = shape r \<and> boolean (HC (f r)) \<and> boolean (LC (f r))"
  shows "tree_inv C (setNode p f t)" "states_inv X (setNode p f t)"
proof -
  show "tree_inv C (setNode p f t)"
  proof (cases "nodes t p")
    case None
    with assms(1) show ?thesis
      by (simp add: tree_inv_def setNode_def fun_upd_idem)
  next
    case (Some r)
    then have r: "node_inv (nodes t) (rdid t) C p r"
      using assms(1) by (simp add: tree_inv_def)
    then have fr: "shape (f r) = shape r" "boolean (HC (f r))" "boolean (LC (f r))"
      using f [OF Some] by (auto simp: node_inv_def)
    then have g: "grows (nodes t) ((nodes t)(p \<mapsto> f r))"
      by (intro grows_update) (simp add: Some shape_def)
    have "node_inv ((nodes t)(p \<mapsto> f r)) (rdid t) C q x" if x: "((nodes t)(p \<mapsto> f r)) q = Some x" for q x
    proof (cases "q = p")
      case True
      with x fr show ?thesis
        using node_inv_mono [OF node_inv_shape [OF r fr] g] by simp
    next
      case False
      with x have "node_inv (nodes t) (rdid t) C q x"
        using assms(1) by (simp add: tree_inv_def)
      then show ?thesis
        using g by (rule node_inv_mono) simp_all
    qed
    with assms(1) Some show ?thesis
      by (simp add: tree_inv_def setNode_def)
  qed
  have same: "\<exists>r'. nodes (setNode p f t) q = Some r' \<and> stateid r' = stateid r \<and> isHBr r' = isHBr r" if "nodes t q = Some r" for q r
  proof -
    have "boolean (HC r)" "boolean (LC r)"
      using assms(1) that by (auto simp: tree_inv_def node_inv_def)
    then show ?thesis
      using f [of r] that by (cases "q = p") (auto simp: setNode_def shape_def)
  qed
  show "states_inv X (setNode p f t)"
  proof (rule states_inv_mono [OF assms(2)])
    show "\<exists>r'. nodes (setNode p f t) q = Some r' \<and> stateid r' = stateid r \<and> (isHBr r' \<longrightarrow> isHBr r)" if "nodes t q = Some r" for q r
      using same [OF that] by auto
  qed (simp_all add: setNode_def)
qed

text \<open>A state may be taken away, and the other fields do not matter.\<close>

lemma states_inv_drop: "states_inv X t \<Longrightarrow> states_inv X (t\<lparr>rdids := (rdids t)(s := None)\<rparr>)"
  unfolding states_inv_def by (simp add: fun_upd_apply)

lemma inv_fields [simp]:
  "tree_inv C (t\<lparr>rdids := x\<rparr>) = tree_inv C t"
  "tree_inv C (t\<lparr>secretDescendants := y\<rparr>) = tree_inv C t" "states_inv X (t\<lparr>secretDescendants := y\<rparr>) = states_inv X t"
  "tree_inv C (t\<lparr>timingObsPointsMap := z\<rparr>) = tree_inv C t" "states_inv X (t\<lparr>timingObsPointsMap := z\<rparr>) = states_inv X t"
  "tree_inv C (t\<lparr>timingObsPointProducerMap := v\<rparr>) = tree_inv C t"
  "states_inv X (t\<lparr>timingObsPointProducerMap := v\<rparr>) = states_inv X t"
  "tree_inv C (t\<lparr>numHAncestors := n\<rparr>) = tree_inv C t" "states_inv X (t\<lparr>numHAncestors := n\<rparr>) = states_inv X t"
  "tree_inv C (t\<lparr>numHLMixedConstraints := n\<rparr>) = tree_inv C t" "states_inv X (t\<lparr>numHLMixedConstraints := n\<rparr>) = states_inv X t"
  by (simp_all add: tree_inv_def states_inv_def)

text \<open>A new node below \<open>c\<close>.\<close>

abbreviation addSucc :: "nat \<Rightarrow> nat \<Rightarrow> tree \<Rightarrow> tree" where
  "addSucc c p \<equiv> setNode c (\<lambda>r. r\<lparr>succ := set_insert p (succ r)\<rparr>)"

lemma set_insert_not_Nil [simp]: "set_insert x xs \<noteq> []"
proof -
  have "x \<in> set (set_insert x xs)"
    by (simp add: set_set_insert)
  then show ?thesis
    by (metis empty_iff list.set(1))
qed

lemma attach_nodes:
  assumes "nodes t c = Some cur" "nodes t p = None"
  shows "nodes (addSucc c p (enterNode Q p s f t)) =
    (nodes t)(p \<mapsto> f (fst (newNode (q_inst Q s) (rdid t))), c \<mapsto> cur\<lparr>succ := set_insert p (succ cur)\<rparr>)"
proof -
  have "c \<noteq> p"
    using assms by auto
  with assms(1) show ?thesis
    by (simp add: setNode_def enterNode_def newNode_def rdmapinsert_def)
qed

lemma attach_inv:
  assumes inv: "tree_inv {c} t" and cur: "nodes t c = Some cur" and p: "nodes t p = None"
    and r: "r = f (fst (newNode (q_inst Q s) (rdid t)))" "stateid r = rdid t" "succ r = []" "\<not> isHBr r"
      "(Ru r, HE r, bbm r, RDSet r, terminated r) = ([], [], [], [], [])" "boolean (HC r)" "boolean (LC r)"
      "HAset r \<longleftrightarrow> HA r \<noteq> None" "HA r = None \<or> HA r = HA cur \<or> HA r = Some c \<and> isHBr cur"
  shows "tree_inv {} (addSucc c p (enterNode Q p s f t))"
proof -
  let ?cur' = "cur\<lparr>succ := set_insert p (succ cur)\<rparr>"
  let ?H = "nodes t" and ?N = "rdid t"
  define H' where "H' = (nodes t)(p \<mapsto> r, c \<mapsto> ?cur')"
  have cp: "c \<noteq> p"
    using cur p by auto
  have H': "H' c = Some ?cur'" "H' p = Some r" "\<And>q. q \<noteq> c \<Longrightarrow> q \<noteq> p \<Longrightarrow> H' q = ?H q"
    using cp by (simp_all add: H'_def)
  have g: "grows ?H H'"
    unfolding grows_def H'_def using cur p by (auto simp: set_set_insert)
  have cur_inv: "node_inv ?H ?N {c} c cur"
    using inv cur by (simp add: tree_inv_def)
  have cur_inv': "node_inv H' (?N + 1) {c} c cur"
    using node_inv_mono [OF cur_inv g] by simp
  have edge: "(c, p) \<in> treeEdges H'"
    by (simp add: treeEdges_def set_set_insert H')
  have older: "stateid cur < ?N"
    using cur_inv by (simp add: node_inv_def)
  have new: "node_inv H' (?N + 1) {} p r"
    unfolding node_inv_def
  proof (intro conjI allI impI ballI)
    fix a assume a: "HA r = Some a"
    have "(\<exists>ra. H' a = Some ra \<and> isHBr ra \<and> stateid ra < stateid r) \<and> (a, p) \<in> (treeEdges H')\<^sup>+"
      if "HA cur = Some a"
    proof -
      from cur_inv' that obtain ra where "H' a = Some ra" "isHBr ra" "stateid ra < stateid cur" "(a, c) \<in> (treeEdges H')\<^sup>+"
        unfolding node_inv_def by blast
      then show ?thesis
        using older r(2) edge by (auto intro: trancl_into_trancl)
    qed
    moreover have "(\<exists>ra. H' a = Some ra \<and> isHBr ra \<and> stateid ra < stateid r) \<and> (a, p) \<in> (treeEdges H')\<^sup>+"
      if "a = c" "isHBr cur"
      using that older r(2) edge H'(1) by auto
    moreover have "HA cur = Some a \<or> a = c \<and> isHBr cur"
      using r(9) a by auto
    ultimately have both: "(\<exists>ra. H' a = Some ra \<and> isHBr ra \<and> stateid ra < stateid r) \<and> (a, p) \<in> (treeEdges H')\<^sup>+"
      by blast
    show "\<exists>ra. H' a = Some ra \<and> isHBr ra \<and> stateid ra < stateid r"
      using both by (rule conjunct1)
    show "(a, p) \<in> (treeEdges H')\<^sup>+"
      using both by (rule conjunct2)
  qed (use r in simp_all)
  have "node_inv H' (?N + 1) {} q x" if x: "H' q = Some x" for q x
  proof -
    consider "q = p" | "q = c" | "q \<noteq> p" "q \<noteq> c"
      by blast
    then show ?thesis
    proof cases
      case 1
      with x H'(2) new show ?thesis
        by simp
    next
      case 2
      then have "x = ?cur'"
        using x H'(1) by simp
      moreover have "node_inv H' (?N + 1) {} c ?cur'"
        unfolding node_inv_def
      proof (intro conjI allI impI ballI)
        fix q assume "q \<in> set (succ ?cur')"
        then consider "q = p" | "q \<in> set (succ cur)"
          by (auto simp: set_set_insert)
        then show "\<exists>rq. H' q = Some rq \<and> stateid ?cur' < stateid rq"
        proof cases
          case 1
          then show ?thesis
            using H'(2) older r(2) by simp
        next
          case 2
          with cur_inv' obtain rq where "H' q = Some rq" "stateid cur < stateid rq"
            unfolding node_inv_def by blast
          then show ?thesis
            by simp
        qed
      next
        fix a assume "HA ?cur' = Some a"
        then have "HA cur = Some a"
          by simp
        with cur_inv' show "\<exists>ra. H' a = Some ra \<and> isHBr ra \<and> stateid ra < stateid ?cur'" "(a, c) \<in> (treeEdges H')\<^sup>+"
          unfolding node_inv_def by auto
      next
        show "c \<in> {} \<or> succ ?cur' \<noteq> []"
          by simp
      qed (use cur_inv' in \<open>simp_all add: node_inv_def\<close>)
      ultimately show ?thesis
        using 2 by simp
    next
      case 3
      with x H'(3) have "node_inv ?H ?N {c} q x"
        using inv by (simp add: tree_inv_def)
      then have "node_inv H' (?N + 1) {c} q x"
        using g by (rule node_inv_mono) simp_all
      with 3 show ?thesis
        unfolding node_inv_def by simp
    qed
  qed
  moreover have "\<forall>q \<in> set (resourceTreeRootList t). H' q \<noteq> None"
    using inv g unfolding grows_def tree_inv_def by fastforce
  ultimately show ?thesis
    unfolding tree_inv_def H'_def attach_nodes [OF cur p, of Q s f, folded r(1)]
    by (simp add: setNode_def enterNode_def newNode_def rdmapinsert_def)
qed

lemma states_invD:
  assumes "states_inv X t"
  shows "map_of (rdmap t) i = Some p \<Longrightarrow> i < rdid t"
    "map_of (rdmap t) i = Some p \<Longrightarrow> \<exists>r. nodes t p = Some r \<and> stateid r = i"
    "rdids t s = Some i \<Longrightarrow> \<exists>p r. map_of (rdmap t) i = Some p \<and> nodes t p = Some r \<and> (s \<notin> X \<longrightarrow> \<not> isHBr r)"
    "rdids t s = Some i \<Longrightarrow> rdids t s' = Some i \<Longrightarrow> s = s'"
  using assms unfolding states_inv_def by blast+

lemma states_inv_weaken:
  assumes "states_inv X t" "X \<subseteq> Y"
  shows "states_inv Y t"
proof -
  have "\<exists>p r. map_of (rdmap t) i = Some p \<and> nodes t p = Some r \<and> (s \<notin> Y \<longrightarrow> \<not> isHBr r)" if "rdids t s = Some i" for s i
    using states_invD(3) [OF assms(1) that] assms(2) by blast
  moreover have "i < rdid t \<and> (\<exists>r. nodes t p = Some r \<and> stateid r = i)" if "map_of (rdmap t) i = Some p" for i p
    using states_invD(1,2) [OF assms(1) that] by blast
  ultimately show ?thesis
    unfolding states_inv_def using states_invD(4) [OF assms(1)] by blast
qed

lemma attach_states:
  assumes inv: "states_inv X t" and cur: "nodes t c = Some cur" and p: "nodes t p = None"
    and r: "r = f (fst (newNode (q_inst Q s) (rdid t)))" "stateid r = rdid t" "\<not> isHBr r"
  shows "states_inv (X - {s}) (addSucc c p (enterNode Q p s f t))"
proof -
  let ?t' = "addSucc c p (enterNode Q p s f t)"
  have cp: "c \<noteq> p"
    using cur p by auto
  have n: "nodes ?t' = (nodes t)(p \<mapsto> r, c \<mapsto> cur\<lparr>succ := set_insert p (succ cur)\<rparr>)"
    using attach_nodes [OF cur p, of Q s f] r(1) by simp
  have fresh: "map_of (rdmap t) (rdid t) = None"
    using states_invD(1) [OF inv] by (metis less_irrefl not_None_eq)
  then have m: "map_of (rdmap ?t') = (map_of (rdmap t))(rdid t \<mapsto> p)" "rdid ?t' = rdid t + 1" "rdids ?t' = (rdids t)(s \<mapsto> rdid t)"
    by (simp_all add: setNode_def enterNode_def newNode_def rdmapinsert_def)
  have old: "\<exists>x'. nodes ?t' q = Some x' \<and> stateid x' = stateid x \<and> isHBr x' = isHBr x" if "nodes t q = Some x" for q x
  proof -
    have "q \<noteq> p"
      using that p by auto
    then show ?thesis
      using that cur by (cases "q = c") (simp_all add: n)
  qed
  have new: "nodes ?t' p = Some r"
    using cp by (simp add: n)
  show ?thesis
    unfolding states_inv_def
  proof (intro conjI allI impI)
    fix i q assume iq: "map_of (rdmap ?t') i = Some q"
    have "i < rdid ?t' \<and> (\<exists>x. nodes ?t' q = Some x \<and> stateid x = i)"
    proof (cases "i = rdid t")
      case True
      with iq m(1) have "q = p"
        by simp
      with True new r(2) m(2) show ?thesis
        by simp
    next
      case False
      with iq m(1) have "map_of (rdmap t) i = Some q"
        by simp
      then obtain x where "i < rdid t" "nodes t q = Some x" "stateid x = i"
        using states_invD(1,2) [OF inv] by blast
      then show ?thesis
        using old by (auto simp: m(2))
    qed
    then show "i < rdid ?t'" "\<exists>x. nodes ?t' q = Some x \<and> stateid x = i"
      by blast+
  next
    fix s' i assume i: "rdids ?t' s' = Some i"
    show "\<exists>q x. map_of (rdmap ?t') i = Some q \<and> nodes ?t' q = Some x \<and> (s' \<notin> X - {s} \<longrightarrow> \<not> isHBr x)"
    proof (cases "s' = s")
      case True
      with i m new r(3) show ?thesis
        by auto
    next
      case False
      with i m(3) have i': "rdids t s' = Some i"
        by simp
      then obtain q x where q: "map_of (rdmap t) i = Some q" "nodes t q = Some x" "s' \<notin> X \<longrightarrow> \<not> isHBr x"
        using states_invD(3) [OF inv] by blast
      then have "map_of (rdmap ?t') i = Some q"
        using states_invD(1) [OF inv q(1)] by (simp add: m(1))
      with q False old [OF q(2)] show ?thesis
        by auto
    qed
  next
    fix s' s'' i assume i: "rdids ?t' s' = Some i" "rdids ?t' s'' = Some i"
    have "rdids t x \<noteq> Some (rdid t)" for x
      using states_invD(3) [OF inv, of x "rdid t"] fresh by auto
    with i show "s' = s''"
      using states_invD(4) [OF inv, of s' i s''] by (auto simp: m(3) split: if_splits)
  qed
qed

text \<open>The tree while the successors of \<open>c\<close> are entered: only states in \<open>X\<close> are still at \<open>c\<close>.\<close>

definition branching :: "nat \<Rightarrow> nat set \<Rightarrow> nat set \<Rightarrow> tree \<Rightarrow> bool" where
  "branching c C X t \<longleftrightarrow> tree_inv C t \<and> states_inv X t \<and> (\<forall>s. getrdmap t s = Some c \<longrightarrow> s \<in> X)"

lemma attach_branching:
  assumes "branching c {c} X t" and cur: "nodes t c = Some cur" and p: "nodes t p = None"
    and r: "r = f (fst (newNode (q_inst Q s) (rdid t)))" "stateid r = rdid t" "succ r = []" "\<not> isHBr r"
      "(Ru r, HE r, bbm r, RDSet r, terminated r) = ([], [], [], [], [])" "boolean (HC r)" "boolean (LC r)"
      "HAset r \<longleftrightarrow> HA r \<noteq> None" "HA r = None \<or> HA r = HA cur \<or> HA r = Some c \<and> isHBr cur"
  shows "branching c {} (X - {s}) (addSucc c p (enterNode Q p s f t))"
proof -
  have inv: "tree_inv {c} t" "states_inv X t" "\<And>s. getrdmap t s = Some c \<Longrightarrow> s \<in> X"
    using assms(1) by (auto simp: branching_def)
  let ?t' = "addSucc c p (enterNode Q p s f t)"
  have fresh: "map_of (rdmap t) (rdid t) = None"
    using states_invD(1) [OF inv(2)] by (metis less_irrefl not_None_eq)
  have m: "map_of (rdmap ?t') = (map_of (rdmap t))(rdid t \<mapsto> p)" "rdids ?t' = (rdids t)(s \<mapsto> rdid t)"
    using fresh by (simp_all add: setNode_def enterNode_def newNode_def rdmapinsert_def)
  have "s' \<in> X - {s}" if s': "getrdmap ?t' s' = Some c" for s'
  proof (cases "s' = s")
    case True
    with s' have "p = c"
      by (simp add: getrdmap_def m)
    with cur p show ?thesis
      by simp
  next
    case False
    with s' obtain i where i: "rdids t s' = Some i" "((map_of (rdmap t))(rdid t \<mapsto> p)) i = Some c"
      by (auto simp: getrdmap_def m split: bind_splits)
    then have "i \<noteq> rdid t"
      using cur p by auto
    with i have "getrdmap t s' = Some c"
      by (simp add: getrdmap_def)
    with inv(3) False show ?thesis
      by simp
  qed
  then show ?thesis
    using attach_inv [where f = f and Q = Q and s = s, OF inv(1) cur p r] attach_states [where f = f and Q = Q and s = s, OF inv(2) cur p r(1,2,4)]
    by (simp add: branching_def)
qed

lemma mark_branching:
  assumes "branching c {} X t" "nodes t c = Some cur"
    and f: "\<And>r. (stateid (f r), HA (f r), HAset (f r), succ (f r), HC (f r), LC (f r)) = (stateid r, HA r, HAset r, succ r, HC r, LC r)"
      "\<And>r. (Ru (f r), HE (f r), bbm (f r), RDSet (f r), terminated (f r)) = (Ru r, HE r, bbm r, RDSet r, terminated r)"
      "\<And>r. isHBr (f r)"
  shows "branching c {c} X (setNode c f t)"
proof -
  have inv: "tree_inv {} t" "states_inv X t" "\<And>s. getrdmap t s = Some c \<Longrightarrow> s \<in> X"
    using assms(1) by (auto simp: branching_def)
  let ?t' = "setNode c f t"
  have n: "nodes ?t' = (nodes t)(c \<mapsto> f cur)"
    by (simp add: setNode_def assms(2))
  have g: "grows (nodes t) (nodes ?t')"
    unfolding n using f by (intro grows_update) (simp add: assms(2))
  have "node_inv (nodes ?t') (rdid t) {c} q x" if x: "nodes ?t' q = Some x" for q x
  proof (cases "q = c")
    case True
    have "node_inv (nodes t) (rdid t) {} c cur"
      using inv(1) assms(2) by (simp add: tree_inv_def)
    then have "node_inv (nodes ?t') (rdid t) {c} c cur"
      using g by (rule node_inv_mono) simp_all
    then have "node_inv (nodes ?t') (rdid t) {c} c (f cur)"
      using f unfolding node_inv_def by simp
    with True x show ?thesis
      by (simp add: n)
  next
    case False
    with x have "node_inv (nodes t) (rdid t) {} q x"
      using inv(1) by (simp add: tree_inv_def n)
    then show ?thesis
      using g by (rule node_inv_mono) simp_all
  qed
  moreover have "\<forall>q \<in> set (resourceTreeRootList t). nodes ?t' q \<noteq> None"
    using inv(1) by (simp add: tree_inv_def n)
  ultimately have 1: "tree_inv {c} ?t'"
    by (simp add: tree_inv_def setNode_def)
  have "states_inv X ?t'"
    unfolding states_inv_def
  proof (intro conjI allI impI)
    fix i q assume "map_of (rdmap ?t') i = Some q"
    then have i: "map_of (rdmap t) i = Some q"
      by (simp add: setNode_def)
    then show "i < rdid ?t'"
      using states_invD(1) [OF inv(2)] by (simp add: setNode_def)
    show "\<exists>x. nodes ?t' q = Some x \<and> stateid x = i"
      using states_invD(2) [OF inv(2) i] f(1) assms(2) by (auto simp: n)
  next
    fix s i assume "rdids ?t' s = Some i"
    then have i: "rdids t s = Some i"
      by (simp add: setNode_def)
    then obtain q x where q: "map_of (rdmap t) i = Some q" "nodes t q = Some x" "s \<notin> X \<longrightarrow> \<not> isHBr x"
      using states_invD(3) [OF inv(2)] by blast
    have "q = c \<Longrightarrow> s \<in> X"
      using inv(3) [of s] i q(1) by (simp add: getrdmap_def)
    with q show "\<exists>q x. map_of (rdmap ?t') i = Some q \<and> nodes ?t' q = Some x \<and> (s \<notin> X \<longrightarrow> \<not> isHBr x)"
      by (cases "q = c") (auto simp: n setNode_def)
  next
    fix s s' i assume "rdids ?t' s = Some i" "rdids ?t' s' = Some i"
    then show "s = s'"
      using states_invD(4) [OF inv(2)] by (simp add: setNode_def)
  qed
  moreover have "getrdmap ?t' s = getrdmap t s" for s
    by (simp add: getrdmap_def setNode_def)
  ultimately show ?thesis
    using 1 inv(3) by (simp add: branching_def)
qed

lemma branching_fields [simp]:
  "branching c C X (t\<lparr>secretDescendants := y\<rparr>) = branching c C X t"
  "branching c C X (t\<lparr>numHAncestors := n\<rparr>) = branching c C X t"
  "branching c C X (t\<lparr>numHLMixedConstraints := n\<rparr>) = branching c C X t"
  by (simp_all add: branching_def getrdmap_def)

lemma branching_mono: "branching c {} X t \<Longrightarrow> branching c {c} X t"
  unfolding branching_def tree_inv_def using node_inv_mono [OF _ grows_refl order_refl] by blast

lemma boolean_And: "boolean p \<Longrightarrow> boolean q \<Longrightarrow> boolean (And_create p q)"
  using eqvD [OF And_create_ok, of p q] by (simp add: boolean_def)

lemma boolean_true [simp]: "boolean expr_true"
  by (simp add: boolean_def expr_true_def ap_ok_def)

lemma boolean_projection:
  "getProjectionOnRegion co inSym mb e = Some e' \<Longrightarrow> \<not> co \<Longrightarrow> boolean e \<Longrightarrow> boolean e'"
  using projection_typed [of inSym mb e e'] by (simp add: boolean_def)

text \<open>The new node of a successor: what it inherits, or a new H-ancestor.\<close>

definition successor_node :: "nat \<Rightarrow> rd \<Rightarrow> (rd \<Rightarrow> rd) \<Rightarrow> bool" where
  "successor_node c cur f \<longleftrightarrow>
     (\<exists>lc. boolean lc \<and> (f = (\<lambda>r. (inheritNode cur r)\<lparr>LC := lc\<rparr>) \<or>
       (\<exists>hc. boolean hc \<and> isHBr cur \<and> f = (\<lambda>r. (inheritNode cur r)\<lparr>HA := Some c, HAset := True, HC := hc, LC := lc\<rparr>))))"

lemma successor_branching:
  assumes "branching c {c} X t" and cur: "nodes t c = Some cur" and p: "nodes t p = None" and f: "successor_node c cur f"
  shows "branching c {} (X - {s}) (addSucc c p (enterNode Q p s f t))"
proof -
  have "node_inv (nodes t) (rdid t) {c} c cur"
    using assms(1) cur by (simp add: branching_def tree_inv_def)
  then have inv: "boolean (HC cur)" "HAset cur \<longleftrightarrow> HA cur \<noteq> None"
    by (simp_all add: node_inv_def)
  show ?thesis
    by (rule attach_branching [OF assms(1-3) refl])
      (use f inv in \<open>auto simp: successor_node_def inheritNode_def newNode_def\<close>)
qed

lemma successor_nodeI:
  "boolean (LC cur) \<Longrightarrow> successor_node c cur (inheritNode cur)"
  "boolean lc \<Longrightarrow> successor_node c cur (\<lambda>r. (inheritNode cur r)\<lparr>LC := lc\<rparr>)"
  "boolean hc \<Longrightarrow> isHBr cur \<Longrightarrow>
     successor_node c cur (\<lambda>r. (inheritNode cur r)\<lparr>HA := Some c, HAset := True, HC := hc, LC := expr_true\<rparr>)"
proof -
  have "inheritNode cur = (\<lambda>r. (inheritNode cur r)\<lparr>LC := LC cur\<rparr>)"
    by (simp add: inheritNode_def fun_eq_iff)
  then show "boolean (LC cur) \<Longrightarrow> successor_node c cur (inheritNode cur)"
    unfolding successor_node_def by metis
  show "boolean hc \<Longrightarrow> isHBr cur \<Longrightarrow>
     successor_node c cur (\<lambda>r. (inheritNode cur r)\<lparr>HA := Some c, HAset := True, HC := hc, LC := expr_true\<rparr>)"
    unfolding successor_node_def using boolean_true by blast
qed (auto simp: successor_node_def)

lemma branchSuccessor_cases:
  assumes "branchSuccessor Q c ii n (p, s, r1) (t, marked) = Some (t', marked')" and cur: "nodes t c = Some cur"
    and "\<not> q_co Q" "boolean r1" "boolean (LC cur)" "marked \<Longrightarrow> isHBr cur"
  obtains (inherit) f y m where "successor_node c cur f" "marked' = marked \<or> marked' \<and> isHBr cur"
      "t' = addSucc c p (enterNode Q p s f (t\<lparr>secretDescendants := y, numHLMixedConstraints := m\<rparr>))"
  | (mark) f y m where "successor_node c (cur\<lparr>isHBr := True, rd_i := ii, finalized := 0, numSucc := n\<rparr>) f" "marked'"
      "t' = addSucc c p (enterNode Q p s f (setNode c (\<lambda>r. r\<lparr>isHBr := True, rd_i := ii, finalized := 0, numSucc := n\<rparr>)
              (t\<lparr>secretDescendants := y, numHAncestors := m\<rparr>)))"
proof -
  let ?mark = "\<lambda>r. r\<lparr>isHBr := True, rd_i := ii, finalized := 0, numSucc := n\<rparr>"
  have inherit_mark: "inheritNode (?mark cur) = inheritNode cur"
    by (simp add: inheritNode_def fun_eq_iff)
  obtain h l where hl: "exprHasSymRegion (q_high Q) r1 = Some h" "exprHasSymRegion (q_low Q) r1 = Some l"
    using assms(1) by (auto simp: branchSuccessor_def split: bind_splits)
  define y where "y = (if h then set_insert s (secretDescendants t) else secretDescendants t)"
  have t1: "(if h then t\<lparr>secretDescendants := set_insert s (secretDescendants t)\<rparr> else t) = t\<lparr>secretDescendants := y\<rparr>"
    by (simp add: y_def)
  define m where "m = (if h then numHLMixedConstraints t + 1 else numHLMixedConstraints t)"
  have t2: "(if h then (t\<lparr>secretDescendants := y\<rparr>)\<lparr>numHLMixedConstraints := numHLMixedConstraints (t\<lparr>secretDescendants := y\<rparr>) + 1\<rparr>
      else t\<lparr>secretDescendants := y\<rparr>) = t\<lparr>secretDescendants := y, numHLMixedConstraints := m\<rparr>"
    by (simp add: m_def)
  have t3: "t\<lparr>secretDescendants := y\<rparr> = t\<lparr>secretDescendants := y, numHLMixedConstraints := numHLMixedConstraints t\<rparr>"
    by simp
  have proj: "boolean e" if "getProjectionOnRegion (q_co Q) inSym False r1 = Some e" for inSym e
    using boolean_projection [OF that] assms(3,4) by simp
  note step = assms(1) [unfolded branchSuccessor_def, simplified, unfolded cur hl, simplified, unfolded Let_def t1 t2]
  show thesis
  proof (cases "h \<and> \<not> l")
    case True
    with step obtain e b where e: "getProjectionOnRegion (q_co Q) (q_high Q) False r1 = Some e" "q_mayBeTrue Q s e = Some b"
      by (auto split: bind_splits)
    show thesis
    proof (cases "b \<and> \<not> marked")
      case b: True
      have "successor_node c (?mark cur) (\<lambda>r. (inheritNode cur r)\<lparr>HA := Some c, HAset := True, HC := e, LC := expr_true\<rparr>)"
        using successor_nodeI(3) [of e "?mark cur" c] proj [OF e(1)] by (simp add: inherit_mark)
      then show thesis
        by (rule mark [where y = y and m = "numHAncestors t + 1"]) (use step True e b in auto)
    next
      case b: False
      show thesis
      proof (cases b)
        case True
        with b assms(6) have "isHBr cur" "marked"
          by auto
        then show thesis
          by (intro inherit [where f = "\<lambda>r. (inheritNode cur r)\<lparr>HA := Some c, HAset := True, HC := e, LC := expr_true\<rparr>" and y = y and m = "numHLMixedConstraints t"])
            (use step \<open>h \<and> \<not> l\<close> e b True in \<open>auto intro!: successor_nodeI proj\<close>)
      next
        case False
        then show thesis
          by (intro inherit [where f = "inheritNode cur" and y = y and m = "numHLMixedConstraints t"])
            (use step \<open>h \<and> \<not> l\<close> e assms(5) in \<open>auto intro!: successor_nodeI\<close>)
      qed
    qed
  next
    case hl': False
    show thesis
    proof (cases l)
      case True
      with step hl' obtain e b where e: "getProjectionOnRegion (q_co Q) (q_low Q) False r1 = Some e" "q_mayBeTrue Q s e = Some b"
        by (auto split: bind_splits)
      let ?f = "if b then (\<lambda>r. (inheritNode cur r)\<lparr>LC := And_create (LC cur) e\<rparr>) else inheritNode cur"
      have "successor_node c cur ?f"
        using successor_nodeI(1) [of cur c] successor_nodeI(2) [of "And_create (LC cur) e" c cur] boolean_And proj [OF e(1)] assms(5)
        by simp
      then show thesis
        by (rule inherit [where y = y and m = m]) (use step True hl' e in auto)
    next
      case False
      with hl' have "\<not> h" by simp
      then show thesis
        by (intro inherit [where f = "inheritNode cur" and y = y and m = "numHLMixedConstraints t"])
          (use step False assms(5) in \<open>auto intro!: successor_nodeI\<close>)
    qed
  qed
qed

lemma setNode_grows:
  assumes "\<And>r. stateid (f r) = stateid r \<and> (isHBr r \<longrightarrow> isHBr (f r)) \<and> set (succ r) \<subseteq> set (succ (f r))"
  shows "grows (nodes t) (nodes (setNode p f t))"
  using assms by (auto simp: grows_def setNode_def)

lemma enterNode_grows: "nodes t p = None \<Longrightarrow> grows (nodes t) (nodes (enterNode Q p s f t))"
  by (auto simp: grows_def enterNode_def newNode_def rdmapinsert_def)

lemma attach_grows:
  assumes "nodes t p = None"
  shows "grows (nodes t) (nodes (addSucc c p (enterNode Q p s f t)))"
  by (rule grows_trans [OF enterNode_grows [where Q = Q and s = s and f = f, OF assms] setNode_grows]) (auto simp: set_set_insert)

lemma addSucc_enter_fields:
  "rdids (addSucc c p (enterNode Q p s f t)) = (rdids t)(s \<mapsto> rdid t)"
  "q \<noteq> p \<Longrightarrow> q \<noteq> c \<Longrightarrow> nodes (addSucc c p (enterNode Q p s f t)) q = nodes t q"
  "c \<noteq> p \<Longrightarrow> nodes t c = Some cur \<Longrightarrow> \<exists>cur'. nodes (addSucc c p (enterNode Q p s f t)) c = Some cur' \<and> isHBr cur' = isHBr cur"
  by (simp_all add: setNode_def enterNode_def newNode_def rdmapinsert_def)

lemma branchSuccessor_ok:
  assumes "branchSuccessor Q c ii n (p, s, r1) (t, marked) = Some (t', marked')" and b: "branching c {} X t"
    and cur: "nodes t c = Some cur" and p: "nodes t p = None" and Q: "\<not> q_co Q" "boolean r1" "marked \<Longrightarrow> isHBr cur"
  shows "branching c {} (X - {s}) t' \<and> (\<exists>cur'. nodes t' c = Some cur' \<and> (marked' \<longrightarrow> isHBr cur')) \<and>
    (\<forall>q. q \<noteq> p \<longrightarrow> q \<noteq> c \<longrightarrow> nodes t' q = nodes t q) \<and> (\<forall>x. x \<noteq> s \<longrightarrow> rdids t' x = rdids t x) \<and>
    grows (nodes t) (nodes t')"
proof -
  have cp: "c \<noteq> p"
    using cur p by auto
  have "node_inv (nodes t) (rdid t) {} c cur"
    using b cur by (simp add: branching_def tree_inv_def)
  then have lc: "boolean (LC cur)"
    by (simp add: node_inv_def)
  show ?thesis
  proof (rule branchSuccessor_cases [OF assms(1) cur Q(1,2) lc Q(3)])
    fix f y m
    assume inherit: "successor_node c cur f" "marked' = marked \<or> marked' \<and> isHBr cur"
      "t' = addSucc c p (enterNode Q p s f (t\<lparr>secretDescendants := y, numHLMixedConstraints := m\<rparr>))"
    let ?t = "t\<lparr>secretDescendants := y, numHLMixedConstraints := m\<rparr>"
    have "branching c {} (X - {s}) t'"
      unfolding inherit(3)
      by (rule successor_branching [where cur = cur]) (use branching_mono [OF b] cur p inherit(1) in simp_all)
    moreover obtain cur' where "nodes t' c = Some cur'" "isHBr cur' = isHBr cur"
      using addSucc_enter_fields(3) [OF cp, where t = ?t and cur = cur] cur unfolding inherit(3) by fastforce
    moreover have "nodes t' q = nodes t q" if "q \<noteq> p" "q \<noteq> c" for q
      using addSucc_enter_fields(2) [OF that, where t = ?t] unfolding inherit(3) by simp
    moreover have "rdids t' x = rdids t x" if "x \<noteq> s" for x
      unfolding inherit(3) addSucc_enter_fields(1) using that by simp
    moreover have "grows (nodes t) (nodes t')"
      using attach_grows [of ?t p c Q s f] p by (simp add: inherit(3))
    ultimately show ?thesis
      using inherit(2) Q(3) by blast
  next
    fix f y m
    assume mark: "successor_node c (cur\<lparr>isHBr := True, rd_i := ii, finalized := 0, numSucc := n\<rparr>) f" "marked'"
      "t' = addSucc c p (enterNode Q p s f (setNode c (\<lambda>r. r\<lparr>isHBr := True, rd_i := ii, finalized := 0, numSucc := n\<rparr>)
              (t\<lparr>secretDescendants := y, numHAncestors := m\<rparr>)))"
    let ?mark = "\<lambda>r. r\<lparr>isHBr := True, rd_i := ii, finalized := 0, numSucc := n\<rparr>"
    let ?t = "setNode c ?mark (t\<lparr>secretDescendants := y, numHAncestors := m\<rparr>)"
    have "branching c {c} X ?t"
      by (rule mark_branching [where cur = cur]) (use b cur in simp_all)
    moreover have n: "nodes ?t c = Some (?mark cur)" "nodes ?t p = None"
      using cur p cp by (simp_all add: setNode_def)
    ultimately have "branching c {} (X - {s}) t'"
      unfolding mark(3) by (rule successor_branching) (rule mark(1))
    moreover obtain cur' where "nodes t' c = Some cur'" "isHBr cur'"
      using addSucc_enter_fields(3) [OF cp n(1)] unfolding mark(3) by fastforce
    moreover have "nodes t' q = nodes t q" if "q \<noteq> p" "q \<noteq> c" for q
    proof -
      have "nodes t' q = nodes ?t q"
        unfolding mark(3) by (rule addSucc_enter_fields(2) [OF that])
      then show ?thesis
        using that(2) by (simp add: setNode_def)
    qed
    moreover have "rdids t' x = rdids t x" if "x \<noteq> s" for x
      unfolding mark(3) addSucc_enter_fields(1) using that by (simp add: setNode_def)
    moreover have "grows (nodes t) (nodes ?t)"
      using setNode_grows [of ?mark "t\<lparr>secretDescendants := y, numHAncestors := m\<rparr>"] by simp
    then have "grows (nodes t) (nodes t')"
      using attach_grows [OF n(2)] unfolding mark(3) by (rule grows_trans)
    ultimately show ?thesis
      by blast
  qed
qed

lemma branchSuccessors_ok:
  "branchSuccessors Q c ii n succs (t, marked) = Some (t', marked') \<Longrightarrow> branching c {} X t \<Longrightarrow> nodes t c = Some cur \<Longrightarrow>
   distinct (map fst succs) \<Longrightarrow> list_all (\<lambda>(p, s, e). nodes t p = None \<and> boolean e) succs \<Longrightarrow> \<not> q_co Q \<Longrightarrow>
   (marked \<Longrightarrow> isHBr cur) \<Longrightarrow> branching c {} (X - (\<lambda>(p, s, e). s) ` set succs) t' \<and> grows (nodes t) (nodes t')"
proof (induction succs arbitrary: t marked X cur)
  case Nil
  then show ?case
    by simp
next
  case (Cons x succs)
  obtain p s r1 where x: "x = (p, s, r1)"
    by (cases x)
  obtain t1 m1 where 1: "branchSuccessor Q c ii n (p, s, r1) (t, marked) = Some (t1, m1)"
    and 2: "branchSuccessors Q c ii n succs (t1, m1) = Some (t', marked')"
    using Cons.prems(1) by (auto simp: x split: bind_splits)
  have p: "nodes t p = None" "boolean r1"
    using Cons.prems(5) by (simp_all add: x)
  note ok = branchSuccessor_ok [OF 1 Cons.prems(2,3) p(1) Cons.prems(6) p(2) Cons.prems(7)]
  obtain cur1 where cur1: "nodes t1 c = Some cur1" "m1 \<longrightarrow> isHBr cur1"
    using ok by blast
  have "nodes t1 q = None" if "(q, s', e) \<in> set succs" for q s' e
  proof -
    have "nodes t q = None" "q \<noteq> p"
      using that Cons.prems(4,5) by (auto simp: x list_all_iff image_iff)
    then show ?thesis
      using ok Cons.prems(3) by (cases "q = c") auto
  qed
  then have "list_all (\<lambda>(p, s, e). nodes t1 p = None \<and> boolean e) succs"
    using Cons.prems(5) by (auto simp: list_all_iff)
  then have "branching c {} ((X - {s}) - (\<lambda>(p, s, e). s) ` set succs) t' \<and> grows (nodes t1) (nodes t')"
    using Cons.IH [OF 2 _ cur1(1), of "X - {s}"] ok Cons.prems(4,6) cur1(2) by simp
  moreover have "(X - {s}) - (\<lambda>(p, s, e). s) ` set succs = X - (\<lambda>(p, s, e). s) ` set (x # succs)"
    by (auto simp: x)
  ultimately show ?case
    using ok grows_trans by auto
qed

definition inv :: "tree \<Rightarrow> bool" where
  "inv t \<longleftrightarrow> tree_inv {} t \<and> states_inv {} t"

lemma afterInstruction_inv:
  assumes "inv t" "\<not> q_co Q" "new_successors t s succs" "afterInstruction Q s ii bb cost succs t = Some t'"
  shows "inv t' \<and> grows (nodes t) (nodes t')"
proof -
  obtain c cur where c: "getrdmap t s = Some c" "nodes t c = Some cur"
    using assms(4) by (auto simp: afterInstruction_def split: bind_splits)
  let ?f = "\<lambda>r. r\<lparr>ru := u32 (ru r + cost), bbs := set_insert bb (bbs r)\<rparr>"
  let ?t1 = "setNode c ?f t"
  have inv1: "tree_inv {} ?t1" "states_inv {} ?t1"
    using setNode_inv [of "{}" t "{}" c ?f] assms(1) by (simp_all add: inv_def shape_def)
  have g1: "grows (nodes t) (nodes ?t1)"
    by (rule setNode_grows) simp
  have t': "t' = ?t1 \<or> length succs > 1 \<and> map_option fst (branchSuccessors Q c ii (length succs) succs (?t1, False)) = Some t'"
    using assms(4) by (auto simp: afterInstruction_def c Let_def split: if_splits)
  show ?thesis
  proof (cases "t' = ?t1")
    case True
    with inv1 g1 show ?thesis
      by (simp add: inv_def)
  next
    case False
    with t' obtain m where m: "branchSuccessors Q c ii (length succs) succs (?t1, False) = Some (t', m)" and len: "length succs > 1"
      by auto
    have at_c: "x = s" if "getrdmap ?t1 x = Some c" for x
    proof -
      from that have "getrdmap t x = Some c"
        by (simp add: getrdmap_def setNode_def)
      with c(1) obtain i j where "rdids t s = Some i" "rdids t x = Some j" "map_of (rdmap t) i = Some c" "map_of (rdmap t) j = Some c"
        by (auto simp: getrdmap_def split: bind_splits)
      moreover from this have "i = j"
        using states_invD(2) [of "{}" t] assms(1) by (metis inv_def option.inject)
      ultimately show ?thesis
        using states_invD(4) [of "{}" t] assms(1) by (auto simp: inv_def)
    qed
    have "states_inv {s} ?t1"
      using inv1(2) by (rule states_inv_weaken) simp
    with inv1(1) at_c have b: "branching c {} {s} ?t1"
      by (simp add: branching_def)
    have cur1: "nodes ?t1 c = Some (?f cur)"
      by (simp add: setNode_def c)
    have "nodes ?t1 p = None" if "nodes t p = None" for p
      using that c(2) by (auto simp: setNode_def)
    then have "list_all (\<lambda>(p, s, e). nodes ?t1 p = None \<and> boolean e) succs" "distinct (map fst succs)"
      using assms(3) by (auto simp: new_successors_def list_all_iff)
    then have "branching c {} ({s} - (\<lambda>(p, s, e). s) ` set succs) t' \<and> grows (nodes ?t1) (nodes t')"
      using branchSuccessors_ok [OF m b cur1] assms(2) by simp
    moreover have "{s} - (\<lambda>(p, s, e). s) ` set succs = {}"
      using assms(3) len by (auto simp: new_successors_def)
    ultimately show ?thesis
      using grows_trans [OF g1] by (simp add: branching_def inv_def)
  qed
qed

text \<open>Where every state is: at a node of its own that is not a secret dependent branch.\<close>

lemma invD:
  assumes "inv t"
  shows "tree_inv {} t" "states_inv {} t" "nodes t p = Some r \<Longrightarrow> node_inv (nodes t) (rdid t) {} p r"
    "getrdmap t s = Some c \<Longrightarrow> \<exists>cur. nodes t c = Some cur \<and> \<not> isHBr cur"
proof -
  show inv: "tree_inv {} t" "states_inv {} t"
    using assms by (simp_all add: inv_def)
  show "nodes t p = Some r \<Longrightarrow> node_inv (nodes t) (rdid t) {} p r"
    using inv(1) by (simp add: tree_inv_def)
  show "\<exists>cur. nodes t c = Some cur \<and> \<not> isHBr cur" if c: "getrdmap t s = Some c"
  proof -
    from c obtain i where i: "rdids t s = Some i" "map_of (rdmap t) i = Some c"
      by (auto simp: getrdmap_def split: bind_splits)
    from states_invD(3) [OF inv(2) i(1)] i(2) show ?thesis
      by auto
  qed
qed

lemma setNode_keeps_inv:
  assumes "inv t"
    and "\<And>r. nodes t p = Some r \<Longrightarrow> boolean (HC r) \<Longrightarrow> boolean (LC r) \<Longrightarrow>
      shape (f r) = shape r \<and> boolean (HC (f r)) \<and> boolean (LC (f r))"
  shows "inv (setNode p f t)"
  using setNode_inv [of "{}" t "{}" p f] assms by (simp add: inv_def)

lemma drop_keeps_inv: "inv t \<Longrightarrow> inv (t\<lparr>rdids := (rdids t)(s := None)\<rparr>)"
  by (simp add: inv_def states_inv_drop)

lemma terminateState_grows: "terminateState s observed t = Some t' \<Longrightarrow> grows (nodes t) (nodes t')"
  using setNode_grows [of "\<lambda>r. r\<lparr>timingObservationPoint := True\<rparr>" t]
  by (auto simp: terminateState_def split: bind_splits if_splits)

lemma returnFromEntry_grows:
  assumes "returnFromEntry s result t = Some t'"
  shows "grows (nodes t) (nodes t')"
proof -
  let ?f = "\<lambda>r. case result of None \<Rightarrow> r\<lparr>pathterminated := True\<rparr>
         | Some e \<Rightarrow> r\<lparr>pathterminated := True, isvoid := False, retval := Some e\<rparr>"
  obtain p where p: "terminateState s False (setNode p ?f t) = Some t'"
    using assms by (auto simp: returnFromEntry_def split: bind_splits)
  have "grows (nodes t) (nodes (setNode p ?f t))"
    by (rule setNode_grows) (simp split: option.split)
  then show ?thesis
    using terminateState_grows [OF p] by (rule grows_trans)
qed

lemma terminateState_inv:
  assumes "inv t" "terminateState s observed t = Some t'"
  shows "inv t'"
proof -
  obtain p where p: "getrdmap t s = Some p"
    "t' = (if observed then setNode p (\<lambda>r. r\<lparr>timingObservationPoint := True\<rparr>) t else t)\<lparr>rdids := (rdids t)(s := None)\<rparr>"
    using assms(2) by (auto simp: terminateState_def split: bind_splits)
  let ?t1 = "if observed then setNode p (\<lambda>r. r\<lparr>timingObservationPoint := True\<rparr>) t else t"
  have "inv ?t1"
    using assms(1) setNode_keeps_inv [OF assms(1), of p "\<lambda>r. r\<lparr>timingObservationPoint := True\<rparr>"] by (simp add: shape_def)
  moreover have "rdids ?t1 = rdids t"
    by (simp add: setNode_def)
  ultimately show ?thesis
    using drop_keeps_inv [of ?t1 s] p(2) by simp
qed

lemma returnFromEntry_inv:
  assumes "inv t" "returnFromEntry s result t = Some t'"
  shows "inv t'"
proof -
  let ?f = "\<lambda>r. case result of None \<Rightarrow> r\<lparr>pathterminated := True\<rparr>
         | Some e \<Rightarrow> r\<lparr>pathterminated := True, isvoid := False, retval := Some e\<rparr>"
  obtain p where p: "terminateState s False (setNode p ?f t) = Some t'"
    using assms(2) by (auto simp: returnFromEntry_def split: bind_splits)
  have "inv (setNode p ?f t)"
    using assms(1) by (rule setNode_keeps_inv) (simp add: shape_def split: option.split)
  then show ?thesis
    using p by (rule terminateState_inv)
qed

lemma publicReturn_inv:
  assumes "inv t" "\<not> q_co Q" "wfe var" "wfe result" "getWidth var = getWidth result" "publicReturn Q s var result t = Some t'"
  shows "inv t'"
proof -
  let ?eq = "Binary_create (q_co Q) Eq var result"
  have "boolean ?eq"
    using eqvD [OF Binary_create_ok, of Eq var result] assms(2-5) by (simp add: boolean_def)
  moreover obtain p where "t' = setNode p (\<lambda>r. r\<lparr>LC := And_create (LC r) ?eq\<rparr>) t"
    using assms(6) by (auto simp: publicReturn_def split: bind_splits)
  ultimately show ?thesis
    using setNode_keeps_inv [OF assms(1), of p "\<lambda>r. r\<lparr>LC := And_create (LC r) ?eq\<rparr>"] by (simp add: shape_def boolean_And)
qed

lemma attach_keeps_inv:
  assumes "inv t" and cur: "nodes t c = Some cur" and p: "nodes t p = None"
    and r: "r = f (fst (newNode (q_inst Q s) (rdid t)))" "stateid r = rdid t" "succ r = []" "\<not> isHBr r"
      "(Ru r, HE r, bbm r, RDSet r, terminated r) = ([], [], [], [], [])" "boolean (HC r)" "boolean (LC r)"
      "HAset r \<longleftrightarrow> HA r \<noteq> None" "HA r = None \<or> HA r = HA cur"
  shows "inv (addSucc c p (enterNode Q p s f t))"
proof -
  have "tree_inv {c} t"
    using invD(3) [OF assms(1)] node_inv_mono [OF _ grows_refl order_refl, of "nodes t" "rdid t" "{}" _ _ "{c}"] assms(1)
    by (simp add: tree_inv_def inv_def)
  moreover from r(9) have "HA r = None \<or> HA r = HA cur \<or> HA r = Some c \<and> isHBr cur"
    by blast
  ultimately have "tree_inv {} (addSucc c p (enterNode Q p s f t))"
    using attach_inv [where f = f and Q = Q and s = s, OF _ cur p r(1-8)] by blast
  moreover have "states_inv ({} - {s}) (addSucc c p (enterNode Q p s f t))"
    by (rule attach_states [where f = f and Q = Q and s = s, OF invD(2) [OF assms(1)] cur p r(1,2,4)])
  ultimately show ?thesis
    by (simp add: inv_def)
qed

lemma setNode_roots:
  "setNode c f (t\<lparr>resourceTreeRootList := x\<rparr>) = (setNode c f t)\<lparr>resourceTreeRootList := x\<rparr>"
  "resourceTreeRootList (setNode c f t) = resourceTreeRootList t"
  by (simp_all add: setNode_def)

lemma roots_inv:
  "inv t \<Longrightarrow> nodes t q \<noteq> None \<Longrightarrow> inv (t\<lparr>resourceTreeRootList := set_insert q (resourceTreeRootList t)\<rparr>)"
  by (simp add: inv_def tree_inv_def states_inv_def set_set_insert)

lemma inv_tables [simp]:
  "inv (t\<lparr>timingObsPointsMap := z\<rparr>) = inv t" "inv (t\<lparr>timingObsPointProducerMap := v\<rparr>) = inv t"
  by (simp_all add: inv_def)

lemma recordTimingObservationPoint_fields:
  assumes "recordTimingObservationPoint p hap fname t = Some t'"
  shows "\<exists>z. t' = t\<lparr>timingObsPointsMap := z\<rparr>"
  using assms by (auto simp: recordTimingObservationPoint_def split: option.splits bind_splits if_splits)
    (metis tree.surjective tree.update_convs(7))+

text \<open>The copy of the state that ends at the observation point.\<close>

lemma observed_copy:
  assumes "inv t" "getrdmap t s = Some c" "nodes t c = Some cur" "nodes t p = None"
  shows "inv (addSucc c p (enterNode Q p s' (observedNode fname cur) t))"
proof -
  have cur: "node_inv (nodes t) (rdid t) {} c cur" "\<not> isHBr cur"
    using invD(3) [OF assms(1) assms(3)] invD(4) [OF assms(1) assms(2)] assms(3) by auto
  show ?thesis
    by (rule attach_keeps_inv [OF assms(1,3,4) refl])
      (use cur in \<open>auto simp: observedNode_def inheritNode_def newNode_def node_inv_def\<close>)
qed

lemma handleTimingObservationPoint_inv:
  assumes "inv t" "nodes t p = None" "\<And>q. restart = Some q \<Longrightarrow> nodes t q = None \<and> q \<noteq> p"
    and h: "handleTimingObservationPoint Q s s' p restart fname t = Some t'"
  shows "inv t' \<and> grows (nodes t) (nodes t')"
proof -
  obtain c cur where c: "getrdmap t s = Some c" "nodes t c = Some cur"
    using h by (auto simp: handleTimingObservationPoint_def split: bind_splits)
  let ?t1 = "addSucc c p (enterNode Q p s' (observedNode fname cur) t)"
  have 1: "inv ?t1"
    by (rule observed_copy [OF assms(1) c assms(2)])
  obtain t2 where t2: "recordTimingObservationPoint p (HA cur) fname
      (?t1\<lparr>timingObsPointProducerMap := map_assign p c (timingObsPointProducerMap ?t1)\<rparr>) = Some t2"
    using h by (auto simp: handleTimingObservationPoint_def c Let_def split: bind_splits)
  obtain z where z: "t2 = ?t1\<lparr>timingObsPointProducerMap := map_assign p c (timingObsPointProducerMap ?t1), timingObsPointsMap := z\<rparr>"
    using recordTimingObservationPoint_fields [OF t2] by auto
  have 2: "inv t2"
    using 1 unfolding z by simp
  obtain t3 where t3: "terminateState s' True t2 = Some t3"
    using h by (auto simp: handleTimingObservationPoint_def c Let_def t2 split: bind_splits)
  have 3: "inv t3"
    by (rule terminateState_inv [OF 2 t3])
  have "grows (nodes t) (nodes ?t1)"
    using assms(2) by (rule attach_grows)
  moreover have "grows (nodes ?t1) (nodes t3)"
    using terminateState_grows [OF t3] by (simp add: z)
  ultimately have g3: "grows (nodes t) (nodes t3)"
    by (rule grows_trans)
  have n3: "nodes t3 q = None" if "nodes t q = None" "q \<noteq> p" for q
    using t3 that c(2) by (auto simp: terminateState_def z setNode_def enterNode_def newNode_def rdmapinsert_def split: bind_splits)
  have c3: "\<exists>x. nodes t3 c = Some x"
    using t3 c(2) assms(2) by (auto simp: terminateState_def z setNode_def enterNode_def newNode_def rdmapinsert_def split: bind_splits)
  show ?thesis
  proof (cases restart)
    case None
    with h t3 t2 3 g3 show ?thesis
      by (simp add: handleTimingObservationPoint_def c Let_def)
  next
    case (Some q)
    obtain x where x: "nodes t3 c = Some x"
      using c3 by blast
    have q: "nodes t3 q = None"
      using n3 assms(3) Some by blast
    let ?t4 = "addSucc c q (enterNode Q q s (\<lambda>r. r) t3)"
    have 4: "inv ?t4"
      by (rule attach_keeps_inv [OF 3 x q refl]) (simp_all add: newNode_def)
    have "t' = ?t4\<lparr>resourceTreeRootList := set_insert q (resourceTreeRootList ?t4)\<rparr>"
      using h t3 t2 by (simp add: handleTimingObservationPoint_def c Let_def Some setNode_roots)
    moreover have "nodes ?t4 q \<noteq> None"
      unfolding attach_nodes [OF x q] by simp
    moreover have "grows (nodes t) (nodes ?t4)"
      using g3 attach_grows [OF q] by (rule grows_trans)
    ultimately show ?thesis
      using roots_inv [OF 4] by simp
  qed
qed

lemma initialTree_inv: "inv (initialTree Q p s)"
  by (simp add: inv_def initialTree_def enterNode_def newNode_def rdmapinsert_def tree_inv_def states_inv_def node_inv_def)

lemma publicReturn_grows: "publicReturn Q s var result t = Some t' \<Longrightarrow> grows (nodes t) (nodes t')"
  using setNode_grows [of "\<lambda>r. r\<lparr>LC := And_create (LC r) (Binary_create (q_co Q) Eq var result)\<rparr>" t]
  by (auto simp: publicReturn_def split: bind_splits)

lemma step_inv:
  assumes "step t t'" "inv t"
  shows "inv t' \<and> grows (nodes t) (nodes t')"
  using assms(1)
proof cases
  case (instruction Q s succs ii bb cost)
  then show ?thesis
    using afterInstruction_inv [OF assms(2)] by blast
next
  case (finished s result)
  then show ?thesis
    using returnFromEntry_inv [OF assms(2)] returnFromEntry_grows by blast
next
  case (abandoned s observed)
  then show ?thesis
    using terminateState_inv [OF assms(2)] terminateState_grows by blast
next
  case (public_return Q var result s)
  then show ?thesis
    using publicReturn_inv [OF assms(2)] publicReturn_grows by blast
next
  case (observed p restart Q s s' fname)
  show ?thesis
    by (rule handleTimingObservationPoint_inv [OF assms(2) observed])
qed

lemma steps_inv: "step\<^sup>*\<^sup>* t t' \<Longrightarrow> inv t \<Longrightarrow> inv t' \<and> grows (nodes t) (nodes t')"
  by (induction rule: rtranclp_induct) (auto dest: step_inv intro: grows_trans)

lemma reached_inv: "reached t \<Longrightarrow> inv t"
  unfolding reached_def using steps_inv initialTree_inv by blast

section \<open>Searching the tree\<close>

definition heap_inv :: "heap \<Rightarrow> nat \<Rightarrow> bool" where
  "heap_inv H N \<longleftrightarrow> (\<forall>p r. H p = Some r \<longrightarrow> node_inv H N {} p r)"

lemma heap_invD:
  assumes "heap_inv H N" "H p = Some r"
  shows "stateid r < N" "HA r = Some a \<Longrightarrow> \<exists>ra. H a = Some ra \<and> isHBr ra \<and> stateid ra < stateid r"
    "HA r = Some a \<Longrightarrow> (a, p) \<in> (treeEdges H)\<^sup>+" "q \<in> set (succ r) \<Longrightarrow> \<exists>rq. H q = Some rq \<and> stateid r < stateid rq"
  using assms unfolding heap_inv_def node_inv_def by blast+

lemma reachableFrom_total:
  "heap_inv H N \<Longrightarrow> (\<And>p. p \<in> set ps \<Longrightarrow> \<exists>r. H p = Some r \<and> n \<le> stateid r) \<Longrightarrow>
   reachableFrom H x ps = Some (\<exists>p \<in> set ps. (p, x) \<in> (treeEdges H)\<^sup>*)"
proof (induction "N - n" arbitrary: n ps rule: less_induct)
  case outer: less
  from outer.prems(2) show ?case
  proof (induction ps)
    case Nil
    then show ?case
      by (subst reachableFrom.simps) simp
  next
    case (Cons p ps)
    obtain r where r: "H p = Some r" "n \<le> stateid r"
      using Cons.prems [of p] by auto
    have rest: "reachableFrom H x ps = Some (\<exists>p \<in> set ps. (p, x) \<in> (treeEdges H)\<^sup>*)"
      using Cons.IH Cons.prems by simp
    have "\<exists>rq. H q = Some rq \<and> Suc (stateid r) \<le> stateid rq" if "q \<in> set (succ r)" for q
      using heap_invD(4) [OF outer.prems(1) r(1) that] by auto
    moreover have "N - Suc (stateid r) < N - n"
      using r(2) heap_invD(1) [OF outer.prems(1) r(1)] by simp
    ultimately have below: "reachableFrom H x (succ r) = Some (\<exists>q \<in> set (succ r). (q, x) \<in> (treeEdges H)\<^sup>*)"
      using outer.hyps [of "Suc (stateid r)" "succ r"] outer.prems(1) by blast
    have "(p, x) \<in> (treeEdges H)\<^sup>* \<longleftrightarrow> p = x \<or> (\<exists>q \<in> set (succ r). (q, x) \<in> (treeEdges H)\<^sup>*)"
    proof -
      have "(p, q) \<in> treeEdges H \<longleftrightarrow> q \<in> set (succ r)" for q
        using r(1) by (simp add: treeEdges_def)
      then show ?thesis
        by (meson converse_rtranclE converse_rtrancl_into_rtrancl rtrancl.rtrancl_refl)
    qed
    then show ?case
      using r(1) below rest by (subst reachableFrom.simps) auto
  qed
qed

lemma firstReaching_total:
  assumes "\<And>q. q \<in> set ps \<Longrightarrow> reachable H x q = Some (R q)"
  shows "\<exists>n. firstReaching H x ps k = Some n \<and> ((\<exists>q \<in> set ps. R q) \<longrightarrow> 0 \<le> n)"
  using assms
proof (induction ps arbitrary: k)
  case (Cons q ps)
  then show ?case
    by (cases "R q") auto
qed simp

lemma reachableBySuccessor_total:
  assumes "heap_inv H N" "H a = Some r" "(a, x) \<in> (treeEdges H)\<^sup>+"
  shows "\<exists>n. reachableBySuccessor H x a = Some n \<and> 0 \<le> n"
proof -
  let ?R = "\<lambda>q. (q, x) \<in> (treeEdges H)\<^sup>*"
  have "reachable H x q = Some (?R q)" if "q \<in> set (succ r)" for q
    using reachableFrom_total [OF assms(1), of "[q]" 0 x] heap_invD(4) [OF assms(1,2) that] by (auto simp: reachable_def)
  moreover obtain q where "(a, q) \<in> treeEdges H" "?R q"
    using tranclD [OF assms(3)] by blast
  then have "\<exists>q \<in> set (succ r). ?R q"
    using assms(2) by (auto simp: treeEdges_def)
  ultimately show ?thesis
    using firstReaching_total [of "succ r" H x ?R 0] assms(2) by (auto simp: reachableBySuccessor_def)
qed

lemma topAncestor_total:
  "heap_inv H N \<Longrightarrow> H a = Some r \<Longrightarrow> (a, x) \<in> (treeEdges H)\<^sup>+ \<Longrightarrow>
   \<exists>b rb. topAncestor H a = Some b \<and> H b = Some rb \<and> HA rb = None \<and> (b, x) \<in> (treeEdges H)\<^sup>+"
proof (induction "stateid r" arbitrary: a r rule: less_induct)
  case less
  show ?case
  proof (cases "HA r")
    case None
    with less.prems show ?thesis
      by (subst topAncestor.simps) simp
  next
    case (Some b)
    obtain rb where rb: "H b = Some rb" "stateid rb < stateid r"
      using heap_invD(2) [OF less.prems(1,2) Some] by blast
    have "(b, x) \<in> (treeEdges H)\<^sup>+"
      using heap_invD(3) [OF less.prems(1,2) Some] less.prems(3) by (rule trancl_trans)
    with less.hyps [OF rb(2) less.prems(1) rb(1)] show ?thesis
      using less.prems(2) Some by (subst topAncestor.simps) simp
  qed
qed

lemma recordTimingObservationPoint_total:
  assumes "heap_inv (nodes t) N" "nodes t p = Some r"
  shows "recordTimingObservationPoint p (HA r) fname t \<noteq> None"
proof (cases "HA r")
  case None
  then show ?thesis
    by (simp add: recordTimingObservationPoint_def)
next
  case (Some a)
  obtain ra where ra: "nodes t a = Some ra"
    using heap_invD(2) [OF assms Some] by blast
  obtain b rb where b: "topAncestor (nodes t) a = Some b" "nodes t b = Some rb" "(b, p) \<in> (treeEdges (nodes t))\<^sup>+"
    using topAncestor_total [OF assms(1) ra heap_invD(3) [OF assms Some]] by blast
  obtain n where "reachableBySuccessor (nodes t) p b = Some n" "0 \<le> n"
    using reachableBySuccessor_total [OF assms(1) b(2,3)] by blast
  with b show ?thesis
    by (simp add: recordTimingObservationPoint_def Some)
qed

lemma handleTimingObservationPoint_total:
  assumes "inv t" "getrdmap t s = Some c" "nodes t p = None" "s' \<noteq> s"
  shows "\<exists>t'. handleTimingObservationPoint Q s s' p restart fname t = Some t'"
proof -
  obtain cur where cur: "nodes t c = Some cur" "\<not> isHBr cur"
    using invD(4) [OF assms(1,2)] by blast
  have cp: "c \<noteq> p"
    using cur assms(3) by auto
  let ?r = "observedNode fname cur (fst (newNode (q_inst Q s') (rdid t)))"
  let ?t1 = "addSucc c p (enterNode Q p s' (observedNode fname cur) t)"
  let ?t2 = "?t1\<lparr>timingObsPointProducerMap := map_assign p c (timingObsPointProducerMap ?t1)\<rparr>"
  have "inv ?t1"
    by (rule observed_copy [OF assms(1,2) cur(1) assms(3)])
  then have "heap_inv (nodes ?t2) (rdid ?t1)"
    using invD(3) by (auto simp: heap_inv_def)
  moreover have r: "nodes ?t2 p = Some ?r" "HA ?r = HA cur"
    using attach_nodes [OF cur(1) assms(3), of Q s' "observedNode fname cur"] cp
    by (simp_all add: observedNode_def inheritNode_def)
  ultimately obtain t3 where t3: "recordTimingObservationPoint p (HA cur) fname ?t2 = Some t3"
    using recordTimingObservationPoint_total [of ?t2 "rdid ?t1" p ?r fname] by auto
  obtain z where z: "t3 = ?t2\<lparr>timingObsPointsMap := z\<rparr>"
    using recordTimingObservationPoint_fields [OF t3] by blast
  have fresh: "map_of (rdmap t) (rdid t) = None"
    using states_invD(1) [OF invD(2) [OF assms(1)]] by (metis less_irrefl not_None_eq)
  then have "getrdmap t3 s' = Some p"
    by (simp add: z getrdmap_def setNode_def enterNode_def newNode_def rdmapinsert_def)
  then show ?thesis
    using assms(2) cur(1) t3 by (simp add: handleTimingObservationPoint_def Let_def terminateState_def)
qed

end
