(* ===== verification/TreeConditions.thy ===== *)
theory TreeConditions
  imports TreeInvariant
begin

text \<open>
  The conditions that a branch gives its successors (\<open>run\<close> in \<open>lib/Core/Executor.cpp\<close>), as one function
  of the conditions of the branching node, and the properties of the trees of an execution: their
  shape, the observation points, the soundness of the recorded conditions, and what the loop bound
  does to them.
\<close>

section \<open>The conditions of the successors\<close>

lemma nodes_attach_new:
  assumes "nodes t c = Some cur" "nodes t p = None"
  shows "nodes (addSucc c p (enterNode Q p s f t)) p = Some (f (fst (newNode (q_inst Q s) (rdid t))))"
proof -
  have "c \<noteq> p"
    using assms by auto
  then show ?thesis
    by (simp add: attach_nodes [OF assms])
qed

text \<open>The H-ancestor and the two conditions that a successor of the node \<open>c\<close> gets.\<close>

definition successorLabels ::
  "queries \<Rightarrow> nat \<Rightarrow> nat \<Rightarrow> expr \<Rightarrow> nat option \<times> expr \<times> expr \<Rightarrow> (nat option \<times> expr \<times> expr) option" where
  "successorLabels Q c s e = (\<lambda>(ha, hc, lc).
     do {
       high \<leftarrow> exprHasSymRegion (q_high Q) e;
       low \<leftarrow> exprHasSymRegion (q_low Q) e;
       (if high \<and> \<not> low then
          do {
            proj \<leftarrow> getProjectionOnRegion (q_co Q) (q_high Q) False e;
            feasible \<leftarrow> q_mayBeTrue Q s proj;
            Some (if feasible then (Some c, proj, expr_true) else (ha, hc, lc))
          }
        else if low then
          do {
            proj \<leftarrow> getProjectionOnRegion (q_co Q) (q_low Q) False e;
            feasible \<leftarrow> q_mayBeTrue Q s proj;
            Some (ha, hc, if feasible then And_create lc proj else lc)
          }
        else Some (ha, hc, lc))
     })"

definition labels_of :: "rd \<Rightarrow> nat option \<times> expr \<times> expr" where
  "labels_of r = (HA r, HC r, LC r)"

lemma branchSuccessor_form:
  assumes "branchSuccessor Q c ii n (p, s, e) (t, marked) = Some (t', marked')" and cur: "nodes t c = Some cur"
  shows "\<exists>f t2 cur2. t' = addSucc c p (enterNode Q p s f t2) \<and> nodes t2 = (nodes t)(c \<mapsto> cur2) \<and> labels_of cur2 = labels_of cur \<and>
    (\<forall>r. successorLabels Q c s e (labels_of cur) = Some (labels_of (f r)))"
proof -
  let ?mark = "\<lambda>r. r\<lparr>isHBr := True, rd_i := ii, finalized := 0, numSucc := n\<rparr>"
  obtain h l where hl: "exprHasSymRegion (q_high Q) e = Some h" "exprHasSymRegion (q_low Q) e = Some l"
    using assms(1) by (auto simp: branchSuccessor_def split: bind_splits)
  define t1 where "t1 = (if h then t\<lparr>secretDescendants := set_insert s (secretDescendants t)\<rparr> else t)"
  define t2 where "t2 = (if h then t1\<lparr>numHLMixedConstraints := numHLMixedConstraints t1 + 1\<rparr> else t1)"
  define t3 where "t3 = (if marked then t1 else setNode c ?mark (t1\<lparr>numHAncestors := numHAncestors t1 + 1\<rparr>))"
  have n: "nodes t1 = (nodes t)(c \<mapsto> cur)" "nodes t2 = (nodes t)(c \<mapsto> cur)"
    "nodes t3 = (nodes t)(c \<mapsto> (if marked then cur else ?mark cur))"
    using cur by (auto simp: t1_def t2_def t3_def setNode_def)
  have lm: "labels_of (if marked then cur else ?mark cur) = labels_of cur"
    by (simp add: labels_of_def)
  note step = assms(1) [unfolded branchSuccessor_def, simplified, unfolded cur hl, simplified,
      unfolded Let_def, folded t1_def t2_def t3_def]
  show ?thesis
  proof (cases "h \<and> \<not> l")
    case True
    with step obtain pr b where pr: "getProjectionOnRegion (q_co Q) (q_high Q) False e = Some pr" "q_mayBeTrue Q s pr = Some b"
      by (auto split: bind_splits)
    let ?f = "\<lambda>r. (inheritNode cur r)\<lparr>HA := Some c, HAset := True, HC := pr, LC := expr_true\<rparr>"
    show ?thesis
    proof (cases b)
      case b: True
      have "successorLabels Q c s e (labels_of cur) = Some (labels_of (?f r))" for r
        using True b by (simp add: successorLabels_def hl pr labels_of_def)
      moreover have "t' = addSucc c p (enterNode Q p s ?f t3)"
        using step True pr b by (simp add: t3_def)
      ultimately show ?thesis
        using n(3) lm by blast
    next
      case b: False
      have "successorLabels Q c s e (labels_of cur) = Some (labels_of (inheritNode cur r))" for r
        using True b by (simp add: successorLabels_def hl pr labels_of_def inheritNode_def)
      moreover have "t' = addSucc c p (enterNode Q p s (inheritNode cur) t1)"
        using step True pr b by simp
      ultimately show ?thesis
        using n(1) by blast
    qed
  next
    case hl': False
    show ?thesis
    proof (cases l)
      case True
      with step hl' obtain pr b where pr: "getProjectionOnRegion (q_co Q) (q_low Q) False e = Some pr" "q_mayBeTrue Q s pr = Some b"
        by (auto split: bind_splits)
      let ?f = "\<lambda>r. if b then (inheritNode cur r)\<lparr>LC := And_create (LC cur) pr\<rparr> else inheritNode cur r"
      have "successorLabels Q c s e (labels_of cur) = Some (labels_of (?f r))" for r
        using True by (simp add: successorLabels_def hl pr labels_of_def inheritNode_def)
      moreover have "t' = addSucc c p (enterNode Q p s ?f t2)"
        using step True pr by (simp add: t2_def)
      ultimately show ?thesis
        using n(2) by blast
    next
      case False
      with hl' have h: "\<not> h" by simp
      have "successorLabels Q c s e (labels_of cur) = Some (labels_of (inheritNode cur r))" for r
        using False h by (simp add: successorLabels_def hl labels_of_def inheritNode_def)
      moreover have "t' = addSucc c p (enterNode Q p s (inheritNode cur) t1)"
        using step False h by simp
      ultimately show ?thesis
        using n(1) by blast
    qed
  qed
qed

lemma branchSuccessor_labels:
  assumes "branchSuccessor Q c ii n (p, s, e) (t, marked) = Some (t', marked')"
    and cur: "nodes t c = Some cur" and p: "nodes t p = None"
  shows "\<exists>r. nodes t' p = Some r \<and> successorLabels Q c s e (labels_of cur) = Some (labels_of r)"
    "\<exists>cur'. nodes t' c = Some cur' \<and> labels_of cur' = labels_of cur"
    "q \<noteq> p \<Longrightarrow> q \<noteq> c \<Longrightarrow> nodes t' q = nodes t q"
proof -
  obtain f t2 cur2 where t': "t' = addSucc c p (enterNode Q p s f t2)" and n: "nodes t2 = (nodes t)(c \<mapsto> cur2)"
    and l: "labels_of cur2 = labels_of cur" "\<forall>r. successorLabels Q c s e (labels_of cur) = Some (labels_of (f r))"
    using branchSuccessor_form [OF assms(1,2)] by blast
  have cp: "c \<noteq> p"
    using cur p by auto
  have n2: "nodes t2 c = Some cur2" "nodes t2 p = None"
    using n cp p by simp_all
  show "\<exists>r. nodes t' p = Some r \<and> successorLabels Q c s e (labels_of cur) = Some (labels_of r)"
    using nodes_attach_new [OF n2] l(2) unfolding t' by blast
  show "\<exists>cur'. nodes t' c = Some cur' \<and> labels_of cur' = labels_of cur"
    unfolding t' attach_nodes [OF n2] using l(1) by (simp add: labels_of_def)
  show "q \<noteq> p \<Longrightarrow> q \<noteq> c \<Longrightarrow> nodes t' q = nodes t q"
    unfolding t' attach_nodes [OF n2] using n by simp
qed

lemma branchSuccessors_labels:
  "branchSuccessors Q c ii n succs (t, marked) = Some (t', marked') \<Longrightarrow> nodes t c = Some cur \<Longrightarrow> distinct (map fst succs) \<Longrightarrow>
   list_all (\<lambda>(p, s, e). nodes t p = None) succs \<Longrightarrow>
   (\<forall>(p, s, e) \<in> set succs. \<exists>r. nodes t' p = Some r \<and> successorLabels Q c s e (labels_of cur) = Some (labels_of r)) \<and>
   (\<forall>q. q \<noteq> c \<longrightarrow> q \<notin> fst ` set succs \<longrightarrow> nodes t' q = nodes t q)"
proof (induction succs arbitrary: t marked cur)
  case Nil
  then show ?case
    by simp
next
  case (Cons x succs)
  obtain p s e where x: "x = (p, s, e)"
    by (cases x)
  obtain t1 m1 where 1: "branchSuccessor Q c ii n (p, s, e) (t, marked) = Some (t1, m1)"
    and 2: "branchSuccessors Q c ii n succs (t1, m1) = Some (t', marked')"
    using Cons.prems(1) by (auto simp: x split: bind_splits)
  have p: "nodes t p = None" "p \<notin> fst ` set succs" "c \<noteq> p"
    using Cons.prems by (auto simp: x)
  note ok = branchSuccessor_labels [OF 1 Cons.prems(2) p(1)]
  obtain cur1 where cur1: "nodes t1 c = Some cur1" "labels_of cur1 = labels_of cur"
    using ok(2) by blast
  have "nodes t1 q = None" if "(q, s', e') \<in> set succs" for q s' e'
  proof -
    have "nodes t q = None" "q \<noteq> p"
      using that Cons.prems(4) p(2) by (auto simp: x list_all_iff image_iff)
    then show ?thesis
      using ok(3) Cons.prems(2) by (cases "q = c") auto
  qed
  then have "list_all (\<lambda>(p, s, e). nodes t1 p = None) succs"
    by (auto simp: list_all_iff)
  moreover have "distinct (map fst succs)"
    using Cons.prems(3) by simp
  ultimately have IH: "\<forall>(p, s, e) \<in> set succs. \<exists>r. nodes t' p = Some r \<and> successorLabels Q c s e (labels_of cur) = Some (labels_of r)"
      "\<forall>q. q \<noteq> c \<longrightarrow> q \<notin> fst ` set succs \<longrightarrow> nodes t' q = nodes t1 q"
    using Cons.IH [OF 2 cur1(1)] unfolding cur1(2) by blast+
  have "nodes t' p = nodes t1 p"
    using IH(2) p(2,3) by simp
  with ok(1) have "\<exists>r. nodes t' p = Some r \<and> successorLabels Q c s e (labels_of cur) = Some (labels_of r)"
    by simp
  with IH ok(3) show ?case
    by (auto simp: x)
qed

section \<open>Properties\<close>

lemma inv_tree_ok:
  assumes "inv t"
  shows "tree_ok (\<lambda>p. case nodes t p of Some r \<Rightarrow> stateid r | None \<Rightarrow> 0) (rdid t) (nodes t)"
  unfolding tree_ok_def
proof (intro allI impI)
  fix p r assume p: "nodes t p = Some r"
  have "node_inv (nodes t) (rdid t) {} p r"
    by (rule invD(3) [OF assms p])
  then show "(case nodes t p of Some r \<Rightarrow> stateid r | None \<Rightarrow> 0) < rdid t \<and> tables_ok r \<and>
       (HAset r \<longrightarrow> HA r \<noteq> None \<and> nodes t (the (HA r)) \<noteq> None \<and>
          (case nodes t (the (HA r)) of Some r \<Rightarrow> stateid r | None \<Rightarrow> 0) < (case nodes t p of Some r \<Rightarrow> stateid r | None \<Rightarrow> 0)) \<and>
       (\<forall>s \<in> set (succ r). nodes t s \<noteq> None \<and>
          (case nodes t p of Some r \<Rightarrow> stateid r | None \<Rightarrow> 0) < (case nodes t s of Some r \<Rightarrow> stateid r | None \<Rightarrow> 0))"
    using p by (fastforce simp: node_inv_def tables_ok_def)
qed

text \<open>An example: a branch that compares two bytes of a secret, with a solver that finds everything satisfiable.\<close>

definition example_queries :: queries where
  "example_queries = \<lparr>q_co = False, q_high = (\<lambda>a ix. Some (arr_name a = ''k'')), q_low = (\<lambda>a ix. Some False),
     q_mayBeTrue = (\<lambda>s e. Some True), q_inst = (\<lambda>s. 0)\<rparr>"

definition example_cond :: expr where
  "example_cond = BinaryExpr Ult (byte_of ''k'' 1) (byte_of ''k'' 2)"

lemma example_cond_ok:
  "boolean example_cond" "exprHasSymRegion (q_high example_queries) example_cond = Some True"
  "exprHasSymRegion (q_low example_queries) example_cond = Some False"
  "getProjectionOnRegion False (q_high example_queries) False example_cond = Some (Ult_create False (byte_of ''k'' 1) (byte_of ''k'' 2))"
  by (simp_all add: boolean_def example_cond_def example_queries_def exprHasSymRegion_def byte_of_def example_array_def
      ap_ok_def array_ok_def isConstantArray_def isSymbolicArray_def
      mergeAndCoalesce_def mergeAndCoalesce1_def coalasce_def canCoalesce_def rangesIntersect_def in_width_def Let_def)





text \<open>
  C4: the conditions that a branch records are sound. For a successor whose branch condition is a
  conjunction of conditions, the new node either has the branching node as its H-ancestor, a secret
  condition that follows from the branch condition and the public condition true, or it keeps the
  H-ancestor and the secret condition of the branching node and a public condition that follows from
  the old one and the branch condition.
\<close>

theorem recorded_conditions_sound:
  assumes "branchSuccessor Q c ii n (p, s, e) (t, marked) = Some (t', marked')" "nodes t c = Some cur" "nodes t p = None"
    and "\<not> q_co Q" "conjunction e" "boolean e" "boolean (LC cur)"
  shows "\<exists>r. nodes t' p = Some r \<and>
    (HA r = Some c \<and> LC r = expr_true \<and> (\<forall>env. eval e env = 1 \<longrightarrow> eval (HC r) env = 1) \<or>
     HA r = HA cur \<and> HC r = HC cur \<and> (\<forall>env. eval e env = 1 \<longrightarrow> eval (LC cur) env = 1 \<longrightarrow> eval (LC r) env = 1))"
proof -
  obtain r where r: "nodes t' p = Some r" and l: "successorLabels Q c s e (HA cur, HC cur, LC cur) = Some (HA r, HC r, LC r)"
    using branchSuccessor_labels(1) [OF assms(1-3)] by (auto simp: labels_of_def)
  have e: "wfe e" "getWidth e = 1"
    using assms(6) by (simp_all add: boolean_def)
  have proj: "\<forall>env. eval e env = 1 \<longrightarrow> eval pr env = 1" "boolean pr"
    if "getProjectionOnRegion (q_co Q) inSym False e = Some pr" for inSym pr
    using projection_conjunction [of inSym e pr] that assms(4,5) e by (simp_all add: boolean_def)
  have conj: "eval (And_create (LC cur) pr) env = 1" if "boolean pr" "eval (LC cur) env = 1" "eval pr env = 1" for pr env
    using eqvD [OF And_create_ok, of "LC cur" pr] assms(7) that by (simp add: boolean_def)
  obtain high low where hl: "exprHasSymRegion (q_high Q) e = Some high" "exprHasSymRegion (q_low Q) e = Some low"
    using l by (auto simp: successorLabels_def split: bind_splits)
  consider (secret) pr where "getProjectionOnRegion (q_co Q) (q_high Q) False e = Some pr" "HA r = Some c" "HC r = pr" "LC r = expr_true"
    | (public) pr where "getProjectionOnRegion (q_co Q) (q_low Q) False e = Some pr" "HA r = HA cur" "HC r = HC cur" "LC r = And_create (LC cur) pr"
    | (same) "HA r = HA cur" "HC r = HC cur" "LC r = LC cur"
    using l by (auto simp: successorLabels_def hl split: bind_splits if_splits)
  then have "HA r = Some c \<and> LC r = expr_true \<and> (\<forall>env. eval e env = 1 \<longrightarrow> eval (HC r) env = 1) \<or>
     HA r = HA cur \<and> HC r = HC cur \<and> (\<forall>env. eval e env = 1 \<longrightarrow> eval (LC cur) env = 1 \<longrightarrow> eval (LC r) env = 1)"
  proof cases
    case secret
    then show ?thesis
      using proj(1) [OF secret(1)] by simp
  next
    case public
    then show ?thesis
      using proj [OF public(1)] conj by simp
  next
    case same
    then show ?thesis
      by simp
  qed
  with r show ?thesis
    by blast
qed

lemma example_branchSuccessor:
  assumes "nodes t c = Some cur"
  shows "\<exists>t'. branchSuccessor example_queries c ii n (p, s, example_cond) (t, m) = Some (t', True)"
proof -
  have "q_co example_queries = False" "q_mayBeTrue example_queries s e = Some True" for e
    by (simp_all add: example_queries_def)
  with assms example_cond_ok(2-4) show ?thesis
    by (simp add: branchSuccessor_def Let_def)
qed

theorem recorded_conditions_sound_witness:
  "\<exists>t' r. branchSuccessor example_queries 7 5 2 (8, 2, example_cond) (initialTree example_queries 7 1, False) = Some (t', True) \<and>
    nodes t' 8 = Some r \<and>
    (HA r = Some 7 \<and> LC r = expr_true \<and> (\<forall>env. eval example_cond env = 1 \<longrightarrow> eval (HC r) env = 1) \<or> HA r = None)"
proof -
  let ?t = "initialTree example_queries 7 1"
  obtain cur where cur: "nodes ?t 7 = Some cur" "HA cur = None" "boolean (LC cur)" "nodes ?t 8 = None"
    by (simp add: initialTree_def enterNode_def newNode_def rdmapinsert_def boolean_def expr_true_def)
  obtain t' where t': "branchSuccessor example_queries 7 5 2 (8, 2, example_cond) (?t, False) = Some (t', True)"
    using example_branchSuccessor cur(1) by blast
  have "\<not> q_co example_queries" "conjunction example_cond"
    by (simp_all add: example_queries_def example_cond_def conjunction_def)
  with recorded_conditions_sound [OF t' cur(1,4)] cur(2,3) example_cond_ok(1) t' show ?thesis
    by auto
qed



end
