(* ===== verification/Analysis.thy ===== *)
theory Analysis
  imports TreeConditions Leakage
begin

text \<open>
  The analysis of the trees of an execution, from the first instruction to the reports: \<open>propagate\<close>
  on what the executor built (theory \<open>TreeBuild\<close>) and \<open>checkLeakage\<close> on the result. What propagation
  keeps of the tables of a node, and that the whole analysis ends without a failing assertion.
\<close>

section \<open>The tables during propagation\<close>

text \<open>
  The conditions of a node and of its recorded paths are Booleans, no key is recorded twice, and the
  recorded paths are among \<open>L\<close>, the leaves.
\<close>

definition conditions_ok :: "(exhash \<times> expr \<times> expr) list \<Rightarrow> bool" where
  "conditions_ok he \<longleftrightarrow> (\<forall>k h l. map_of he k = Some (h, l) \<longrightarrow> boolean h \<and> boolean l)"

definition paths_in :: "nat set \<Rightarrow> (exhash \<times> nat list) list \<Rightarrow> bool" where
  "paths_in L m \<longleftrightarrow> (\<forall>k. set (map_at [] m k) \<subseteq> L)"

definition record_ok :: "nat set \<Rightarrow> rd \<Rightarrow> bool" where
  "record_ok L r \<longleftrightarrow> boolean (HC r) \<and> boolean (LC r) \<and> distinct (map fst (Ru r)) \<and> conditions_ok (HE r) \<and> paths_in L (RDSet r)"

definition heap_ok :: "nat set \<Rightarrow> heap \<Rightarrow> bool" where
  "heap_ok L H \<longleftrightarrow> (\<forall>p r. H p = Some r \<longrightarrow> record_ok L r \<and> (succ r = [] \<longrightarrow> p \<in> L) \<and>
     (\<forall>a ra. HA r = Some a \<longrightarrow> H a = Some ra \<longrightarrow> isHBr ra))"

lemma heap_okD: "heap_ok L H \<Longrightarrow> H p = Some r \<Longrightarrow> record_ok L r"
  by (simp add: heap_ok_def)

lemma conditions_ok_insert:
  "conditions_ok he \<Longrightarrow> boolean h \<Longrightarrow> boolean l \<Longrightarrow> conditions_ok (map_insert k (h, l) he)"
  by (simp add: conditions_ok_def)

lemma paths_in_assign: "paths_in L m \<Longrightarrow> set ps \<subseteq> L \<Longrightarrow> paths_in L (map_assign k ps m)"
  by (simp add: paths_in_def map_at_def)

lemma paths_in_insert: "paths_in L m \<Longrightarrow> set ps \<subseteq> L \<Longrightarrow> paths_in L (map_insert k ps m)"
  by (simp add: paths_in_def map_at_def)

lemma paths_inD: "paths_in L m \<Longrightarrow> set (map_at [] m k) \<subseteq> L"
  unfolding paths_in_def by blast

lemma distinct_insert: "distinct (map fst m) \<Longrightarrow> distinct (map fst (map_insert k v m))"
  by (auto simp: map_insert_def keys_insort map_of_eq_None_iff distinct_insort)

lemma recordPath_record_ok:
  assumes "record_ok L a" "boolean (HC r)" "boolean (LC r)" "p \<in> L"
  shows "record_ok L (recordPath hv p r a)"
  using assms paths_inD [of L "RDSet a" "getHash hv (HC r) (LC r)"]
  by (simp add: record_ok_def recordPath_def Let_def conditions_ok_insert paths_in_assign distinct_insert)

lemma recordBranch_record_ok:
  "recordBranch hv R es bs r a = Some (r', a') \<Longrightarrow> record_ok L r \<Longrightarrow> record_ok L a \<Longrightarrow> record_ok L r' \<and> record_ok L a'"
proof (induction es arbitrary: bs r a)
  case (Cons e rest)
  obtain k Rs where e: "e = (k, Rs)"
    by (cases e)
  obtain hc lc blocks where k: "map_of (HE r) k = Some (hc, lc)" "map_of (bbm r) k = Some blocks"
    using Cons.prems(1) by (auto simp: e Let_def split: bind_splits)
  have b: "boolean hc" "boolean lc"
    using Cons.prems(2) k(1) unfolding record_ok_def conditions_ok_def by blast+
  let ?HC' = "And_create (HC r) hc" and ?LC' = "And_create (LC r) lc"
  let ?r' = "r\<lparr>RDSet := map_insert k [] (RDSet r), terminated := map_insert k 0 (terminated r)\<rparr>"
  let ?eh2 = "getHash hv ?HC' ?LC'" and ?bs = "set_union bs blocks"
  let ?a' = "a\<lparr>Ru := map_insert ?eh2 (combineRange R Rs) (Ru a),
            HE := map_insert ?eh2 (?HC', ?LC') (HE a),
            RDSet := map_assign ?eh2 (set_union (map_at [] (RDSet a) ?eh2) (map_at [] (RDSet r) k)) (RDSet a),
            terminated := map_assign ?eh2 (map_at 0 (terminated a) ?eh2 + map_at 0 (terminated r) k) (terminated a),
            bbm := map_insert ?eh2 ?bs (bbm a),
            lrets := fold (\<lambda>(h, e) m. map_insert h e m) (lrets r) (lrets a)\<rparr>"
  have "record_ok L ?r'"
    using Cons.prems(2) by (simp add: record_ok_def paths_in_insert)
  moreover have "set (set_union (map_at [] (RDSet a) ?eh2) (map_at [] (RDSet r) k)) \<subseteq> L"
    using Cons.prems(2,3) paths_inD unfolding record_ok_def by auto
  then have "record_ok L ?a'"
    using Cons.prems(2,3) b by (simp add: record_ok_def conditions_ok_insert paths_in_assign distinct_insert boolean_And)
  moreover have "recordBranch hv R rest ?bs ?r' ?a' = Some (r', a')"
    using Cons.prems(1) by (simp add: e k Let_def)
  ultimately show ?case
    using Cons.IH by blast
qed simp

text \<open>Updates that keep the links of the nodes keep the rest.\<close>

lemma heap_ok_update:
  assumes "heap_ok L H" "H p = Some r" "links r' = links r" "record_ok L r'"
  shows "heap_ok L (H(p \<mapsto> r'))"
  unfolding heap_ok_def
proof (intro allI impI conjI)
  have h: "isHBr r' = isHBr r" "HA r' = HA r" "succ r' = succ r"
    using assms(3) by (simp_all add: links_def)
  fix q x assume x: "(H(p \<mapsto> r')) q = Some x"
  show "record_ok L x"
    using x assms(1,4) by (cases "q = p") (auto simp: heap_ok_def)
  show "q \<in> L" if "succ x = []"
    using x assms(1,2) h that by (cases "q = p") (auto simp: heap_ok_def)
  fix a ra assume a: "HA x = Some a" "(H(p \<mapsto> r')) a = Some ra"
  obtain y where y: "H q = Some y" "HA y = HA x"
    using x assms(2) h by (cases "q = p") auto
  obtain rb where rb: "H a = Some rb" "isHBr rb = isHBr ra"
    using a(2) assms(2) h by (cases "a = p") auto
  show "isHBr ra"
    using assms(1) y rb a(1) unfolding heap_ok_def by metis
qed

lemma recordBranch_links:
  "recordBranch hv R es bs r a = Some (r', a') \<Longrightarrow> links r' = links r \<and> links a' = links a"
proof (induction es arbitrary: bs r a)
  case (Cons e rest)
  then show ?case
    by (cases e) (fastforce simp: Let_def links_def split: bind_splits)
qed simp

lemma climbStep_heap_ok:
  assumes "heap_ok L H" "climbStep hv H p = Some (H', pa)" "\<And>r. H p = Some r \<Longrightarrow> isHBr r \<or> p \<in> L"
  shows "heap_ok L H' \<and> (\<forall>a. H' pa = Some a \<longrightarrow> isHBr a)"
proof -
  obtain r a where r: "H p = Some r" "HA r = Some pa" "H pa = Some a"
    using assms(2) by (auto simp: climbStep_def Let_def split: bind_splits if_splits)
  note ok = heap_okD [OF assms(1) r(1)] heap_okD [OF assms(1) r(3)]
  have a: "isHBr a"
    using assms(1) r unfolding heap_ok_def by blast
  show ?thesis
  proof (cases "isHBr r")
    case False
    then have "H' = H(pa \<mapsto> recordPath hv p r a)"
      using assms(2) r by (simp add: climbStep_def Let_def)
    moreover have "record_ok L (recordPath hv p r a)"
      using recordPath_record_ok [OF ok(2)] ok(1) False assms(3) [OF r(1)] by (simp add: record_ok_def)
    ultimately show ?thesis
      using heap_ok_update [OF assms(1) r(3)] recordPath_ok(2) a by (simp add: recordPath_def Let_def)
  next
    case True
    let ?eh = "getHash hv (HC r) (LC r)"
    from True obtain r' a' where rb: "recordBranch hv (map_at noRange (Ru a) ?eh) (Ru r) (map_at [] (bbm a) ?eh) r a = Some (r', a')"
      "H' = H(p \<mapsto> r', pa \<mapsto> a')"
      using assms(2) r by (auto simp: climbStep_def Let_def split: bind_splits)
    note l = recordBranch_links [OF rb(1)] and k = recordBranch_record_ok [OF rb(1) ok]
    have 1: "heap_ok L (H(p \<mapsto> r'))"
      using heap_ok_update [OF assms(1) r(1)] l k by blast
    have "heap_ok L (H(p \<mapsto> r', pa \<mapsto> a'))"
    proof (cases "pa = p")
      case True
      then have "links a' = links r'"
        using r l by simp
      with True show ?thesis
        using heap_ok_update [OF 1, of pa r' a'] k by simp
    next
      case False
      then show ?thesis
        using heap_ok_update [OF 1, of pa a a'] r(3) l k by simp
    qed
    with rb(2) a l show ?thesis
      by (simp add: links_def)
  qed
qed

lemma climb_heap_ok:
  assumes "climb hv H p = Some H'" "heap_ok L H" "\<And>r. H p = Some r \<Longrightarrow> isHBr r \<or> p \<in> L"
  shows "heap_ok L H'"
proof -
  have "heap_ok L H \<longrightarrow> (\<forall>r. H p = Some r \<longrightarrow> isHBr r \<or> p \<in> L) \<longrightarrow> heap_ok L H'"
  proof (rule climb.raw_induct [OF _ assms(1)], intro impI)
    fix climb :: "(apint \<Rightarrow> 32 word) \<Rightarrow> heap \<Rightarrow> nat \<Rightarrow> heap option" and hv H p H'
    assume IH: "\<And>hv H p H'. climb hv H p = Some H' \<Longrightarrow> heap_ok L H \<longrightarrow> (\<forall>r. H p = Some r \<longrightarrow> isHBr r \<or> p \<in> L) \<longrightarrow> heap_ok L H'"
      and eq: "(case H p of None \<Rightarrow> None
        | Some r \<Rightarrow> if HAset r then Option.bind (climbStep hv H p) (\<lambda>(H', pa). climb hv H' pa) else Some H) = Some H'"
      and H: "heap_ok L H" "\<forall>r. H p = Some r \<longrightarrow> isHBr r \<or> p \<in> L"
    from eq obtain r where r: "H p = Some r"
      by (auto split: option.splits)
    show "heap_ok L H'"
    proof (cases "HAset r")
      case True
      with eq r obtain H1 pa where s: "climbStep hv H p = Some (H1, pa)" "climb hv H1 pa = Some H'"
        by (auto split: bind_splits)
      from climbStep_heap_ok [OF H(1) s(1)] H(2) have "heap_ok L H1" "\<forall>a. H1 pa = Some a \<longrightarrow> isHBr a"
        by blast+
      then show ?thesis
        using IH [OF s(2)] by blast
    next
      case False
      with eq r H show ?thesis
        by simp
    qed
  qed
  with assms(2,3) show ?thesis
    by blast
qed

lemma countSucc_heap_ok: "countSucc H p = Some H' \<Longrightarrow> heap_ok L H \<Longrightarrow> heap_ok L H'"
proof -
  assume c: "countSucc H p = Some H'" and H: "heap_ok L H"
  then obtain r where r: "H p = Some r" "H' = H(p \<mapsto> r\<lparr>finalized := finalized r + 1\<rparr>)"
    by (auto simp: countSucc_def split: bind_splits)
  moreover have "record_ok L (r\<lparr>finalized := finalized r + 1\<rparr>)"
    using heap_okD [OF H r(1)] by (simp add: record_ok_def)
  ultimately show ?thesis
    using heap_ok_update [OF H r(1)] by (simp add: links_def)
qed

lemma leaf_climb:
  assumes "(if succ r = [] then climb hv H p else Some H) = Some H'" "H p = Some r'" "succ r' = succ r" "heap_ok L H"
  shows "heap_ok L H'"
proof (cases "succ r = []")
  case True
  then have "p \<in> L"
    using assms(2-4) by (simp add: heap_ok_def)
  then show ?thesis
    using climb_heap_ok [OF _ assms(4)] assms(1) True by simp
next
  case False
  with assms show ?thesis
    by simp
qed

text \<open>The edges of a heap that evolves stay.\<close>

lemma propagate_heap_ok_steps:
  assumes "tree_ok lvl N H" "heap_ok L H" "edges_ok lvl H n es" "n \<le> N"
  shows "\<exists>H'. propagateEdges hv H es = Some H' \<and> heap_ok L H'"
  using assms
proof (induction "N - n" arbitrary: n es H rule: less_induct)
  case outer: less
  from outer.prems(1-3) show ?case
  proof (induction es arbitrary: H)
    case Nil
    then show ?case
      by (subst propagateEdges.simps) simp
  next
    case (Cons e es)
    obtain p s where e: "e = (p, s)"
      by fastforce
    with Cons.prems obtain r where r: "H p = Some r" "s \<in> set (succ r)" "n \<le> lvl p"
      by (auto simp: edges_ok_def)
    then obtain H0 where H0: "countSucc H p = Some H0" "tree_ok lvl N H0" "same_links H H0"
      using countSucc_ok Cons.prems(1) by blast
    then have ok0: "heap_ok L H0"
      using countSucc_heap_ok Cons.prems(2) by blast
    obtain rs where rs: "H0 s = Some rs" "lvl p < lvl s" "lvl s < N"
      using H0 tree_okD(4) [OF Cons.prems(1) r(1,2)] same_linksD tree_okD(1) by (metis not_None_eq)
    have es: "edges_ok lvl H0 (lvl s) (outEdges s rs)"
      using rs(1) by (auto simp: edges_ok_def outEdges_def)
    moreover have "N - lvl s < N - n" "lvl s \<le> N"
      using rs(2,3) r(3) by auto
    ultimately obtain H1 where H1: "propagateEdges hv H0 (outEdges s rs) = Some H1" "heap_ok L H1"
      using outer.hyps [of "lvl s" H0 "outEdges s rs"] H0(2) ok0 by blast
    have t1: "tree_ok lvl N H1" "same_links H0 H1"
      using propagateEdges_total [OF H0(2) es, of hv] rs(3) H1(1) by auto
    obtain rs1 where rs1: "H1 s = Some rs1" "succ rs1 = succ rs"
      using same_linksD [OF t1(2) rs(1)] by (auto simp: evolves_def links_def)
    obtain H2 where H2: "(if succ rs = [] then climb hv H1 s else Some H1) = Some H2" "tree_ok lvl N H2" "same_links H1 H2"
      using climb_total [OF t1(1), of s hv] rs1 t1(1) by (cases "succ rs = []") auto
    have ok2: "heap_ok L H2"
      using leaf_climb [OF H2(1) rs1 H1(2)] .
    have "same_links H H2"
      by (rule same_links_trans [OF same_links_trans [OF H0(3) t1(2)] H2(3)])
    moreover have "edges_ok lvl H n es"
      using Cons.prems(3) by (simp add: edges_ok_def)
    ultimately have "edges_ok lvl H2 n es"
      using edges_ok_links by blast
    then obtain H' where H': "propagateEdges hv H2 es = Some H'" "heap_ok L H'"
      using Cons.IH [OF H2(2) ok2] by blast
    moreover have "propagateEdges hv H (e # es) = propagateEdges hv H2 es"
      using H2(1) by (subst propagateEdges.simps) (simp add: e H0(1) rs(1) H1(1) split: if_splits)
    ultimately show ?case
      by simp
  qed
qed

lemma propagate_heap_ok:
  assumes "tree_ok lvl N H" "heap_ok L H" "propagate hv H p = Some H'"
  shows "heap_ok L H'"
proof -
  obtain r where r: "H p = Some r"
    using assms(3) by (auto simp: propagate_def split: bind_splits)
  have es: "edges_ok lvl H (lvl p) (outEdges p r)" "lvl p \<le> N"
    using r tree_okD(1) [OF assms(1) r] by (auto simp: edges_ok_def outEdges_def)
  obtain H1 where H1: "propagateEdges hv H (outEdges p r) = Some H1" "heap_ok L H1"
    using propagate_heap_ok_steps [OF assms(1,2) es] by blast
  have l: "same_links H H1"
    using propagateEdges_total [OF assms(1) es, of hv] H1(1) by auto
  obtain r1 where "H1 p = Some r1" "succ r1 = succ r"
    using same_linksD [OF l r] by (auto simp: evolves_def links_def)
  then show ?thesis
    using leaf_climb [OF _ _ _ H1(2)] assms(3) r H1(1) by (simp add: propagate_def)
qed

section \<open>The trees of an execution\<close>

abbreviation level :: "heap \<Rightarrow> nat \<Rightarrow> nat" where
  "level H p \<equiv> (case H p of Some r \<Rightarrow> stateid r | None \<Rightarrow> 0)"

lemma inv_heap_ok:
  assumes "inv t"
  shows "heap_ok {q. leaf (nodes t) q} (nodes t)"
  unfolding heap_ok_def
proof (intro allI impI conjI)
  fix p r assume p: "nodes t p = Some r"
  have n: "node_inv (nodes t) (rdid t) {} p r"
    by (rule invD(3) [OF assms p])
  then show "record_ok {q. leaf (nodes t) q} r"
    by (simp add: node_inv_def record_ok_def conditions_ok_def paths_in_def map_at_def)
  show "p \<in> {q. leaf (nodes t) q}" if "succ r = []"
    using p that by (simp add: leaf_def)
  fix a ra assume "HA r = Some a" "nodes t a = Some ra"
  with n show "isHBr ra"
    by (auto simp: node_inv_def)
qed

text \<open>Several roots, one after the other.\<close>

lemma postorder_total:
  "tree_ok lvl N H \<Longrightarrow> (\<And>p. p \<in> set ps \<Longrightarrow> H p \<noteq> None \<and> n \<le> lvl p) \<Longrightarrow> n \<le> N \<Longrightarrow>
   \<exists>qs. postorder H ps = Some qs \<and> (\<forall>q \<in> set qs. H q \<noteq> None)"
proof (induction "N - n" arbitrary: n ps rule: less_induct)
  case outer: less
  from outer.prems(2) show ?case
  proof (induction ps)
    case Nil
    then show ?case
      by (subst postorder.simps) simp
  next
    case (Cons p ps)
    then obtain r where r: "H p = Some r" "n \<le> lvl p"
      by auto
    then have N: "lvl p < N"
      using tree_okD(1) [OF outer.prems(1)] by blast
    have "H s \<noteq> None \<and> Suc (lvl p) \<le> lvl s" if "s \<in> set (succ r)" for s
      using tree_okD(4) [OF outer.prems(1) r(1) that] by simp
    moreover have "N - Suc (lvl p) < N - n" "Suc (lvl p) \<le> N"
      using r(2) N by auto
    ultimately obtain below where below: "postorder H (succ r) = Some below" "\<forall>q \<in> set below. H q \<noteq> None"
      using outer.hyps [of "Suc (lvl p)" "succ r"] outer.prems(1) by blast
    obtain others where "postorder H ps = Some others" "\<forall>q \<in> set others. H q \<noteq> None"
      using Cons by auto
    with r below show ?case
      by (subst postorder.simps) auto
  qed
qed

lemma checkNodes_total:
  assumes "exact A" "\<And>p r. H p = Some r \<Longrightarrow> node_ok H r"
  shows "(\<And>p. p \<in> set ps \<Longrightarrow> H p \<noteq> None) \<Longrightarrow> \<exists>st'. checkNodes A H ps st = Some st'"
proof (induction ps arbitrary: st)
  case Nil
  then show ?case
    by simp
next
  case (Cons p ps)
  have "H p \<noteq> None"
    using Cons.prems [of p] by simp
  then obtain r where r: "H p = Some r"
    by blast
  note ok = assms(2) [OF r]
  have "set (map fst (Ru r)) \<subseteq> dom (map_of (Ru r))" "distinct (map fst (Ru r))"
    using ok by (simp_all add: dom_map_of_conv_image_fst node_ok_def)
  then have "\<exists>st1. printLeakage A H p r st = Some st1"
    using printKeys_ok [OF assms(1) ok, of "map fst (Ru r)" p "fst st" "snd st"] by (auto simp: printLeakage_def)
  then obtain st1 where "(if length (Ru r) > 1 then printLeakage A H p r st else Some st) = Some st1"
    by (cases "length (Ru r) > 1") auto
  moreover have "\<exists>st'. checkNodes A H ps st1 = Some st'"
    by (rule Cons.IH) (use Cons.prems in simp)
  then obtain st' where "checkNodes A H ps st1 = Some st'"
    by blast
  ultimately show ?case
    using r by simp
qed

lemma heap_node_ok:
  assumes "tree_ok lvl N H" "heap_ok L H" "\<And>q. q \<in> L \<Longrightarrow> H q \<noteq> None" "H p = Some r"
  shows "node_ok H r"
proof -
  have r: "record_ok L r"
    by (rule heap_okD [OF assms(2,4)])
  have "\<forall>q \<in> set (map_at [] (RDSet r) k). H q \<noteq> None" for k
    using paths_inD [of L "RDSet r" k] r assms(3) by (auto simp: record_ok_def)
  moreover have "wfe h \<and> getWidth h = 1 \<and> wfe l \<and> getWidth l = 1" if "map_of (HE r) k = Some (h, l)" for k h l
    using r that unfolding record_ok_def conditions_ok_def boolean_def by blast
  ultimately show ?thesis
    using tree_okD(2) [OF assms(1,4)] r unfolding node_ok_def record_ok_def by blast
qed

lemma analyseRoots_total:
  assumes "exact A"
  shows "tree_ok lvl N H \<Longrightarrow> heap_ok L H \<Longrightarrow> (\<And>q. q \<in> L \<Longrightarrow> H q \<noteq> None) \<Longrightarrow> (\<And>p. p \<in> set roots \<Longrightarrow> H p \<noteq> None) \<Longrightarrow>
    \<exists>H' st'. analyseRoots hv A roots (H, st) = Some (H', st') \<and> tree_ok lvl N H' \<and> heap_ok L H' \<and> same_links H H'"
proof (induction roots arbitrary: H st)
  case Nil
  then show ?case
    by simp
next
  case (Cons p roots)
  obtain H1 where H1: "propagate hv H p = Some H1" "tree_ok lvl N H1" "same_links H H1"
    using propagate_total [OF Cons.prems(1), of p hv] Cons.prems(4) by auto
  have ok1: "heap_ok L H1"
    by (rule propagate_heap_ok [OF Cons.prems(1,2) H1(1)])
  have known: "H1 q \<noteq> None" if "H q \<noteq> None" for q
    using same_linksD [OF H1(3)] that by fastforce
  have p: "H1 p \<noteq> None"
    using known Cons.prems(4) by simp
  obtain qs where qs: "postorder H1 [p] = Some qs" "\<forall>q \<in> set qs. H1 q \<noteq> None"
    using postorder_total [OF H1(2), of "[p]" 0] p by auto
  have "\<And>p r. H1 p = Some r \<Longrightarrow> node_ok H1 r"
    using heap_node_ok [OF H1(2) ok1] known Cons.prems(3) by blast
  then obtain st1 where "checkNodes A H1 qs st = Some st1"
    using checkNodes_total [OF assms, of H1 qs st] qs(2) by blast
  then have c: "checkLeakage A H1 p st = Some st1"
    by (simp add: checkLeakage_def qs(1))
  obtain H' st' where H': "analyseRoots hv A roots (H1, st1) = Some (H', st')" "tree_ok lvl N H'" "heap_ok L H'" "same_links H1 H'"
    using Cons.IH [OF H1(2) ok1, of st1] known Cons.prems(3,4) by auto
  have "same_links H H'"
    by (rule same_links_trans [OF H1(3) H'(4)])
  with H' c show ?case
    by (cases st) (simp add: H1(1))
qed

lemma observed_has_successor:
  assumes "handleTimingObservationPoint Q s s' p None fname t = Some t1" "getrdmap t s = Some c" "nodes t p = None"
  shows "\<exists>r. nodes t1 c = Some r \<and> p \<in> set (succ r)"
proof -
  obtain cur where cur: "nodes t c = Some cur"
    using assms(1) by (auto simp: handleTimingObservationPoint_def assms(2) split: bind_splits)
  let ?t = "addSucc c p (enterNode Q p s' (observedNode fname cur) t)"
  obtain t2 where t2: "recordTimingObservationPoint p (HA cur) fname
      (?t\<lparr>timingObsPointProducerMap := map_assign p c (timingObsPointProducerMap ?t)\<rparr>) = Some t2" "terminateState s' True t2 = Some t1"
    using assms(1) by (auto simp: handleTimingObservationPoint_def assms(2) cur Let_def split: bind_splits)
  have "nodes t2 = nodes ?t"
    using recordTimingObservationPoint_fields [OF t2(1)] by auto
  then have "nodes t2 c = Some (cur\<lparr>succ := set_insert p (succ cur)\<rparr>)"
    by (simp add: attach_nodes [OF cur assms(3)])
  from growsD [OF terminateState_grows [OF t2(2)] this] show ?thesis
    by (auto simp: set_set_insert)
qed

section \<open>Properties\<close>





text \<open>
  C7: a state that passes a timing observation point and goes on with the same node is lost. Its node
  has got a successor, so it never is a leaf again, however the execution continues, and no node lists
  it among the recorded paths: the cost that it has when it ends is compared with nothing.
\<close>

theorem observed_path_lost:
  assumes "reached t" "nodes t p = None" "getrdmap t s = Some c"
    and "handleTimingObservationPoint Q s s' p None fname t = Some t1" "step\<^sup>*\<^sup>* t1 t2"
    and "propagate hv (nodes t2) rroot = Some H'" "H' a = Some ra"
  shows "\<not> leaf (nodes t2) c \<and> c \<notin> set (map_at [] (RDSet ra) k)"
proof -
  have inv: "inv t"
    using assms(1) by (rule reached_inv)
  have "inv t1"
    using handleTimingObservationPoint_inv [OF inv assms(2) _ assms(4)] by blast
  then have inv2: "inv t2" and g: "grows (nodes t1) (nodes t2)"
    using steps_inv [OF assms(5)] by blast+
  obtain r1 where r1: "nodes t1 c = Some r1" "p \<in> set (succ r1)"
    using observed_has_successor [OF assms(4,3,2)] by blast
  from growsD [OF g r1(1)] obtain r2 where "nodes t2 c = Some r2" "set (succ r1) \<subseteq> set (succ r2)"
    by blast
  with r1(2) have "\<not> leaf (nodes t2) c"
    by (auto simp: leaf_def)
  moreover have "heap_ok {q. leaf (nodes t2) q} H'"
    by (rule propagate_heap_ok [OF inv_tree_ok [OF inv2] inv_heap_ok [OF inv2] assms(6)])
  then have "set (map_at [] (RDSet ra) k) \<subseteq> {q. leaf (nodes t2) q}"
    using heap_okD [of "{q. leaf (nodes t2) q}" H' a ra] assms(7) paths_inD by (auto simp: record_ok_def)
  ultimately show ?thesis
    by blast
qed

theorem observed_path_lost_witness:
  "\<exists>t1 H' r. handleTimingObservationPoint example_queries 1 2 8 None ''ocall'' (initialTree example_queries 7 1) = Some t1 \<and>
    propagate (\<lambda>_. 0) (nodes t1) 7 = Some H' \<and> H' 8 = Some r \<and> \<not> leaf (nodes t1) 7 \<and> 7 \<notin> set (map_at [] (RDSet r) (0, 0))"
proof -
  let ?t = "initialTree example_queries 7 1"
  have t: "reached ?t"
    unfolding reached_def by blast
  have g: "getrdmap ?t 1 = Some 7" "nodes ?t 8 = None"
    by (simp_all add: initialTree_def enterNode_def newNode_def rdmapinsert_def getrdmap_def map_insert_def)
  obtain t1 where t1: "handleTimingObservationPoint example_queries 1 2 8 None ''ocall'' ?t = Some t1"
    using handleTimingObservationPoint_total [OF reached_inv [OF t] g, of 2 example_queries None "''ocall''"] by auto
  have inv: "inv t1"
    using handleTimingObservationPoint_inv [OF reached_inv [OF t] g(2) _ t1] by blast
  obtain r7 where r7: "nodes t1 7 = Some r7" "8 \<in> set (succ r7)"
    using observed_has_successor [OF t1 g] by blast
  then have "nodes t1 8 \<noteq> None"
    using tree_okD(4) [OF inv_tree_ok [OF inv]] by blast
  moreover obtain H' where H': "propagate (\<lambda>_. 0) (nodes t1) 7 = Some H'" "same_links (nodes t1) H'"
    using propagate_total [OF inv_tree_ok [OF inv], of 7] r7(1) by blast
  ultimately obtain r where r: "H' 8 = Some r"
    using same_linksD [OF H'(2)] by blast
  show ?thesis
    using observed_path_lost [OF t g(2,1) t1 rtranclp.rtrancl_refl H'(1) r] t1 H'(1) r by blast
qed

end
