(* ===== verification/ObjectState.thy ===== *)
theory ObjectState
  imports ExprEval
begin

text \<open>
  The contents of a memory object (\<open>lib/Core/Memory.cpp\<close>): bytes that are concrete, bytes that are
  known expressions, and bytes that are only in the update list of an array. The bit masks are lists,
  \<open>None\<close> where the code has a null pointer. A read may flush bytes and create the constant array, so
  it returns the changed state too. An assertion that fails is \<open>None\<close>. \<open>mem\<close> is the abstract memory:
  the value of each byte under an assignment.
\<close>

section \<open>State\<close>

record objstate =
  concreteStore :: "int list"
  concreteMask :: "bool list option"
  flushMask :: "bool list option"
  knownSymbolics :: "expr option list option"
  root :: "array option"
  head :: updates
  os_size :: nat

definition isByteConcrete :: "objstate \<Rightarrow> nat \<Rightarrow> bool" where
  "isByteConcrete os i = (case concreteMask os of None \<Rightarrow> True | Some m \<Rightarrow> m ! i)"

definition isByteFlushed :: "objstate \<Rightarrow> nat \<Rightarrow> bool" where
  "isByteFlushed os i = (case flushMask os of None \<Rightarrow> False | Some m \<Rightarrow> \<not> m ! i)"

definition knownSymbolic :: "objstate \<Rightarrow> nat \<Rightarrow> expr option" where
  "knownSymbolic os i = (case knownSymbolics os of None \<Rightarrow> None | Some ks \<Rightarrow> ks ! i)"

definition isByteKnownSymbolic :: "objstate \<Rightarrow> nat \<Rightarrow> bool" where
  "isByteKnownSymbolic os i = (knownSymbolic os i \<noteq> None)"

definition markByteConcrete :: "nat \<Rightarrow> objstate \<Rightarrow> objstate" where
  "markByteConcrete i os = os\<lparr>concreteMask := map_option (\<lambda>m. m[i := True]) (concreteMask os)\<rparr>"

definition markByteSymbolic :: "nat \<Rightarrow> objstate \<Rightarrow> objstate" where
  "markByteSymbolic i os =
     os\<lparr>concreteMask := Some ((case concreteMask os of None \<Rightarrow> replicate (os_size os) True | Some m \<Rightarrow> m)[i := False])\<rparr>"

definition markByteUnflushed :: "nat \<Rightarrow> objstate \<Rightarrow> objstate" where
  "markByteUnflushed i os = os\<lparr>flushMask := map_option (\<lambda>m. m[i := True]) (flushMask os)\<rparr>"

definition markByteFlushed :: "nat \<Rightarrow> objstate \<Rightarrow> objstate" where
  "markByteFlushed i os =
     os\<lparr>flushMask := Some (case flushMask os of None \<Rightarrow> replicate (os_size os) False | Some m \<Rightarrow> m[i := False])\<rparr>"

definition setKnownSymbolic :: "nat \<Rightarrow> expr option \<Rightarrow> objstate \<Rightarrow> objstate" where
  "setKnownSymbolic i v os =
     os\<lparr>knownSymbolics := (case knownSymbolics os of
          Some ks \<Rightarrow> Some (ks[i := v])
        | None \<Rightarrow> (if v \<noteq> None then Some ((replicate (os_size os) None)[i := v]) else None))\<rparr>"

section \<open>Making objects\<close>

text \<open>
  A concrete object of \<open>n\<close> bytes; without \<open>-use-constant-arrays\<close> it starts from the new symbolic array
  \<open>arr\<close>.
\<close>

definition concrete_object :: "nat \<Rightarrow> array option \<Rightarrow> objstate" where
  "concrete_object n arr =
     \<lparr>concreteStore = replicate n 0, concreteMask = None, flushMask = None, knownSymbolics = None, root = arr, head = UNil, os_size = n\<rparr>"

definition makeConcrete :: "objstate \<Rightarrow> objstate" where
  "makeConcrete os = os\<lparr>concreteMask := None, flushMask := None, knownSymbolics := None\<rparr>"

definition makeSymbolic :: "objstate \<Rightarrow> objstate option" where
  "makeSymbolic os =
     (if head os \<noteq> UNil then None
      else Some (fold (\<lambda>i os. markByteFlushed i (setKnownSymbolic i None (markByteSymbolic i os))) [0..<os_size os] os))"

definition symbolic_object :: "nat \<Rightarrow> array \<Rightarrow> objstate option" where
  "symbolic_object n arr = makeSymbolic (concrete_object n (Some arr))"

definition initializeToZero :: "objstate \<Rightarrow> objstate" where
  "initializeToZero os = (makeConcrete os)\<lparr>concreteStore := replicate (os_size os) 0\<rparr>"

definition initializeToRandom :: "objstate \<Rightarrow> objstate" where
  "initializeToRandom os = (makeConcrete os)\<lparr>concreteStore := replicate (os_size os) 0xAB\<rparr>"

section \<open>The update list\<close>

text \<open>\<open>UpdateList::extend\<close>, with its assertions when there is an array.\<close>

definition extend :: "expr \<Rightarrow> expr \<Rightarrow> objstate \<Rightarrow> objstate option" where
  "extend ix v os =
     (if \<forall>a. root os = Some a \<longrightarrow> arr_domain a = getWidth ix \<and> arr_range a = getWidth v
      then Some (os\<lparr>head := UpdateNode ix v (head os)\<rparr>) else None)"

text \<open>The writes, oldest first, and the concrete ones at their beginning put into the contents of the array.\<close>

fun writes :: "updates \<Rightarrow> (expr \<times> expr) list" where
  "writes UNil = []"
| "writes (UpdateNode ix v n) = writes n @ [(ix, v)]"

fun pull_concrete :: "(expr \<times> expr) list \<Rightarrow> apint list \<Rightarrow> apint list \<times> (expr \<times> expr) list" where
  "pull_concrete [] contents = (contents, [])"
| "pull_concrete ((ix, v) # ws) contents =
     (case (as_const ix, as_const v) of
        (Some i, Some c) \<Rightarrow> pull_concrete ws (contents[nat (apval i) := c])
      | _ \<Rightarrow> (contents, (ix, v) # ws))"

fun apply_writes :: "(expr \<times> expr) list \<Rightarrow> objstate \<Rightarrow> objstate option" where
  "apply_writes [] os = Some os"
| "apply_writes ((ix, v) # ws) os = Option.bind (extend ix v os) (apply_writes ws)"

text \<open>\<open>getUpdates\<close>; the new array gets the address \<open>ptr\<close> and the name \<open>nm\<close>.\<close>

definition getUpdates :: "nat \<times> string \<Rightarrow> objstate \<Rightarrow> objstate option" where
  "getUpdates fresh os =
     (case root os of
        Some a \<Rightarrow> Some os
      | None \<Rightarrow>
          (let (contents, ws) = pull_concrete (writes (head os)) (replicate (os_size os) (ce_alloc 0 8));
               arr = \<lparr>arr_ptr = fst fresh, arr_name = snd fresh, arr_size = os_size os, arr_domain = 32, arr_range = 8,
                      constantValues = contents\<rparr>
           in apply_writes ws (os\<lparr>root := Some arr, head := UNil\<rparr>)))"

definition const32 :: "nat \<Rightarrow> expr" where
  "const32 i = ConstantExpr (ce_alloc (int i) 32)"

definition const8 :: "int \<Rightarrow> expr" where
  "const8 v = ConstantExpr (ce_alloc v 8)"

text \<open>A byte that is not flushed goes to the update list.\<close>

definition flushByte :: "nat \<Rightarrow> objstate \<Rightarrow> objstate option" where
  "flushByte i os =
     (if isByteConcrete os i then extend (const32 i) (const8 (concreteStore os ! i)) os
      else case knownSymbolic os i of None \<Rightarrow> None | Some e \<Rightarrow> extend (const32 i) e os)"

definition makeFlushMask :: "objstate \<Rightarrow> objstate" where
  "makeFlushMask os = (if flushMask os = None then os\<lparr>flushMask := Some (replicate (os_size os) True)\<rparr> else os)"

definition flushForRead :: "nat \<Rightarrow> objstate \<Rightarrow> objstate option" where
  "flushForRead i os = (if isByteFlushed os i then Some os else map_option (markByteFlushed i) (flushByte i os))"

definition flushForWrite :: "nat \<Rightarrow> objstate \<Rightarrow> objstate option" where
  "flushForWrite i os =
     (let drop = (\<lambda>os. if isByteConcrete os i then markByteSymbolic i os
                      else if isByteKnownSymbolic os i then setKnownSymbolic i None os else os)
      in if isByteFlushed os i then Some (drop os) else map_option (markByteFlushed i \<circ> drop) (flushByte i os))"

fun each :: "(nat \<Rightarrow> objstate \<Rightarrow> objstate option) \<Rightarrow> nat list \<Rightarrow> objstate \<Rightarrow> objstate option" where
  "each f [] os = Some os"
| "each f (i # is) os = Option.bind (f i os) (each f is)"

text \<open>\<open>fastRangeCheckOffset\<close> takes the whole object for every offset.\<close>

definition flushRangeForRead :: "nat \<Rightarrow> nat \<Rightarrow> objstate \<Rightarrow> objstate option" where
  "flushRangeForRead base n os = each flushForRead [base..<base + n] (makeFlushMask os)"

definition flushRangeForWrite :: "nat \<Rightarrow> nat \<Rightarrow> objstate \<Rightarrow> objstate option" where
  "flushRangeForWrite base n os = each flushForWrite [base..<base + n] (makeFlushMask os)"

section \<open>Bytes\<close>

text \<open>Reading an array of which the update list is known to have one.\<close>

definition read_updates :: "nat \<times> string \<Rightarrow> expr \<Rightarrow> objstate \<Rightarrow> (expr \<times> objstate) option" where
  "read_updates fresh ix os =
     Option.bind (getUpdates fresh os) (\<lambda>os'. Option.bind (root os') (\<lambda>a. Some (Read_create False a (head os') ix, os')))"

definition read8 :: "nat \<times> string \<Rightarrow> nat \<Rightarrow> objstate \<Rightarrow> (expr \<times> objstate) option" where
  "read8 fresh i os =
     (if isByteConcrete os i then Some (const8 (concreteStore os ! i), os)
      else case knownSymbolic os i of
          Some e \<Rightarrow> Some (e, os)
        | None \<Rightarrow> (if isByteFlushed os i then read_updates fresh (const32 i) os else None))"

definition read8_at :: "nat \<times> string \<Rightarrow> expr \<Rightarrow> objstate \<Rightarrow> (expr \<times> objstate) option" where
  "read8_at fresh offset os =
     (if as_const offset \<noteq> None then None
      else Option.bind (flushRangeForRead 0 (os_size os) os) (read_updates fresh (ZExt_create offset 32)))"

definition write8_byte :: "nat \<Rightarrow> int \<Rightarrow> objstate \<Rightarrow> objstate" where
  "write8_byte i v os =
     markByteUnflushed i (markByteConcrete i (setKnownSymbolic i None (os\<lparr>concreteStore := (concreteStore os)[i := take_bit 8 v]\<rparr>)))"

definition write8 :: "nat \<Rightarrow> expr \<Rightarrow> objstate \<Rightarrow> objstate option" where
  "write8 i v os =
     (case as_const v of
        Some c \<Rightarrow> map_option (\<lambda>x. write8_byte i x os) (ce_getZExtValue 8 c)
      | None \<Rightarrow> Some (markByteUnflushed i (markByteSymbolic i (setKnownSymbolic i (Some v) os))))"

definition write8_at :: "expr \<Rightarrow> expr \<Rightarrow> objstate \<Rightarrow> objstate option" where
  "write8_at offset v os =
     (if as_const offset \<noteq> None then None
      else Option.bind (flushRangeForWrite 0 (os_size os) os) (extend (ZExt_create offset 32) v))"

section \<open>Values\<close>

text \<open>The bytes of a value of \<open>n\<close> bytes, the least significant first; \<open>le\<close> is \<open>isLittleEndian\<close>.\<close>

definition byte_index :: "bool \<Rightarrow> nat \<Rightarrow> nat \<Rightarrow> nat" where
  "byte_index le n i = (if le then i else n - i - 1)"

primrec concat_bytes ::
  "(nat \<Rightarrow> objstate \<Rightarrow> (expr \<times> objstate) option) \<Rightarrow> nat \<Rightarrow> objstate \<Rightarrow> (expr option \<times> objstate) option" where
  "concat_bytes rd 0 os = Some (None, os)"
| "concat_bytes rd (Suc i) os =
     Option.bind (concat_bytes rd i os) (\<lambda>(res, os').
     Option.bind (rd i os') (\<lambda>(b, os'').
     Some (Some (case res of None \<Rightarrow> b | Some r \<Rightarrow> Concat_create b r), os'')))"

text \<open>A value of the width \<open>w\<close>, of which \<open>rd\<close> reads the bytes; a Boolean is the lowest bit of a byte.\<close>

definition read_value ::
  "(nat \<Rightarrow> objstate \<Rightarrow> (expr \<times> objstate) option) \<Rightarrow> bool \<Rightarrow> nat \<Rightarrow> objstate \<Rightarrow> (expr \<times> objstate) option" where
  "read_value rd le w os =
     (if w = 1 then map_option (\<lambda>(b, os'). (Extract_create b 0 1, os')) (rd 0 os)
      else if w \<noteq> w div 8 * 8 then None
      else Option.bind (concat_bytes (\<lambda>i. rd (byte_index le (w div 8) i)) (w div 8) os) (\<lambda>(res, os').
           map_option (\<lambda>e. (e, os')) res))"

definition read_const :: "nat \<times> string \<Rightarrow> bool \<Rightarrow> nat \<Rightarrow> nat \<Rightarrow> objstate \<Rightarrow> (expr \<times> objstate) option" where
  "read_const fresh le offset w os = read_value (\<lambda>i. read8 fresh (offset + i)) le w os"

definition add_offset :: "expr \<Rightarrow> nat \<Rightarrow> expr" where
  "add_offset offset i = Add_create False offset (const32 i)"

definition read_at :: "nat \<times> string \<Rightarrow> bool \<Rightarrow> expr \<Rightarrow> nat \<Rightarrow> objstate \<Rightarrow> (expr \<times> objstate) option" where
  "read_at fresh le offset0 w os =
     (let offset = ZExt_create offset0 32
      in case as_const offset of
           Some c \<Rightarrow> Option.bind (ce_getZExtValue 32 c) (\<lambda>off. read_const fresh le (nat off) w os)
         | None \<Rightarrow>
             (if w = 1 then map_option (\<lambda>(b, os'). (Extract_create b 0 1, os')) (read8_at fresh offset os)
              else read_value (\<lambda>i. read8_at fresh (add_offset offset i)) le w os))"

text \<open>Constants of 8, 16, 32 and 64 bits are written byte by byte.\<close>

primrec write_bytes :: "bool \<Rightarrow> nat \<Rightarrow> nat \<Rightarrow> int \<Rightarrow> nat \<Rightarrow> objstate \<Rightarrow> objstate" where
  "write_bytes le offset n v 0 os = os"
| "write_bytes le offset n v (Suc i) os = write8_byte (offset + byte_index le n i) (drop_bit (8 * i) v) (write_bytes le offset n v i os)"

primrec split_bytes :: "(nat \<Rightarrow> expr \<Rightarrow> objstate \<Rightarrow> objstate option) \<Rightarrow> expr \<Rightarrow> nat \<Rightarrow> objstate \<Rightarrow> objstate option" where
  "split_bytes wr v 0 os = Some os"
| "split_bytes wr v (Suc i) os = Option.bind (split_bytes wr v i os) (wr i (Extract_create v (8 * i) 8))"

definition write_value :: "(nat \<Rightarrow> expr \<Rightarrow> objstate \<Rightarrow> objstate option) \<Rightarrow> bool \<Rightarrow> expr \<Rightarrow> objstate \<Rightarrow> objstate option" where
  "write_value wr le v os =
     (let w = getWidth v
      in if w = 1 then wr 0 (ZExt_create v 8) os
         else if w \<noteq> w div 8 * 8 then None
         else split_bytes (\<lambda>i. wr (byte_index le (w div 8) i)) v (w div 8) os)"

definition write_const :: "bool \<Rightarrow> nat \<Rightarrow> expr \<Rightarrow> objstate \<Rightarrow> objstate option" where
  "write_const le offset v os =
     (case as_const v of
        Some c \<Rightarrow>
          (if bitWidth c \<in> {1, 2, 4, 8, 16, 32, 64}
           then Option.bind (ce_getZExtValue 64 c) (\<lambda>x.
             if bitWidth c \<le> 8 then (if bitWidth c = 1 \<or> bitWidth c = 8 then Some (write8_byte offset x os) else None)
             else Some (write_bytes le offset (bitWidth c div 8) x (bitWidth c div 8) os))
           else write_value (\<lambda>i. write8 (offset + i)) le v os)
      | None \<Rightarrow> write_value (\<lambda>i. write8 (offset + i)) le v os)"

definition write_at :: "bool \<Rightarrow> expr \<Rightarrow> expr \<Rightarrow> objstate \<Rightarrow> objstate option" where
  "write_at le offset0 v os =
     (let offset = ZExt_create offset0 32
      in case as_const offset of
           Some c \<Rightarrow> Option.bind (ce_getZExtValue 32 c) (\<lambda>off. write_const le (nat off) v os)
         | None \<Rightarrow>
             (if getWidth v = 1 then write8_at offset (ZExt_create v 8) os
              else write_value (\<lambda>i. write8_at (add_offset offset i)) le v os))"

text \<open>\<open>flushToConcreteStore\<close>: known symbolic bytes get the values that the solver chooses.\<close>

definition flushToConcreteStore :: "(expr \<Rightarrow> apint option) \<Rightarrow> objstate \<Rightarrow> objstate" where
  "flushToConcreteStore getValue os =
     os\<lparr>concreteStore := map (\<lambda>i. case knownSymbolic os i of
          None \<Rightarrow> concreteStore os ! i
        | Some e \<Rightarrow> (case getValue e of None \<Rightarrow> concreteStore os ! i | Some c \<Rightarrow> take_bit 8 (apval c))) [0..<os_size os]\<rparr>"

section \<open>The abstract memory\<close>

text \<open>What an update list makes of the contents \<open>base\<close> of its array.\<close>

primrec upd_val :: "updates \<Rightarrow> (int \<Rightarrow> int) \<Rightarrow> env \<Rightarrow> int \<Rightarrow> int" where
  "upd_val UNil base env i = base i"
| "upd_val (UpdateNode ix v n) base env i = (if eval ix env = i then eval v env else upd_val n base env i)"

definition base_val :: "env \<Rightarrow> objstate \<Rightarrow> int \<Rightarrow> int" where
  "base_val env os = (case root os of Some a \<Rightarrow> initial env a | None \<Rightarrow> (\<lambda>i. 0))"

definition flushed_val :: "env \<Rightarrow> objstate \<Rightarrow> nat \<Rightarrow> int" where
  "flushed_val env os i = upd_val (head os) (base_val env os) env (int i)"

definition mem :: "env \<Rightarrow> objstate \<Rightarrow> nat \<Rightarrow> int" where
  "mem env os i =
     (if isByteConcrete os i then concreteStore os ! i
      else case knownSymbolic os i of Some e \<Rightarrow> eval e env | None \<Rightarrow> flushed_val env os i)"

lemma eval_upd_val: "eval_upd u env a i = upd_val u (initial env a) env i"
  by (induction u arbitrary: i rule: updates.induct [where ?P1.0 = "\<lambda>_. True"]) simp_all

text \<open>Arrays and update lists of bytes.\<close>

definition byte_array :: "array \<Rightarrow> bool" where
  "byte_array a \<longleftrightarrow> array_ok a \<and> arr_domain a = 32 \<and> arr_range a = 8"

definition byte_writes :: "(expr \<times> expr) list \<Rightarrow> bool" where
  "byte_writes ws \<longleftrightarrow> list_all (\<lambda>(ix, v). wfe ix \<and> getWidth ix = 32 \<and> wfe v \<and> getWidth v = 8) ws"

text \<open>No write at a constant index is outside of the object.\<close>

definition bounded :: "nat \<Rightarrow> (expr \<times> expr) list \<Rightarrow> bool" where
  "bounded n ws \<longleftrightarrow> list_all (\<lambda>(ix, v). \<forall>c. ix = ConstantExpr c \<longrightarrow> nat (apval c) < n) ws"

lemma wfu_writes: "byte_array a \<Longrightarrow> byte_writes (writes u) \<Longrightarrow> wfu u a"
  by (induction u rule: updates.induct [where ?P1.0 = "\<lambda>_. True"]) (auto simp: byte_array_def byte_writes_def)

text \<open>The masks and lists have the size of the object.\<close>

definition shape_ok :: "objstate \<Rightarrow> bool" where
  "shape_ok os \<longleftrightarrow> length (concreteStore os) = os_size os \<and> os_size os < 2 ^ 32 \<and>
     (\<forall>m. concreteMask os = Some m \<longrightarrow> length m = os_size os) \<and> (\<forall>m. flushMask os = Some m \<longrightarrow> length m = os_size os) \<and>
     (\<forall>ks. knownSymbolics os = Some ks \<longrightarrow> length ks = os_size os)"

definition obj_ok :: "objstate \<Rightarrow> bool" where
  "obj_ok os \<longleftrightarrow> shape_ok os \<and> list_all (in_width 8) (concreteStore os) \<and> (\<forall>a. root os = Some a \<longrightarrow> byte_array a) \<and>
     byte_writes (writes (head os)) \<and> bounded (os_size os) (writes (head os)) \<and>
     (\<forall>i < os_size os.
       (\<forall>e. knownSymbolic os i = Some e \<longrightarrow> wfe e \<and> getWidth e = 8 \<and> \<not> isByteConcrete os i) \<and>
       (\<not> isByteFlushed os i \<longrightarrow> isByteConcrete os i \<or> isByteKnownSymbolic os i) \<and>
       (isByteFlushed os i \<longrightarrow> (\<forall>env. flushed_val env os i = mem env os i)))"

lemma obj_okD:
  assumes "obj_ok os"
  shows "shape_ok os" "list_all (in_width 8) (concreteStore os)" "root os = Some a \<Longrightarrow> byte_array a"
    "byte_writes (writes (head os))" "bounded (os_size os) (writes (head os))"
    "i < os_size os \<Longrightarrow> knownSymbolic os i = Some e \<Longrightarrow> wfe e \<and> getWidth e = 8 \<and> \<not> isByteConcrete os i"
    "i < os_size os \<Longrightarrow> \<not> isByteFlushed os i \<Longrightarrow> isByteConcrete os i \<or> isByteKnownSymbolic os i"
    "i < os_size os \<Longrightarrow> isByteFlushed os i \<Longrightarrow> flushed_val env os i = mem env os i"
  using assms unfolding obj_ok_def by blast+

section \<open>The marks\<close>

lemmas mark_defs = markByteConcrete_def markByteSymbolic_def markByteUnflushed_def markByteFlushed_def setKnownSymbolic_def

lemma mark_fields [simp]:
  "root (markByteConcrete i os) = root os" "root (markByteSymbolic i os) = root os" "root (markByteUnflushed i os) = root os"
  "root (markByteFlushed i os) = root os" "root (setKnownSymbolic i v os) = root os"
  "head (markByteConcrete i os) = head os" "head (markByteSymbolic i os) = head os" "head (markByteUnflushed i os) = head os"
  "head (markByteFlushed i os) = head os" "head (setKnownSymbolic i v os) = head os"
  "os_size (markByteConcrete i os) = os_size os" "os_size (markByteSymbolic i os) = os_size os" "os_size (markByteUnflushed i os) = os_size os"
  "os_size (markByteFlushed i os) = os_size os" "os_size (setKnownSymbolic i v os) = os_size os"
  "concreteStore (markByteConcrete i os) = concreteStore os" "concreteStore (markByteSymbolic i os) = concreteStore os"
  "concreteStore (markByteUnflushed i os) = concreteStore os" "concreteStore (markByteFlushed i os) = concreteStore os"
  "concreteStore (setKnownSymbolic i v os) = concreteStore os"
  by (simp_all add: mark_defs)

lemma mark_shape [simp]:
  "shape_ok os \<Longrightarrow> shape_ok (markByteConcrete i os)" "shape_ok os \<Longrightarrow> shape_ok (markByteSymbolic i os)"
  "shape_ok os \<Longrightarrow> shape_ok (markByteUnflushed i os)" "shape_ok os \<Longrightarrow> shape_ok (markByteFlushed i os)"
  "shape_ok os \<Longrightarrow> shape_ok (setKnownSymbolic i v os)"
  by (auto simp: shape_ok_def mark_defs split: option.splits)

lemma marks_elsewhere [simp]:
  "isByteConcrete (markByteUnflushed i os) j = isByteConcrete os j" "isByteConcrete (markByteFlushed i os) j = isByteConcrete os j"
  "isByteConcrete (setKnownSymbolic i v os) j = isByteConcrete os j"
  "isByteFlushed (markByteConcrete i os) j = isByteFlushed os j" "isByteFlushed (markByteSymbolic i os) j = isByteFlushed os j"
  "isByteFlushed (setKnownSymbolic i v os) j = isByteFlushed os j"
  "knownSymbolic (markByteConcrete i os) j = knownSymbolic os j" "knownSymbolic (markByteSymbolic i os) j = knownSymbolic os j"
  "knownSymbolic (markByteUnflushed i os) j = knownSymbolic os j" "knownSymbolic (markByteFlushed i os) j = knownSymbolic os j"
  by (simp_all add: isByteConcrete_def isByteFlushed_def knownSymbolic_def mark_defs)

lemma marks [simp]:
  assumes "shape_ok os" "i < os_size os" "j < os_size os"
  shows "isByteConcrete (markByteConcrete i os) j \<longleftrightarrow> j = i \<or> isByteConcrete os j"
    "isByteConcrete (markByteSymbolic i os) j \<longleftrightarrow> j \<noteq> i \<and> isByteConcrete os j"
    "isByteFlushed (markByteUnflushed i os) j \<longleftrightarrow> j \<noteq> i \<and> isByteFlushed os j"
    "flushMask os \<noteq> None \<Longrightarrow> isByteFlushed (markByteFlushed i os) j \<longleftrightarrow> j = i \<or> isByteFlushed os j"
    "knownSymbolic (setKnownSymbolic i v os) j = (if j = i then v else knownSymbolic os j)"
  using assms
  by (auto simp: isByteConcrete_def isByteFlushed_def knownSymbolic_def mark_defs shape_ok_def nth_list_update split: option.splits)

lemma base_val_cong: "root os = root os' \<Longrightarrow> base_val env os = base_val env os'"
  by (simp add: base_val_def)

lemma flushed_val_cong: "root os = root os' \<Longrightarrow> head os = head os' \<Longrightarrow> flushed_val env os i = flushed_val env os' i"
  by (simp add: flushed_val_def base_val_def)

section \<open>Constants and extension\<close>

lemma const32_ok [simp]: "wfe (const32 i)" "getWidth (const32 i) = 32" "as_const (const32 i) = Some (ce_alloc (int i) 32)"
  by (simp_all add: const32_def ap_ok_def ce_alloc_def)

lemma eval_const32 [simp]: "i < 2 ^ 32 \<Longrightarrow> eval (const32 i) env = int i"
  by (simp add: const32_def ce_alloc_def take_bit_int_eq_self_iff)

lemma const8_ok [simp]: "wfe (const8 v)" "getWidth (const8 v) = 8" "in_width 8 v \<Longrightarrow> eval (const8 v) env = v"
  by (simp_all add: const8_def ap_ok_def ce_alloc_def)

text \<open>A write that fits the array is added in front of the others.\<close>

lemma extend_ok:
  assumes "\<And>a. root os = Some a \<Longrightarrow> byte_array a" "getWidth ix = 32" "getWidth v = 8"
  shows "extend ix v os = Some (os\<lparr>head := UpdateNode ix v (head os)\<rparr>)"
  using assms by (auto simp: extend_def byte_array_def)

lemma extended_val:
  "flushed_val env (os\<lparr>head := UpdateNode ix v (head os)\<rparr>) i = (if eval ix env = int i then eval v env else flushed_val env os i)"
  by (simp add: flushed_val_def base_val_def)

lemma extended_marks [simp]:
  "isByteConcrete (os\<lparr>head := u\<rparr>) i = isByteConcrete os i" "isByteFlushed (os\<lparr>head := u\<rparr>) i = isByteFlushed os i"
  "knownSymbolic (os\<lparr>head := u\<rparr>) i = knownSymbolic os i" "shape_ok (os\<lparr>head := u\<rparr>) = shape_ok os"
  "isByteConcrete (os\<lparr>root := r\<rparr>) i = isByteConcrete os i" "isByteFlushed (os\<lparr>root := r\<rparr>) i = isByteFlushed os i"
  "knownSymbolic (os\<lparr>root := r\<rparr>) i = knownSymbolic os i" "shape_ok (os\<lparr>root := r\<rparr>) = shape_ok os"
  by (simp_all add: isByteConcrete_def isByteFlushed_def knownSymbolic_def shape_ok_def)

lemma isByteKnownSymbolic_simp: "isByteKnownSymbolic os i \<longleftrightarrow> (\<exists>e. knownSymbolic os i = Some e)"
  by (simp add: isByteKnownSymbolic_def)

text \<open>The value that a byte is flushed with.\<close>

lemma flushByte_ok:
  assumes os: "obj_ok os" and i: "i < os_size os" "isByteConcrete os i \<or> isByteKnownSymbolic os i"
  shows "\<exists>v. flushByte i os = Some (os\<lparr>head := UpdateNode (const32 i) v (head os)\<rparr>) \<and> wfe v \<and> getWidth v = 8 \<and>
    (\<forall>env. eval v env = mem env os i)"
proof (cases "isByteConcrete os i")
  case True
  have "i < length (concreteStore os)"
    using obj_okD(1) [OF os] i(1) by (simp add: shape_ok_def)
  then have "in_width 8 (concreteStore os ! i)"
    using obj_okD(2) [OF os] by (simp add: list_all_length)
  with True show ?thesis
    using extend_ok [OF obj_okD(3) [OF os]] by (auto simp: flushByte_def mem_def)
next
  case False
  with i obtain e where e: "knownSymbolic os i = Some e"
    by (auto simp: isByteKnownSymbolic_def)
  with False show ?thesis
    using obj_okD(6) [OF os i(1) e] extend_ok [OF obj_okD(3) [OF os]] by (auto simp: flushByte_def mem_def)
qed

text \<open>A state with the same memory, in which more is flushed.\<close>

definition same_mem :: "objstate \<Rightarrow> objstate \<Rightarrow> bool" where
  "same_mem os os' \<longleftrightarrow> os_size os' = os_size os \<and> (\<forall>i < os_size os. \<forall>env. mem env os' i = mem env os i)"

lemma same_mem_refl [simp]: "same_mem os os"
  by (simp add: same_mem_def)

lemma same_mem_trans: "same_mem os os' \<Longrightarrow> same_mem os' os'' \<Longrightarrow> same_mem os os''"
  by (simp add: same_mem_def)

lemma flushForRead_ok:
  assumes os: "obj_ok os" and i: "i < os_size os" and m: "flushMask os \<noteq> None"
  shows "\<exists>os'. flushForRead i os = Some os' \<and> obj_ok os' \<and> same_mem os os' \<and> flushMask os' \<noteq> None \<and>
    (\<forall>j < os_size os. isByteFlushed os' j \<longleftrightarrow> j = i \<or> isByteFlushed os j) \<and>
    (\<forall>j. isByteConcrete os' j = isByteConcrete os j \<and> knownSymbolic os' j = knownSymbolic os j)"
proof (cases "isByteFlushed os i")
  case True
  then show ?thesis
    using os m by (auto simp: flushForRead_def)
next
  case False
  obtain v where v: "flushByte i os = Some (os\<lparr>head := UpdateNode (const32 i) v (head os)\<rparr>)" "wfe v" "getWidth v = 8"
    "\<And>env. eval v env = mem env os i"
    using flushByte_ok [OF os i obj_okD(7) [OF os i False]] by blast
  let ?os1 = "os\<lparr>head := UpdateNode (const32 i) v (head os)\<rparr>"
  define os' where "os' = markByteFlushed i ?os1"
  note s = obj_okD(1) [OF os]
  have i32: "i < 2 ^ 32"
    using s i by (simp add: shape_ok_def)
  have fl: "isByteFlushed os' j \<longleftrightarrow> j = i \<or> isByteFlushed os j" if "j < os_size os" for j
    using that s i m by (simp add: os'_def)
  have fv: "flushed_val env os' j = (if j = i then mem env os i else flushed_val env os j)" for env j
  proof -
    have "flushed_val env os' j = flushed_val env ?os1 j"
      by (rule flushed_val_cong) (simp_all add: os'_def)
    then show ?thesis
      using i32 v(4) by (simp add: extended_val)
  qed
  have mem: "mem env os' j = mem env os j" if j: "j < os_size os" for env j
  proof (cases "isByteConcrete os j \<or> isByteKnownSymbolic os j")
    case True
    then show ?thesis
      by (auto simp: mem_def os'_def isByteKnownSymbolic_def)
  next
    case nf: False
    then have "j \<noteq> i"
      using obj_okD(7) [OF os i False] by auto
    then have "flushed_val env os' j = flushed_val env os j"
      by (simp add: fv)
    with nf show ?thesis
      by (simp add: mem_def os'_def isByteKnownSymbolic_def)
  qed
  have "obj_ok os'"
    unfolding obj_ok_def
  proof (intro conjI allI impI)
    fix j assume j: "j < os_size os'"
    then have j': "j < os_size os"
      by (simp add: os'_def)
    show "wfe e" "getWidth e = 8" "\<not> isByteConcrete os' j" if "knownSymbolic os' j = Some e" for e
      using obj_okD(6) [OF os j', of e] that by (simp_all add: os'_def)
    show "isByteConcrete os' j \<or> isByteKnownSymbolic os' j" if "\<not> isByteFlushed os' j"
      using obj_okD(7) [OF os j'] fl [OF j'] that by (simp add: os'_def isByteKnownSymbolic_def)
    show "flushed_val env os' j = mem env os' j" if "isByteFlushed os' j" for env
      using obj_okD(8) [OF os j', of env] fl [OF j'] that fv mem [OF j'] by auto
  qed (use s obj_okD(2,3,4,5) [OF os] v i i32 in \<open>simp_all add: os'_def byte_writes_def bounded_def const32_def ce_alloc_def take_bit_int_eq_self in_width_def\<close>)
  moreover have "flushForRead i os = Some os'"
    using False v(1) by (simp add: flushForRead_def os'_def)
  moreover have "same_mem os os'"
    using mem by (simp add: same_mem_def os'_def)
  moreover have "flushMask os' \<noteq> None"
    by (simp add: os'_def markByteFlushed_def)
  moreover have "\<forall>j. isByteConcrete os' j = isByteConcrete os j \<and> knownSymbolic os' j = knownSymbolic os j"
    by (simp add: os'_def)
  ultimately show ?thesis
    using fl by blast
qed

lemma each_ok:
  assumes "\<And>i os. P os \<Longrightarrow> i < n \<Longrightarrow> \<exists>os'. f i os = Some os' \<and> P os' \<and> same_mem os os' \<and> Q i os' \<and>
    (\<forall>j < n. Q j os \<longrightarrow> Q j os')"
  shows "P os \<Longrightarrow> list_all (\<lambda>i. i < n) is \<Longrightarrow>
    \<exists>os'. each f is os = Some os' \<and> P os' \<and> same_mem os os' \<and> list_all (\<lambda>i. Q i os') is \<and> (\<forall>j < n. Q j os \<longrightarrow> Q j os')"
proof (induction "is" arbitrary: os)
  case Nil
  then show ?case
    by simp
next
  case (Cons i "is")
  then have "i < n" "list_all (\<lambda>i. i < n) is"
    by simp_all
  from assms [OF Cons.prems(1) this(1)] obtain os1 where 1: "f i os = Some os1" "P os1" "same_mem os os1" "Q i os1"
    "\<forall>j < n. Q j os \<longrightarrow> Q j os1"
    by blast
  from Cons.IH [OF 1(2) \<open>list_all (\<lambda>i. i < n) is\<close>] obtain os' where
    "each f is os1 = Some os'" "P os'" "same_mem os1 os'" "list_all (\<lambda>i. Q i os') is" "\<forall>j < n. Q j os1 \<longrightarrow> Q j os'"
    by blast
  with 1 \<open>i < n\<close> same_mem_trans [OF 1(3)] show ?case
    by simp
qed

lemma makeFlushMask_ok:
  assumes "obj_ok os"
  shows "obj_ok (makeFlushMask os)" "same_mem os (makeFlushMask os)" "flushMask (makeFlushMask os) \<noteq> None"
    "os_size (makeFlushMask os) = os_size os"
proof -
  have m: "isByteConcrete (makeFlushMask os) i = isByteConcrete os i" "knownSymbolic (makeFlushMask os) i = knownSymbolic os i"
    "i < os_size os \<Longrightarrow> isByteFlushed (makeFlushMask os) i = isByteFlushed os i" for i
    by (simp_all add: makeFlushMask_def isByteConcrete_def knownSymbolic_def isByteFlushed_def)
  have f: "root (makeFlushMask os) = root os" "head (makeFlushMask os) = head os" "os_size (makeFlushMask os) = os_size os"
    "concreteStore (makeFlushMask os) = concreteStore os"
    by (simp_all add: makeFlushMask_def)
  have v: "flushed_val env (makeFlushMask os) i = flushed_val env os i" for env i
    by (rule flushed_val_cong) (simp_all add: f)
  have mem: "mem env (makeFlushMask os) i = mem env os i" for env i
    by (simp add: mem_def m f v split: option.split)
  have "shape_ok (makeFlushMask os)"
    using obj_okD(1) [OF assms] by (auto simp: shape_ok_def makeFlushMask_def)
  then show "obj_ok (makeFlushMask os)"
    using assms by (simp add: obj_ok_def m f v mem isByteKnownSymbolic_def)
  show "same_mem os (makeFlushMask os)"
    by (simp add: same_mem_def mem f)
  show "flushMask (makeFlushMask os) \<noteq> None" "os_size (makeFlushMask os) = os_size os"
    by (simp_all add: makeFlushMask_def)
qed

text \<open>After flushing for a read, every byte is in the update list.\<close>

definition flushing :: "nat \<Rightarrow> objstate \<Rightarrow> bool" where
  "flushing n os \<longleftrightarrow> obj_ok os \<and> flushMask os \<noteq> None \<and> os_size os = n"

lemma flushRangeForRead_ok:
  assumes "obj_ok os"
  shows "\<exists>os'. flushRangeForRead 0 (os_size os) os = Some os' \<and> obj_ok os' \<and> same_mem os os' \<and>
    (\<forall>i < os_size os. \<forall>env. flushed_val env os' i = mem env os i)"
proof -
  let ?n = "os_size os"
  note mf = makeFlushMask_ok [OF assms]
  have "\<exists>os2. flushForRead i os1 = Some os2 \<and> flushing ?n os2 \<and> same_mem os1 os2 \<and> isByteFlushed os2 i \<and>
      (\<forall>j < ?n. isByteFlushed os1 j \<longrightarrow> isByteFlushed os2 j)" if fl: "flushing ?n os1" and i: "i < ?n" for i os1
  proof -
    have o: "obj_ok os1" "flushMask os1 \<noteq> None" "os_size os1 = ?n"
      using fl by (simp_all add: flushing_def)
    obtain os2 where "flushForRead i os1 = Some os2" "obj_ok os2" "same_mem os1 os2" "flushMask os2 \<noteq> None"
      "\<forall>j < os_size os1. isByteFlushed os2 j \<longleftrightarrow> j = i \<or> isByteFlushed os1 j"
      using flushForRead_ok [OF o(1) _ o(2), of i] i o(3) by auto
    then show ?thesis
      using i o(3) by (auto simp: flushing_def same_mem_def)
  qed
  from each_ok [of "flushing ?n" ?n flushForRead "\<lambda>i os. isByteFlushed os i" "makeFlushMask os" "[0..<?n]", OF this, simplified] mf
  obtain os' where os': "each flushForRead [0..<?n] (makeFlushMask os) = Some os'" "flushing ?n os'" "same_mem (makeFlushMask os) os'"
    "\<forall>i < ?n. isByteFlushed os' i"
    by (auto simp: flushing_def list_all_iff)
  have ok: "obj_ok os'" "os_size os' = ?n"
    using os'(2) by (simp_all add: flushing_def)
  have same: "same_mem os os'"
    by (rule same_mem_trans [OF mf(2) os'(3)])
  have "flushed_val env os' i = mem env os i" if "i < ?n" for i env
    using obj_okD(8) [OF ok(1), of i env] ok(2) os'(4) that same by (simp add: same_mem_def)
  then show ?thesis
    using os'(1) ok same by (auto simp: flushRangeForRead_def)
qed

text \<open>After flushing for a write, no byte is cached any more.\<close>

lemma flushForWrite_ok:
  assumes os: "obj_ok os" and i: "i < os_size os" and m: "flushMask os \<noteq> None"
  shows "\<exists>os'. flushForWrite i os = Some os' \<and> obj_ok os' \<and> same_mem os os' \<and> flushMask os' \<noteq> None \<and>
    (\<not> isByteConcrete os' i \<and> knownSymbolic os' i = None) \<and>
    (\<forall>j < os_size os. \<not> isByteConcrete os j \<and> knownSymbolic os j = None \<longrightarrow> \<not> isByteConcrete os' j \<and> knownSymbolic os' j = None)"
proof -
  define drop where "drop = (\<lambda>os. if isByteConcrete os i then markByteSymbolic i os
                      else if isByteKnownSymbolic os i then setKnownSymbolic i None os else os)"
  obtain x where x: "flushForRead i os = Some x" "obj_ok x" "same_mem os x" "flushMask x \<noteq> None"
    "\<forall>j < os_size os. isByteFlushed x j \<longleftrightarrow> j = i \<or> isByteFlushed os j"
    "\<forall>j. isByteConcrete x j = isByteConcrete os j \<and> knownSymbolic x j = knownSymbolic os j"
    using flushForRead_ok [OF os i m] by blast
  have n: "os_size x = os_size os" "i < os_size x"
    using x(3) i by (simp_all add: same_mem_def)
  have "markByteFlushed i (drop y) = drop (markByteFlushed i y)" for y
    by (simp add: drop_def isByteKnownSymbolic_def) (cases y, simp add: mark_defs split: option.split)
  then have "flushForWrite i os = map_option drop (flushForRead i os)"
    by (simp add: flushForWrite_def flushForRead_def drop_def [symmetric] Let_def option.map_comp comp_def)
  then have w: "flushForWrite i os = Some (drop x)"
    using x(1) by simp
  note s = obj_okD(1) [OF x(2)]
  have marks: "isByteConcrete (drop x) j \<longleftrightarrow> j \<noteq> i \<and> isByteConcrete x j" "knownSymbolic (drop x) j = (if j = i then None else knownSymbolic x j)"
    "isByteFlushed (drop x) j = isByteFlushed x j" if "j < os_size x" for j
    using s obj_okD(6) [OF x(2)] that n(2) by (auto simp: drop_def isByteKnownSymbolic_def)
  have fields: "root (drop x) = root x" "head (drop x) = head x" "os_size (drop x) = os_size x" "concreteStore (drop x) = concreteStore x"
    "flushMask (drop x) = flushMask x" "shape_ok (drop x)"
    using s by (simp_all add: drop_def) (simp_all add: mark_defs)
  have fv: "flushed_val env (drop x) j = flushed_val env x j" for env j
    by (rule flushed_val_cong) (simp_all add: fields)
  have mem: "mem env (drop x) j = mem env x j" if "j < os_size x" for env j
    using obj_okD(8) [OF x(2) that, of env] x(5) n(1) that by (cases "j = i") (auto simp: mem_def marks fields fv split: option.split)
  have "obj_ok (drop x)"
    unfolding obj_ok_def
  proof (intro conjI allI impI)
    fix j assume "j < os_size (drop x)"
    then have j: "j < os_size x"
      by (simp add: fields)
    show "wfe e" "getWidth e = 8" "\<not> isByteConcrete (drop x) j" if "knownSymbolic (drop x) j = Some e" for e
      using obj_okD(6) [OF x(2) j, of e] that by (auto simp: marks j split: if_splits)
    show "isByteConcrete (drop x) j \<or> isByteKnownSymbolic (drop x) j" if "\<not> isByteFlushed (drop x) j"
      using obj_okD(7) [OF x(2) j] that x(5) n(1) j by (auto simp: marks isByteKnownSymbolic_def)
    show "flushed_val env (drop x) j = mem env (drop x) j" if "isByteFlushed (drop x) j" for env
      using obj_okD(8) [OF x(2) j, of env] that by (simp add: marks j fv mem)
  qed (use fields obj_okD(2-5) [OF x(2)] in simp_all)
  moreover have "same_mem os (drop x)"
    using x(3) mem n(1) by (simp add: same_mem_def fields)
  moreover have "\<not> isByteConcrete (drop x) j \<and> knownSymbolic (drop x) j = None"
    if "j < os_size os" "\<not> isByteConcrete os j" "knownSymbolic os j = None" for j
    using that x(6) n(1) by (simp add: marks)
  ultimately show ?thesis
    using w x(4) n marks fields by auto
qed

definition uncached :: "objstate \<Rightarrow> nat \<Rightarrow> bool" where
  "uncached os i \<longleftrightarrow> \<not> isByteConcrete os i \<and> knownSymbolic os i = None"

lemma uncached_mem: "uncached os i \<Longrightarrow> mem env os i = flushed_val env os i"
  by (simp add: uncached_def mem_def)

lemma flushRangeForWrite_ok:
  assumes "obj_ok os"
  shows "\<exists>os'. flushRangeForWrite 0 (os_size os) os = Some os' \<and> obj_ok os' \<and> same_mem os os' \<and> (\<forall>i < os_size os. uncached os' i)"
proof -
  let ?n = "os_size os"
  note mf = makeFlushMask_ok [OF assms]
  have "\<exists>os2. flushForWrite i os1 = Some os2 \<and> flushing ?n os2 \<and> same_mem os1 os2 \<and> uncached os2 i \<and>
      (\<forall>j < ?n. uncached os1 j \<longrightarrow> uncached os2 j)" if fl: "flushing ?n os1" and i: "i < ?n" for i os1
  proof -
    have o: "obj_ok os1" "flushMask os1 \<noteq> None" "os_size os1 = ?n"
      using fl by (simp_all add: flushing_def)
    obtain os2 where "flushForWrite i os1 = Some os2" "obj_ok os2" "same_mem os1 os2" "flushMask os2 \<noteq> None" "uncached os2 i"
      "\<forall>j < os_size os1. uncached os1 j \<longrightarrow> uncached os2 j"
      using flushForWrite_ok [OF o(1) _ o(2), of i] i o(3) unfolding uncached_def by auto
    then show ?thesis
      using i o(3) by (auto simp: flushing_def same_mem_def)
  qed
  from each_ok [of "flushing ?n" ?n flushForWrite "\<lambda>i os. uncached os i" "makeFlushMask os" "[0..<?n]", OF this, simplified] mf
  obtain os' where os': "each flushForWrite [0..<?n] (makeFlushMask os) = Some os'" "flushing ?n os'" "same_mem (makeFlushMask os) os'"
    "\<forall>i < ?n. uncached os' i"
    by (auto simp: flushing_def list_all_iff)
  have "same_mem os os'"
    by (rule same_mem_trans [OF mf(2) os'(3)])
  with os' show ?thesis
    by (auto simp: flushRangeForWrite_def flushing_def)
qed

section \<open>Constant arrays\<close>

text \<open>Applying writes, oldest first.\<close>

definition apply_val :: "env \<Rightarrow> (expr \<times> expr) list \<Rightarrow> (int \<Rightarrow> int) \<Rightarrow> int \<Rightarrow> int" where
  "apply_val env ws f = fold (\<lambda>(ix, v) g. g(eval ix env := eval v env)) ws f"

lemma apply_val_simps [simp]:
  "apply_val env [] f = f" "apply_val env ((ix, v) # ws) f = apply_val env ws (f(eval ix env := eval v env))"
  "apply_val env (ws @ ws') f = apply_val env ws' (apply_val env ws f)"
  by (simp_all add: apply_val_def)

lemma upd_val_writes: "upd_val u base env = apply_val env (writes u) base"
proof (induction u rule: updates.induct [where ?P1.0 = "\<lambda>_. True"])
  case (UpdateNode ix v n)
  then show ?case
    by (simp add: fun_eq_iff)
qed (simp_all add: fun_eq_iff)

lemma apply_val_local: "f i = g i \<Longrightarrow> apply_val env ws f i = apply_val env ws g i"
proof (induction ws arbitrary: f g)
  case (Cons w ws)
  obtain ix v where w: "w = (ix, v)"
    by fastforce
  have "apply_val env ws (f(eval ix env := eval v env)) i = apply_val env ws (g(eval ix env := eval v env)) i"
    by (rule Cons.IH) (simp add: Cons.prems)
  then show ?case
    by (simp add: w)
qed simp

definition contents_ok :: "apint list \<Rightarrow> bool" where
  "contents_ok cs \<longleftrightarrow> list_all (\<lambda>c. ap_ok c \<and> bitWidth c = 8) cs"

definition contents_val :: "apint list \<Rightarrow> int \<Rightarrow> int" where
  "contents_val cs i = apval (cs ! nat i)"

lemma pull_concrete_ok:
  assumes "pull_concrete ws cs = (cs', ws')" "contents_ok cs" "byte_writes ws" "bounded (length cs) ws"
  shows "contents_ok cs' \<and> length cs' = length cs \<and> byte_writes ws' \<and> bounded (length cs) ws' \<and>
    (\<forall>env. \<forall>i < length cs. apply_val env ws (contents_val cs) (int i) = apply_val env ws' (contents_val cs') (int i))"
  using assms
proof (induction ws arbitrary: cs)
  case Nil
  then show ?case
    by simp
next
  case (Cons w ws)
  obtain ix v where w: "w = (ix, v)"
    by fastforce
  show ?case
  proof (cases "\<exists>i c. ix = ConstantExpr i \<and> v = ConstantExpr c")
    case True
    then obtain k c where k: "ix = ConstantExpr k" "v = ConstantExpr c"
      by blast
    let ?cs = "cs[nat (apval k) := c]"
    have kb: "nat (apval k) < length cs" "ap_ok c" "bitWidth c = 8" "0 \<le> apval k"
      using Cons.prems(3,4) ap_ok_range [of k] by (auto simp: w k byte_writes_def bounded_def in_width_def)
    have "contents_ok ?cs"
      using Cons.prems(2) kb(2,3) set_update_subset_insert [of cs "nat (apval k)" c] by (auto simp: contents_ok_def list_all_iff)
    moreover have "pull_concrete ws ?cs = (cs', ws')"
      using Cons.prems(1) by (simp add: w k)
    moreover have "byte_writes ws" "bounded (length ?cs) ws"
      using Cons.prems(3,4) by (simp_all add: w byte_writes_def bounded_def)
    ultimately have IH: "contents_ok cs' \<and> length cs' = length ?cs \<and> byte_writes ws' \<and> bounded (length ?cs) ws' \<and>
      (\<forall>env. \<forall>i < length ?cs. apply_val env ws (contents_val ?cs) (int i) = apply_val env ws' (contents_val cs') (int i))"
      using Cons.IH by blast
    have "apply_val env ws ((contents_val cs)(apval k := apval c)) (int i) = apply_val env ws (contents_val ?cs) (int i)"
      if "i < length cs" for i env
      using that kb(1,4) by (intro apply_val_local) (auto simp: contents_val_def nth_list_update)
    with IH show ?thesis
      by (simp add: w k)
  next
    case False
    then have "(cs', ws') = (cs, (ix, v) # ws)"
      using Cons.prems(1) by (auto simp: w split: option.splits)
    with Cons.prems show ?thesis
      by (simp add: w)
  qed
qed

lemma apply_writes_ok:
  "byte_writes ws \<Longrightarrow> (\<And>a. root os = Some a \<Longrightarrow> byte_array a) \<Longrightarrow>
   \<exists>u. apply_writes ws os = Some (os\<lparr>head := u\<rparr>) \<and> writes u = writes (head os) @ ws"
proof (induction ws arbitrary: os)
  case Nil
  have "os = os\<lparr>head := head os\<rparr>"
    by simp
  then show ?case
    by (metis append_Nil2 apply_writes.simps(1))
next
  case (Cons w ws)
  obtain ix v where w: "w = (ix, v)"
    by fastforce
  let ?os = "os\<lparr>head := UpdateNode ix v (head os)\<rparr>"
  have "extend ix v os = Some ?os"
    using Cons.prems by (intro extend_ok) (simp_all add: w byte_writes_def)
  moreover obtain u where "apply_writes ws ?os = Some (?os\<lparr>head := u\<rparr>)" "writes u = writes (head ?os) @ ws"
    using Cons.IH [of ?os] Cons.prems by (auto simp: byte_writes_def)
  ultimately show ?case
    by (auto simp: w)
qed

lemma obj_ok_root:
  assumes os: "obj_ok os" and u: "byte_writes (writes u)" "bounded (os_size os) (writes u)" "byte_array a"
    and same: "\<And>env i. i < os_size os \<Longrightarrow> flushed_val env (os\<lparr>root := Some a, head := u\<rparr>) i = flushed_val env os i"
  shows "obj_ok (os\<lparr>root := Some a, head := u\<rparr>)" "same_mem os (os\<lparr>root := Some a, head := u\<rparr>)"
proof -
  let ?os = "os\<lparr>root := Some a, head := u\<rparr>"
  have mem: "mem env ?os i = mem env os i" if "i < os_size os" for env i
    using same [OF that] by (simp add: mem_def split: option.split)
  have "shape_ok ?os"
    using obj_okD(1) [OF os] by simp
  then show "obj_ok ?os"
    using os u same mem by (simp add: obj_ok_def isByteKnownSymbolic_def)
  show "same_mem os ?os"
    by (simp add: same_mem_def mem)
qed

lemma getUpdates_ok:
  assumes os: "obj_ok os" and pos: "0 < os_size os"
  shows "\<exists>os' a. getUpdates fresh os = Some os' \<and> root os' = Some a \<and> obj_ok os' \<and> same_mem os os' \<and>
    (\<forall>i < os_size os. \<forall>env. flushed_val env os' i = flushed_val env os i)"
proof (cases "root os")
  case (Some a)
  with os show ?thesis
    by (simp add: getUpdates_def)
next
  case None
  let ?n = "os_size os" and ?zeros = "replicate (os_size os) (ce_alloc 0 8)"
  obtain cs ws where p: "pull_concrete (writes (head os)) ?zeros = (cs, ws)"
    by fastforce
  have z: "contents_ok ?zeros"
    by (simp add: contents_ok_def ce_alloc_def ap_ok_def list_all_length)
  have cs: "contents_ok cs" "length cs = ?n" "byte_writes ws" "bounded ?n ws"
    "\<And>env i. i < ?n \<Longrightarrow> apply_val env (writes (head os)) (contents_val ?zeros) (int i) = apply_val env ws (contents_val cs) (int i)"
    using pull_concrete_ok [OF p z] obj_okD(4,5) [OF os] by auto
  define arr where "arr = \<lparr>arr_ptr = fst fresh, arr_name = snd fresh, arr_size = ?n, arr_domain = 32, arr_range = 8, constantValues = cs\<rparr>"
  have a: "byte_array arr"
    using cs(1,2) by (auto simp: byte_array_def array_ok_def arr_def contents_ok_def)
  obtain u where u: "apply_writes ws (os\<lparr>root := Some arr, head := UNil\<rparr>) = Some (os\<lparr>root := Some arr, head := u\<rparr>)" "writes u = ws"
    using apply_writes_ok [OF cs(3), of "os\<lparr>root := Some arr, head := UNil\<rparr>"] a by auto
  let ?os = "os\<lparr>root := Some arr, head := u\<rparr>"
  have const: "initial env arr (int i) = contents_val cs (int i)" if "i < ?n" for env i
    using that cs(2) pos by (auto simp: initial_def arr_def isConstantArray_def isSymbolicArray_def contents_val_def)
  have zero: "contents_val ?zeros (int i) = 0" if "i < ?n" for i
    using that by (simp add: contents_val_def ce_alloc_def)
  have fv: "flushed_val env ?os i = flushed_val env os i" if "i < ?n" for env i
  proof -
    have "flushed_val env ?os i = apply_val env ws (initial env arr) (int i)"
      by (simp add: flushed_val_def base_val_def upd_val_writes u(2))
    also have "\<dots> = apply_val env ws (contents_val cs) (int i)"
      using const [OF that] by (rule apply_val_local)
    also have "\<dots> = apply_val env (writes (head os)) (contents_val ?zeros) (int i)"
      using cs(5) [OF that] by simp
    also have "\<dots> = apply_val env (writes (head os)) (\<lambda>i. 0) (int i)"
      using zero [OF that] by (rule apply_val_local)
    also have "\<dots> = flushed_val env os i"
      by (simp add: flushed_val_def base_val_def upd_val_writes None)
    finally show ?thesis .
  qed
  have "byte_writes (writes u)" "bounded ?n (writes u)"
    using cs(3,4) u(2) by simp_all
  note r = obj_ok_root [OF os this a fv]
  have "getUpdates fresh os = Some ?os"
    using u(1) by (simp add: getUpdates_def None p arr_def)
  with r fv show ?thesis
    by auto
qed

section \<open>Reading and writing bytes\<close>

lemma read_updates_ok:
  assumes os: "obj_ok os" and ix: "wfe ix" "getWidth ix = 32" and pos: "0 < os_size os"
  shows "\<exists>e os'. read_updates fresh ix os = Some (e, os') \<and> obj_ok os' \<and> same_mem os os' \<and> wfe e \<and> getWidth e = 8 \<and>
    (\<forall>env. \<forall>i < os_size os. eval ix env = int i \<longrightarrow> eval e env = flushed_val env os i)"
proof -
  obtain os' a where g: "getUpdates fresh os = Some os'" "root os' = Some a" "obj_ok os'" "same_mem os os'"
    "\<forall>i < os_size os. \<forall>env. flushed_val env os' i = flushed_val env os i"
    using getUpdates_ok [OF os pos] by blast
  have a: "byte_array a"
    by (rule obj_okD(3) [OF g(3,2)])
  let ?e = "Read_create False a (head os') ix"
  have "wfe (ReadExpr a (head os') ix)"
    using a ix wfu_writes [OF a obj_okD(4) [OF g(3)]] by (simp add: byte_array_def)
  note e = eqvD [OF Read_create_ok this]
  have "eval ?e env = flushed_val env os i" if "i < os_size os" "eval ix env = int i" for env i
    using that g(5) by (simp add: e(3) eval_upd_val flushed_val_def base_val_def g(2))
  moreover have "read_updates fresh ix os = Some (?e, os')"
    by (simp add: read_updates_def g(1,2))
  moreover have "wfe ?e" "getWidth ?e = 8"
    using e(1,2) a by (simp_all add: byte_array_def)
  ultimately show ?thesis
    using g(3,4) by blast
qed

lemma read8_ok:
  assumes os: "obj_ok os" and i: "i < os_size os"
  shows "\<exists>e os'. read8 fresh i os = Some (e, os') \<and> obj_ok os' \<and> same_mem os os' \<and> wfe e \<and> getWidth e = 8 \<and>
    (\<forall>env. eval e env = mem env os i)"
proof (cases "isByteConcrete os i")
  case True
  have "i < length (concreteStore os)"
    using obj_okD(1) [OF os] i by (simp add: shape_ok_def)
  then have "in_width 8 (concreteStore os ! i)"
    using obj_okD(2) [OF os] by (simp add: list_all_length)
  with True os show ?thesis
    by (simp add: read8_def mem_def)
next
  case nc: False
  show ?thesis
  proof (cases "knownSymbolic os i")
    case (Some e)
    with nc os obj_okD(6) [OF os i Some] show ?thesis
      by (simp add: read8_def mem_def)
  next
    case None
    then have fl: "isByteFlushed os i"
      using obj_okD(7) [OF os i] nc by (auto simp: isByteKnownSymbolic_def)
    have i32: "i < 2 ^ 32"
      using obj_okD(1) [OF os] i by (simp add: shape_ok_def)
    have "0 < os_size os"
      using i by simp
    from read_updates_ok [OF os _ _ this, of "const32 i" fresh] obtain e os' where
      e: "read_updates fresh (const32 i) os = Some (e, os')" "obj_ok os'" "same_mem os os'" "wfe e" "getWidth e = 8"
      "\<forall>env. \<forall>j < os_size os. eval (const32 i) env = int j \<longrightarrow> eval e env = flushed_val env os j"
      by auto
    have "mem env os i = flushed_val env os i" for env
      using nc None by (simp add: mem_def)
    with e i i32 nc None fl show ?thesis
      by (simp add: read8_def)
  qed
qed

lemma read8_at_ok:
  assumes os: "obj_ok os" and off: "wfe off" "getWidth off = 32" "as_const off = None" and pos: "0 < os_size os"
  shows "\<exists>e os'. read8_at fresh off os = Some (e, os') \<and> obj_ok os' \<and> same_mem os os' \<and> wfe e \<and> getWidth e = 8 \<and>
    (\<forall>env. \<forall>i < os_size os. eval off env = int i \<longrightarrow> eval e env = mem env os i)"
proof -
  obtain os1 where 1: "flushRangeForRead 0 (os_size os) os = Some os1" "obj_ok os1" "same_mem os os1"
    "\<forall>i < os_size os. \<forall>env. flushed_val env os1 i = mem env os i"
    using flushRangeForRead_ok [OF os] by blast
  have z: "ZExt_create off 32 = off"
    using off(2) by (simp add: ZExt_create_def)
  have n: "os_size os1 = os_size os"
    using 1(3) by (simp add: same_mem_def)
  obtain e os' where "read_updates fresh off os1 = Some (e, os')" "obj_ok os'" "same_mem os1 os'" "wfe e" "getWidth e = 8"
    "\<forall>env. \<forall>i < os_size os1. eval off env = int i \<longrightarrow> eval e env = flushed_val env os1 i"
    using read_updates_ok [OF 1(2) off(1,2)] pos n by (metis (no_types, lifting))
  with 1 off(3) z n same_mem_trans [OF 1(3)] show ?thesis
    by (simp add: read8_at_def)
qed

lemma write8_byte_ok:
  assumes os: "obj_ok os" and i: "i < os_size os"
  shows "obj_ok (write8_byte i v os)" "os_size (write8_byte i v os) = os_size os"
    "j < os_size os \<Longrightarrow> mem env (write8_byte i v os) j = (if j = i then take_bit 8 v else mem env os j)"
proof -
  let ?os = "write8_byte i v os"
  note s = obj_okD(1) [OF os]
  have s1: "shape_ok (os\<lparr>concreteStore := (concreteStore os)[i := x]\<rparr>)" for x
    using s by (simp add: shape_ok_def)
  have same: "isByteConcrete (os\<lparr>concreteStore := x\<rparr>) j = isByteConcrete os j" "isByteFlushed (os\<lparr>concreteStore := x\<rparr>) j = isByteFlushed os j"
    "knownSymbolic (os\<lparr>concreteStore := x\<rparr>) j = knownSymbolic os j" for x j
    by (simp_all add: isByteConcrete_def isByteFlushed_def knownSymbolic_def)
  show size: "os_size ?os = os_size os"
    by (simp add: write8_byte_def)
  have marks: "isByteConcrete ?os j \<longleftrightarrow> j = i \<or> isByteConcrete os j" "isByteFlushed ?os j \<longleftrightarrow> j \<noteq> i \<and> isByteFlushed os j"
    "knownSymbolic ?os j = (if j = i then None else knownSymbolic os j)" if "j < os_size os" for j
    using that i s1 by (simp_all add: write8_byte_def same)
  have fields: "root ?os = root os" "head ?os = head os" "concreteStore ?os = (concreteStore os)[i := take_bit 8 v]" "shape_ok ?os"
    using s1 by (simp_all add: write8_byte_def)
  have fv: "flushed_val env ?os j = flushed_val env os j" for env j
    by (rule flushed_val_cong) (simp_all add: fields)
  have l: "length (concreteStore os) = os_size os"
    using s by (simp add: shape_ok_def)
  show mem: "mem env ?os j = (if j = i then take_bit 8 v else mem env os j)" if "j < os_size os" for env j
    using that i l by (simp add: mem_def marks fields fv split: option.split)
  show "obj_ok ?os"
    unfolding obj_ok_def
  proof (intro conjI allI impI)
    fix j assume "j < os_size ?os"
    then have j: "j < os_size os"
      by (simp add: size)
    show "wfe e" "getWidth e = 8" "\<not> isByteConcrete ?os j" if "knownSymbolic ?os j = Some e" for e
      using obj_okD(6) [OF os j, of e] that by (auto simp: marks j split: if_splits)
    show "isByteConcrete ?os j \<or> isByteKnownSymbolic ?os j" if "\<not> isByteFlushed ?os j"
      using obj_okD(7) [OF os j] that by (auto simp: marks j isByteKnownSymbolic_def)
    show "flushed_val env ?os j = mem env ?os j" if "isByteFlushed ?os j" for env
      using obj_okD(8) [OF os j, of env] that by (simp add: marks j fv mem)
  next
    show "list_all (in_width 8) (concreteStore ?os)"
      using obj_okD(2) [OF os] set_update_subset_insert [of "concreteStore os" i "take_bit 8 v"]
      by (auto simp: fields list_all_iff)
  qed (use obj_okD(3,4,5) [OF os] fields size in simp_all)
qed

lemma write8_ok:
  assumes os: "obj_ok os" and i: "i < os_size os" and v: "wfe v" "getWidth v = 8"
  shows "\<exists>os'. write8 i v os = Some os' \<and> obj_ok os' \<and> os_size os' = os_size os \<and>
    (\<forall>j < os_size os. \<forall>env. mem env os' j = (if j = i then eval v env else mem env os j))"
proof (cases "as_const v")
  case (Some c)
  then have c: "ap_ok c" "bitWidth c = 8"
    using v by simp_all
  then have val: "in_width 8 (apval c)" "in_width 64 (apval c)"
    using in_width_mono [of 8 "apval c" 64] by (simp_all add: ap_ok_def)
  then have z: "ce_getZExtValue 8 c = Some (apval c)"
    using c by (simp add: ce_getZExtValue_def)
  show ?thesis
    using write8_byte_ok [OF os i, where v = "apval c"] z Some val by (auto simp: write8_def)
next
  case None
  define os' where "os' = markByteUnflushed i (markByteSymbolic i (setKnownSymbolic i (Some v) os))"
  note s = obj_okD(1) [OF os]
  have marks: "isByteConcrete os' j \<longleftrightarrow> j \<noteq> i \<and> isByteConcrete os j" "isByteFlushed os' j \<longleftrightarrow> j \<noteq> i \<and> isByteFlushed os j"
    "knownSymbolic os' j = (if j = i then Some v else knownSymbolic os j)" if "j < os_size os" for j
    using that i s by (simp_all add: os'_def)
  have fv: "flushed_val env os' j = flushed_val env os j" for env j
    by (rule flushed_val_cong) (simp_all add: os'_def)
  have st: "concreteStore os' = concreteStore os"
    by (simp add: os'_def)
  have mem: "mem env os' j = (if j = i then eval v env else mem env os j)" if "j < os_size os" for env j
    using that by (simp add: mem_def marks fv st split: option.split)
  have "obj_ok os'"
    unfolding obj_ok_def
  proof (intro conjI allI impI)
    fix j assume "j < os_size os'"
    then have j: "j < os_size os"
      by (simp add: os'_def)
    show "wfe e" "getWidth e = 8" "\<not> isByteConcrete os' j" if "knownSymbolic os' j = Some e" for e
      using obj_okD(6) [OF os j, of e] that v by (auto simp: marks j split: if_splits)
    show "isByteConcrete os' j \<or> isByteKnownSymbolic os' j" if "\<not> isByteFlushed os' j"
      using obj_okD(7) [OF os j] that by (auto simp: marks j isByteKnownSymbolic_def)
    show "flushed_val env os' j = mem env os' j" if "isByteFlushed os' j" for env
      using obj_okD(8) [OF os j, of env] that by (simp add: marks j fv mem)
  qed (use obj_okD(2-5) [OF os] s in \<open>simp_all add: os'_def\<close>)
  moreover have "write8 i v os = Some os'" "os_size os' = os_size os"
    using None by (simp_all add: write8_def os'_def)
  ultimately show ?thesis
    using mem by blast
qed

lemma write8_at_ok:
  assumes os: "obj_ok os" and off: "wfe off" "getWidth off = 32" "as_const off = None" and v: "wfe v" "getWidth v = 8"
  shows "\<exists>os'. write8_at off v os = Some os' \<and> obj_ok os' \<and> os_size os' = os_size os \<and>
    (\<forall>j < os_size os. \<forall>env. mem env os' j = (if eval off env = int j then eval v env else mem env os j))"
proof -
  obtain os1 where 1: "flushRangeForWrite 0 (os_size os) os = Some os1" "obj_ok os1" "same_mem os os1"
    "\<forall>i < os_size os. uncached os1 i"
    using flushRangeForWrite_ok [OF os] by blast
  have n: "os_size os1 = os_size os"
    using 1(3) by (simp add: same_mem_def)
  have z: "ZExt_create off 32 = off"
    using off(2) by (simp add: ZExt_create_def)
  let ?os = "os1\<lparr>head := UpdateNode off v (head os1)\<rparr>"
  have e: "extend off v os1 = Some ?os"
    using extend_ok [OF obj_okD(3) [OF 1(2)] off(2) v(2)] by simp
  have u: "uncached ?os j" if "j < os_size os" for j
    using 1(4) that by (simp add: uncached_def)
  have mem: "mem env ?os j = (if eval off env = int j then eval v env else mem env os j)" if j: "j < os_size os" for env j
  proof -
    have "mem env ?os j = flushed_val env ?os j" "mem env os1 j = flushed_val env os1 j"
      using uncached_mem [OF u [OF j]] 1(4) uncached_mem j by blast+
    moreover have "mem env os1 j = mem env os j"
      using 1(3) j by (simp add: same_mem_def)
    ultimately show ?thesis
      by (simp add: extended_val)
  qed
  have "obj_ok ?os"
    unfolding obj_ok_def
  proof (intro conjI allI impI)
    fix j assume "j < os_size ?os"
    then have j: "j < os_size os"
      by (simp add: n)
    show "wfe e" "getWidth e = 8" "\<not> isByteConcrete ?os j" if "knownSymbolic ?os j = Some e" for e
      using u [OF j] that by (simp_all add: uncached_def)
    show "isByteConcrete ?os j \<or> isByteKnownSymbolic ?os j" if "\<not> isByteFlushed ?os j"
      using obj_okD(7) [OF 1(2), of j] that j n by (simp add: isByteKnownSymbolic_def)
    show "flushed_val env ?os j = mem env ?os j" if "isByteFlushed ?os j" for env
      using uncached_mem [OF u [OF j]] by simp
  next
    show "bounded (os_size ?os) (writes (head ?os))"
      using obj_okD(5) [OF 1(2)] off(3) by (auto simp: bounded_def)
  qed (use obj_okD(1-4) [OF 1(2)] off v in \<open>simp_all add: byte_writes_def\<close>)
  with e mem n 1(1) z off(3) show ?thesis
    by (simp add: write8_at_def)
qed

end
