(* ===== verification/ObjectAccess.thy ===== *)
theory ObjectAccess
  imports ObjectState
begin

text \<open>
  Values of several bytes in a memory object (\<open>ObjectState::read\<close> and \<open>ObjectState::write\<close> of
  \<open>lib/Core/Memory.cpp\<close>): what they read and store is given by the abstract memory of the object, for
  constant and symbolic offsets, and a value that is written is read back.
\<close>

section \<open>Reading and writing values\<close>

primrec bytes_value :: "(nat \<Rightarrow> int) \<Rightarrow> nat \<Rightarrow> int" where
  "bytes_value f 0 = 0"
| "bytes_value f (Suc n) = push_bit (8 * n) (f n) OR bytes_value f n"

definition value_at :: "bool \<Rightarrow> nat \<Rightarrow> (nat \<Rightarrow> int) \<Rightarrow> int" where
  "value_at le w f =
     (if w = 1 then take_bit 1 (f 0) else bytes_value (\<lambda>i. f (byte_index le (w div 8) i)) (w div 8))"

text \<open>Widths that can be read and written, and the bytes they take.\<close>

definition width_ok :: "nat \<Rightarrow> bool" where
  "width_ok w \<longleftrightarrow> w = 1 \<or> 0 < w \<and> 8 dvd w"

definition width_bytes :: "nat \<Rightarrow> nat" where
  "width_bytes w = (if w = 1 then 1 else w div 8)"

text \<open>A reader of bytes: under the assignments \<open>B\<close>, byte \<open>i\<close> has the value \<open>F env i\<close>.\<close>

definition reads_bytes ::
  "(nat \<Rightarrow> objstate \<Rightarrow> (expr \<times> objstate) option) \<Rightarrow> nat \<Rightarrow> objstate \<Rightarrow> (env \<Rightarrow> bool) \<Rightarrow> (env \<Rightarrow> nat \<Rightarrow> int) \<Rightarrow> bool" where
  "reads_bytes rd n os B F \<longleftrightarrow> (\<forall>i < n. \<forall>os1. obj_ok os1 \<longrightarrow> same_mem os os1 \<longrightarrow>
     (\<exists>e os2. rd i os1 = Some (e, os2) \<and> obj_ok os2 \<and> same_mem os os2 \<and> wfe e \<and> getWidth e = 8 \<and>
       (\<forall>env. B env \<longrightarrow> eval e env = F env i)))"

lemma concat_bytes_ok:
  assumes "obj_ok os" "reads_bytes rd n os B F"
  shows "\<exists>r os'. concat_bytes rd n os = Some (r, os') \<and> obj_ok os' \<and> same_mem os os' \<and>
    (n = 0 \<longrightarrow> r = None) \<and>
    (0 < n \<longrightarrow> (\<exists>e. r = Some e \<and> wfe e \<and> getWidth e = 8 * n \<and> (\<forall>env. B env \<longrightarrow> eval e env = bytes_value (F env) n)))"
  using assms(2)
proof (induction n)
  case 0
  with assms(1) show ?case
    by simp
next
  case (Suc n)
  have "reads_bytes rd n os B F"
    using Suc.prems by (simp add: reads_bytes_def)
  then obtain r os1 where 1: "concat_bytes rd n os = Some (r, os1)" "obj_ok os1" "same_mem os os1" "n = 0 \<longrightarrow> r = None"
    "0 < n \<longrightarrow> (\<exists>e. r = Some e \<and> wfe e \<and> getWidth e = 8 * n \<and> (\<forall>env. B env \<longrightarrow> eval e env = bytes_value (F env) n))"
    using Suc.IH by blast
  obtain b os2 where b: "rd n os1 = Some (b, os2)" "obj_ok os2" "same_mem os os2" "wfe b" "getWidth b = 8"
    "\<forall>env. B env \<longrightarrow> eval b env = F env n"
    using Suc.prems 1(2,3) unfolding reads_bytes_def by blast
  show ?case
  proof (cases "n = 0")
    case True
    with 1 b show ?thesis
      by simp
  next
    case False
    then obtain e where e: "r = Some e" "wfe e" "getWidth e = 8 * n" "\<forall>env. B env \<longrightarrow> eval e env = bytes_value (F env) n"
      using 1(5) by auto
    have "wfe (ConcatExpr b e)"
      using b(4) e(2) by simp
    from eqvD [OF Concat_create_ok this] show ?thesis
      using 1(1) b e by simp
  qed
qed

lemma width_cases:
  assumes "width_ok w"
  obtains (Bool) "w = 1" | (Bytes) n where "w = 8 * n" "0 < n" "w \<noteq> 1" "w div 8 = n" "w = w div 8 * 8"
  using assms by (auto simp: width_ok_def)

lemma byte_index_less: "i < n \<Longrightarrow> byte_index le n i < n"
  by (auto simp: byte_index_def)

lemma byte_index_inv: "i < n \<Longrightarrow> byte_index le n (byte_index le n i) = i"
  by (auto simp: byte_index_def)

lemma read_value_ok:
  assumes os: "obj_ok os" and rd: "reads_bytes rd (width_bytes w) os B F" and w: "width_ok w"
  shows "\<exists>e os'. read_value rd le w os = Some (e, os') \<and> obj_ok os' \<and> same_mem os os' \<and> wfe e \<and> getWidth e = w \<and>
    (\<forall>env. B env \<longrightarrow> eval e env = value_at le w (F env))"
  using w
proof (cases rule: width_cases)
  case Bool
  then obtain b os' where b: "rd 0 os = Some (b, os')" "obj_ok os'" "same_mem os os'" "wfe b" "getWidth b = 8"
    "\<forall>env. B env \<longrightarrow> eval b env = F env 0"
    using rd os unfolding reads_bytes_def width_bytes_def by auto
  have "wfe (ExtractExpr b 0 1)"
    using b(4,5) by simp
  from eqvD [OF Extract_create_ok this] show ?thesis
    using b Bool by (simp add: read_value_def value_at_def)
next
  case (Bytes n)
  have "reads_bytes (\<lambda>i. rd (byte_index le n i)) n os B (\<lambda>env i. F env (byte_index le n i))"
    using rd byte_index_less Bytes unfolding reads_bytes_def width_bytes_def by auto
  from concat_bytes_ok [OF os this] obtain r os' e where "concat_bytes (\<lambda>i. rd (byte_index le n i)) n os = Some (r, os')"
    "obj_ok os'" "same_mem os os'" "r = Some e" "wfe e" "getWidth e = 8 * n"
    "\<forall>env. B env \<longrightarrow> eval e env = bytes_value (\<lambda>i. F env (byte_index le n i)) n"
    using Bytes(2) by blast
  then show ?thesis
    using Bytes by (simp add: read_value_def value_at_def)
qed

lemma read_const_ok:
  assumes os: "obj_ok os" and w: "width_ok w" and b: "offset + width_bytes w \<le> os_size os"
  shows "\<exists>e os'. read_const fresh le offset w os = Some (e, os') \<and> obj_ok os' \<and> same_mem os os' \<and> wfe e \<and> getWidth e = w \<and>
    (\<forall>env. eval e env = value_at le w (\<lambda>i. mem env os (offset + i)))"
proof -
  have "reads_bytes (\<lambda>i. read8 fresh (offset + i)) (width_bytes w) os (\<lambda>env. True) (\<lambda>env i. mem env os (offset + i))"
    unfolding reads_bytes_def
  proof (intro allI impI)
    fix i os1
    assume i: "i < width_bytes w" and os1: "obj_ok os1" "same_mem os os1"
    have n: "offset + i < os_size os1" "offset + i < os_size os"
      using i b os1(2) by (simp_all add: same_mem_def)
    obtain e os2 where e: "read8 fresh (offset + i) os1 = Some (e, os2)" "obj_ok os2" "same_mem os1 os2" "wfe e" "getWidth e = 8"
      "\<forall>env. eval e env = mem env os1 (offset + i)"
      using read8_ok [OF os1(1) n(1)] by blast
    have "same_mem os os2"
      by (rule same_mem_trans [OF os1(2) e(3)])
    with e os1(2) n show "\<exists>e os2. read8 fresh (offset + i) os1 = Some (e, os2) \<and> obj_ok os2 \<and> same_mem os os2 \<and> wfe e \<and> getWidth e = 8 \<and>
        (\<forall>env. True \<longrightarrow> eval e env = mem env os (offset + i))"
      by (auto simp: same_mem_def)
  qed
  from read_value_ok [OF os this w, of le] show ?thesis
    by (simp add: read_const_def)
qed

text \<open>An offset that takes two values stays symbolic.\<close>

lemma add_offset_ok:
  assumes "wfe off" "getWidth off = 32" "i < 2 ^ 32"
  shows "wfe (add_offset off i)" "getWidth (add_offset off i) = 32" "eval (add_offset off i) env = take_bit 32 (eval off env + int i)"
  using eqvD [OF Add_create_ok, of off "const32 i"] assms by (simp_all add: add_offset_def)

lemma add_offset_symbolic:
  assumes off: "wfe off" "getWidth off = 32" and i: "i < 2 ^ 32" and two: "eval off env1 \<noteq> eval off env2"
  shows "as_const (add_offset off i) = None"
proof (rule ccontr)
  assume "as_const (add_offset off i) \<noteq> None"
  then obtain c where "add_offset off i = ConstantExpr c"
    by auto
  then have "take_bit 32 (eval off env1 + int i) = take_bit 32 (eval off env2 + int i)"
    using add_offset_ok(3) [OF off i, of env1] add_offset_ok(3) [OF off i, of env2] by simp
  then have "take_bit 32 (eval off env1 + int i - int i) = take_bit 32 (eval off env2 + int i - int i)"
    by (metis take_bit_diff)
  then show False
    using two eval_in_width(1) [OF off(1)] off(2) by simp
qed

text \<open>Writing the bytes of a value, at the positions \<open>P env i\<close>.\<close>

definition writes_bytes ::
  "(nat \<Rightarrow> expr \<Rightarrow> objstate \<Rightarrow> objstate option) \<Rightarrow> nat \<Rightarrow> nat \<Rightarrow> (env \<Rightarrow> nat \<Rightarrow> int) \<Rightarrow> bool" where
  "writes_bytes wr n sz P \<longleftrightarrow> (\<forall>i < n. \<forall>v os. obj_ok os \<longrightarrow> os_size os = sz \<longrightarrow> wfe v \<longrightarrow> getWidth v = 8 \<longrightarrow>
     (\<exists>os'. wr i v os = Some os' \<and> obj_ok os' \<and> os_size os' = sz \<and>
       (\<forall>j < sz. \<forall>env. mem env os' j = (if P env i = int j then eval v env else mem env os j))))"

definition stored :: "env \<Rightarrow> nat \<Rightarrow> (nat \<Rightarrow> int) \<Rightarrow> (nat \<Rightarrow> int) \<Rightarrow> objstate \<Rightarrow> objstate \<Rightarrow> bool" where
  "stored env n p byte os os' \<longleftrightarrow>
     (\<forall>j < os_size os. (\<forall>k < n. p k = int j \<longrightarrow> mem env os' j = byte k) \<and> ((\<forall>k < n. p k \<noteq> int j) \<longrightarrow> mem env os' j = mem env os j))"

lemma stored_Suc:
  assumes "stored env n p byte os os1" "inj_on p {..<Suc n}"
    and "\<And>j. j < os_size os \<Longrightarrow> mem env os2 j = (if p n = int j then byte n else mem env os1 j)"
  shows "stored env (Suc n) p byte os os2"
  unfolding stored_def
proof (intro allI impI conjI)
  fix j k
  assume j: "j < os_size os" and k: "k < Suc n" "p k = int j"
  show "mem env os2 j = byte k"
  proof (cases "k = n")
    case True
    with assms(3) [OF j] k show ?thesis
      by simp
  next
    case False
    then have "p n \<noteq> int j" "k < n"
      using assms(2) k by (auto simp: inj_on_def)
    with assms(1) assms(3) [OF j] j k show ?thesis
      by (simp add: stored_def)
  qed
next
  fix j
  assume "j < os_size os" "\<forall>k < Suc n. p k \<noteq> int j"
  with assms(1,3) show "mem env os2 j = mem env os j"
    by (simp add: stored_def)
qed

lemma split_bytes_ok:
  assumes os: "obj_ok os" and v: "wfe v" "8 * m \<le> getWidth v" and inj: "\<And>env. inj_on (P env) {..<m}"
    and wr: "writes_bytes wr m (os_size os) P"
  shows "n \<le> m \<Longrightarrow> \<exists>os'. split_bytes wr v n os = Some os' \<and> obj_ok os' \<and> os_size os' = os_size os \<and>
    (\<forall>env. stored env n (P env) (\<lambda>k. take_bit 8 (drop_bit (8 * k) (eval v env))) os os')"
proof (induction n)
  case 0
  with os show ?case
    by (simp add: stored_def)
next
  case (Suc n)
  then obtain os1 where 1: "split_bytes wr v n os = Some os1" "obj_ok os1" "os_size os1 = os_size os"
    "\<forall>env. stored env n (P env) (\<lambda>k. take_bit 8 (drop_bit (8 * k) (eval v env))) os os1"
    by auto
  have "wfe (ExtractExpr v (8 * n) 8)"
    using v Suc.prems by simp
  note e = eqvD [OF Extract_create_ok this]
  obtain os2 where 2: "wr n (Extract_create v (8 * n) 8) os1 = Some os2" "obj_ok os2" "os_size os2 = os_size os"
    "\<forall>j < os_size os. \<forall>env. mem env os2 j = (if P env n = int j then eval (Extract_create v (8 * n) 8) env else mem env os1 j)"
  proof -
    have "n < m" "getWidth (Extract_create v (8 * n) 8) = 8"
      using Suc.prems e(2) by simp_all
    then show ?thesis
      using that wr 1(2,3) e(1) unfolding writes_bytes_def by blast
  qed
  have "stored env (Suc n) (P env) (\<lambda>k. take_bit 8 (drop_bit (8 * k) (eval v env))) os os2" for env
  proof (rule stored_Suc)
    show "stored env n (P env) (\<lambda>k. take_bit 8 (drop_bit (8 * k) (eval v env))) os os1"
      using 1(4) by blast
    show "inj_on (P env) {..<Suc n}"
      by (rule inj_on_subset [OF inj [of env]]) (use Suc.prems in auto)
    show "mem env os2 j = (if P env n = int j then take_bit 8 (drop_bit (8 * n) (eval v env)) else mem env os1 j)" if "j < os_size os" for j
      using 2(4) that e(3) by simp
  qed
  with 1(1) 2 show ?case
    by simp
qed

lemma stored_Bool:
  assumes "\<forall>j < os_size os. \<forall>env. mem env os' j = (if P env (0::nat) = int j then b env else mem env os j)"
  shows "stored env (Suc 0) (P env) (\<lambda>k. b env) os os'"
  using assms by (simp add: stored_def)

text \<open>The bytes that a value of the width \<open>w\<close> leaves in memory.\<close>

definition byte_of :: "nat \<Rightarrow> int \<Rightarrow> nat \<Rightarrow> int" where
  "byte_of w x k = (if w = 1 then x else take_bit 8 (drop_bit (8 * k) x))"

lemma write_value_ok:
  assumes os: "obj_ok os" and v: "wfe v" "width_ok (getWidth v)"
    and inj: "\<And>env. inj_on (P env) {..<width_bytes (getWidth v)}"
    and wr: "writes_bytes wr (width_bytes (getWidth v)) (os_size os) P"
  shows "\<exists>os'. write_value wr le v os = Some os' \<and> obj_ok os' \<and> os_size os' = os_size os \<and>
    (\<forall>env. stored env (width_bytes (getWidth v)) (\<lambda>k. P env (byte_index le (width_bytes (getWidth v)) k))
       (byte_of (getWidth v) (eval v env)) os os')"
  using v(2)
proof (cases rule: width_cases)
  case Bool
  have z: "wfe (ZExt_create v 8)" "getWidth (ZExt_create v 8) = 8" "eval (ZExt_create v 8) env = eval v env" for env
    using ZExt_create_value [OF v(1), of 8] eval_in_width(1) [OF v(1), of env] Bool
    by (simp_all add: in_width_def take_bit_int_eq_self)
  obtain os' where "wr 0 (ZExt_create v 8) os = Some os'" "obj_ok os'" "os_size os' = os_size os"
    "\<forall>j < os_size os. \<forall>env. mem env os' j = (if P env 0 = int j then eval v env else mem env os j)"
    using wr z os Bool unfolding writes_bytes_def width_bytes_def by fastforce
  then show ?thesis
    using Bool by (auto simp: write_value_def width_bytes_def stored_def byte_index_def byte_of_def)
next
  case (Bytes n)
  have n: "width_bytes (getWidth v) = n"
    using Bytes by (simp add: width_bytes_def)
  have i: "inj_on (\<lambda>k. P env (byte_index le n k)) {..<n}" for env
  proof (rule inj_onI)
    fix x y
    assume xy: "x \<in> {..<n}" "y \<in> {..<n}" and "P env (byte_index le n x) = P env (byte_index le n y)"
    then have "byte_index le n x = byte_index le n y"
      using inj_onD [OF inj [of env]] byte_index_less n by simp
    with xy show "x = y"
      by (metis byte_index_inv lessThan_iff)
  qed
  have w: "writes_bytes (\<lambda>i. wr (byte_index le n i)) n (os_size os) (\<lambda>env k. P env (byte_index le n k))"
    using wr byte_index_less unfolding n writes_bytes_def by blast
  have "8 * n \<le> getWidth v"
    using Bytes by simp
  from split_bytes_ok [OF os v(1) this i w order_refl] obtain os' where
    "split_bytes (\<lambda>i. wr (byte_index le n i)) v n os = Some os'" "obj_ok os'" "os_size os' = os_size os"
    "\<forall>env. stored env n (\<lambda>k. P env (byte_index le n k)) (\<lambda>k. take_bit 8 (drop_bit (8 * k) (eval v env))) os os'"
    by blast
  moreover have "byte_of (getWidth v) x = (\<lambda>k. take_bit 8 (drop_bit (8 * k) x))" for x
    using Bytes by (simp add: byte_of_def fun_eq_iff)
  ultimately show ?thesis
    using Bytes(1-4) n by (simp add: write_value_def Let_def)
qed

lemma write_bytes_ok:
  assumes os: "obj_ok os" and b: "offset + n \<le> os_size os"
  shows "i \<le> n \<Longrightarrow> obj_ok (write_bytes le offset n v i os) \<and> os_size (write_bytes le offset n v i os) = os_size os \<and>
    (\<forall>env. stored env i (\<lambda>k. int (offset + byte_index le n k)) (\<lambda>k. take_bit 8 (drop_bit (8 * k) v)) os (write_bytes le offset n v i os))"
proof (induction i)
  case 0
  with os show ?case
    by (simp add: stored_def)
next
  case (Suc i)
  let ?os1 = "write_bytes le offset n v i os"
  have IH: "obj_ok ?os1" "os_size ?os1 = os_size os"
    "\<And>env. stored env i (\<lambda>k. int (offset + byte_index le n k)) (\<lambda>k. take_bit 8 (drop_bit (8 * k) v)) os ?os1"
    using Suc by simp_all
  have p: "offset + byte_index le n i < os_size ?os1"
    using b byte_index_less [of i n le] Suc.prems IH(2) by linarith
  have inj: "inj_on (\<lambda>k. int (offset + byte_index le n k)) {..<Suc i}"
    using Suc.prems by (intro inj_onI) (auto simp: byte_index_def split: if_splits)
  have "stored env (Suc i) (\<lambda>k. int (offset + byte_index le n k)) (\<lambda>k. take_bit 8 (drop_bit (8 * k) v)) os
     (write_bytes le offset n v (Suc i) os)" for env
    by (rule stored_Suc [OF IH(3) inj]) (auto simp: write8_byte_ok(3) [OF IH(1) p] IH(2))
  with write8_byte_ok(1,2) [OF IH(1) p] IH(2) show ?case
    by simp
qed

lemma write8_writes:
  assumes "offset + n \<le> m"
  shows "writes_bytes (\<lambda>i. write8 (offset + i)) n m (\<lambda>env k. int (offset + k))"
  unfolding writes_bytes_def
proof (intro allI impI)
  fix i v os
  assume "i < n" and os: "obj_ok os" "os_size os = m" and v: "wfe v" "getWidth v = 8"
  then have "offset + i < os_size os"
    using assms by simp
  from write8_ok [OF os(1) this v] show "\<exists>os'. write8 (offset + i) v os = Some os' \<and> obj_ok os' \<and> os_size os' = m \<and>
      (\<forall>j < m. \<forall>env. mem env os' j = (if int (offset + i) = int j then eval v env else mem env os j))"
    using os(2) by (metis (mono_tags, lifting) of_nat_eq_iff)
qed

lemma write_const_ok:
  assumes os: "obj_ok os" and v: "wfe v" "width_ok (getWidth v)" and b: "offset + width_bytes (getWidth v) \<le> os_size os"
  shows "\<exists>os'. write_const le offset v os = Some os' \<and> obj_ok os' \<and> os_size os' = os_size os \<and>
    (\<forall>env. stored env (width_bytes (getWidth v)) (\<lambda>k. int (offset + byte_index le (width_bytes (getWidth v)) k))
       (byte_of (getWidth v) (eval v env)) os os')"
proof (cases "\<exists>c. v = ConstantExpr c \<and> bitWidth c \<in> {1, 2, 4, 8, 16, 32, 64}")
  case False
  have inj: "inj_on (\<lambda>k. int (offset + k)) {..<width_bytes (getWidth v)}"
    by (intro inj_onI) simp
  from write_value_ok [OF os v, of "\<lambda>env k. int (offset + k)", OF inj write8_writes [OF b], of le] False show ?thesis
    by (auto simp: write_const_def split: option.split)
next
  case True
  then obtain c where c: "v = ConstantExpr c" "bitWidth c \<in> {1, 2, 4, 8, 16, 32, 64}"
    by blast
  have x: "ce_getZExtValue 64 c = Some (apval c)"
    using c(2) v(1) by (intro ce_getZExtValue_small) (auto simp: c(1))
  have r: "in_width (bitWidth c) (apval c)"
    using v(1) ap_ok_range by (simp add: c(1))
  show ?thesis
  proof (cases "bitWidth c \<le> 8")
    case True
    then have w: "bitWidth c = 1 \<or> bitWidth c = 8"
      using c v(2) by (auto simp: width_ok_def)
    then have n: "width_bytes (getWidth v) = 1"
      by (auto simp: c(1) width_bytes_def)
    have o: "offset < os_size os"
      using b n by simp
    have "take_bit 8 (apval c) = apval c"
      using w r by (auto simp: in_width_def take_bit_int_eq_self)
    then have "stored env 1 (\<lambda>k. int (offset + byte_index le 1 k)) (byte_of (getWidth v) (eval v env)) os (write8_byte offset (apval c) os)" for env
      using write8_byte_ok(3) [OF os o] w by (auto simp: stored_def byte_index_def byte_of_def c(1))
    with x c w n write8_byte_ok(1,2) [OF os o] show ?thesis
      by (auto simp: write_const_def)
  next
    case False
    define n where "n = bitWidth c div 8"
    have n: "width_bytes (getWidth v) = n" "byte_of (getWidth v) = (\<lambda>x k. take_bit 8 (drop_bit (8 * k) x))"
      using False by (simp_all add: c(1) width_bytes_def n_def byte_of_def fun_eq_iff)
    have w: "write_const le offset v os = Some (write_bytes le offset n (apval c) n os)"
      using x c False by (simp add: write_const_def n_def)
    show ?thesis
      unfolding n w using write_bytes_ok [OF os b [unfolded n] order_refl] by (simp add: c(1))
  qed
qed

section \<open>Symbolic offsets\<close>

text \<open>An offset that is either constant or takes two values: its sums with constants are not folded.\<close>

definition varies :: "expr \<Rightarrow> bool" where
  "varies off \<longleftrightarrow> (\<exists>env1 env2. eval off env1 \<noteq> eval off env2)"

text \<open>Where an offset points, and the assignments under which \<open>n\<close> bytes are inside of an object.\<close>

definition points_to :: "env \<Rightarrow> expr \<Rightarrow> nat" where
  "points_to env off = nat (take_bit 32 (eval off env))"

definition in_bounds :: "objstate \<Rightarrow> expr \<Rightarrow> nat \<Rightarrow> env \<Rightarrow> bool" where
  "in_bounds os off n env \<longleftrightarrow> points_to env off + n \<le> os_size os"

lemma offset32:
  assumes "wfe off"
  shows "wfe (ZExt_create off 32)" "getWidth (ZExt_create off 32) = 32" "eval (ZExt_create off 32) env = int (points_to env off)"
    "int (points_to env off) < 2 ^ 32"
  using ZExt_create_value [OF assms, of 32] take_bit_int_less_exp [of 32 "eval off env"] by (simp_all add: points_to_def)

text \<open>The offset \<open>off + i\<close> as \<open>read_at\<close> and \<open>write_at\<close> make it, for values of more than a Boolean.\<close>

definition byte_offset :: "nat \<Rightarrow> expr \<Rightarrow> nat \<Rightarrow> expr" where
  "byte_offset w off i = (if w = 1 then off else add_offset off i)"

lemma byte_offset_ok:
  assumes off: "wfe off" "getWidth off = 32" "as_const off = None" "varies off" and i: "i < width_bytes w" "i < 2 ^ 32"
  shows "wfe (byte_offset w off i)" "getWidth (byte_offset w off i) = 32" "as_const (byte_offset w off i) = None"
    "eval (byte_offset w off i) env = take_bit 32 (eval off env + int i)"
proof -
  show "wfe (byte_offset w off i)" "getWidth (byte_offset w off i) = 32"
    using off(1,2) add_offset_ok(1,2) [OF off(1,2) i(2)] by (simp_all add: byte_offset_def)
  obtain env1 env2 where "eval off env1 \<noteq> eval off env2"
    using off(4) by (auto simp: varies_def)
  then show "as_const (byte_offset w off i) = None"
    using off(3) add_offset_symbolic [OF off(1,2) i(2)] unfolding byte_offset_def by metis
  show "eval (byte_offset w off i) env = take_bit 32 (eval off env + int i)"
    using i off(1,2) eval_in_width(1) [OF off(1), of env] add_offset_ok(3) [OF off(1,2) i(2)]
    by (auto simp: byte_offset_def width_bytes_def in_width_def take_bit_int_eq_self)
qed

lemma byte_offset_in_bounds:
  assumes off: "wfe off" "getWidth off = 32" "as_const off = None" "varies off" and i: "i < width_bytes w"
    and b: "nat (eval off env) + width_bytes w \<le> n" "n < 2 ^ 32"
  shows "eval (byte_offset w off i) env = int (nat (eval off env) + i)"
proof -
  have "0 \<le> eval off env"
    using eval_in_width(1) [OF off(1), of env] by (simp add: in_width_def)
  moreover have "nat (eval off env) + i < 2 ^ 32" "i < 2 ^ 32"
    using i b by linarith+
  ultimately show ?thesis
    using byte_offset_ok(4) [OF off i, of env] by (simp add: take_bit_int_eq_self)
qed

lemma byte_offset_inj:
  assumes off: "wfe off" "getWidth off = 32" "as_const off = None" "varies off" and w: "width_bytes w < 2 ^ 32"
  shows "inj_on (\<lambda>i. eval (byte_offset w off i) env) {..<width_bytes w}"
proof (rule inj_onI)
  fix x y
  assume xy: "x \<in> {..<width_bytes w}" "y \<in> {..<width_bytes w}"
    and e: "eval (byte_offset w off x) env = eval (byte_offset w off y) env"
  have l: "x < 2 ^ 32" "y < 2 ^ 32"
    using xy w by auto
  then have "take_bit 32 (eval off env + int x) = take_bit 32 (eval off env + int y)"
    using e xy byte_offset_ok(4) [OF off, of x w env] byte_offset_ok(4) [OF off, of y w env] by simp
  then have "take_bit 32 (eval off env + int x - eval off env) = take_bit 32 (eval off env + int y - eval off env)"
    by (metis take_bit_diff)
  then show "x = y"
    using l by (simp add: take_bit_int_eq_self)
qed

lemma read_at_symbolic:
  assumes os: "obj_ok os" and w: "width_ok w" and b: "0 < os_size os" "width_bytes w \<le> os_size os"
    and off: "wfe off" "getWidth off = 32" "as_const off = None" "varies off"
  shows "reads_bytes (\<lambda>i. read8_at fresh (byte_offset w off i)) (width_bytes w) os
    (\<lambda>env. nat (eval off env) + width_bytes w \<le> os_size os) (\<lambda>env i. mem env os (nat (eval off env) + i))"
  unfolding reads_bytes_def
proof (intro allI impI)
  fix i os1
  assume i: "i < width_bytes w" and os1: "obj_ok os1" "same_mem os os1"
  have l: "os_size os < 2 ^ 32"
    using obj_okD(1) [OF os] by (simp add: shape_ok_def)
  have n: "os_size os1 = os_size os"
    using os1(2) by (simp add: same_mem_def)
  have i32: "i < 2 ^ 32"
    using i b(2) l by linarith
  have pos: "0 < os_size os1"
    using b(1) n by simp
  obtain e os2 where e: "read8_at fresh (byte_offset w off i) os1 = Some (e, os2)" "obj_ok os2" "same_mem os1 os2" "wfe e" "getWidth e = 8"
    "\<forall>env. \<forall>j < os_size os1. eval (byte_offset w off i) env = int j \<longrightarrow> eval e env = mem env os1 j"
    using read8_at_ok [OF os1(1) byte_offset_ok(1-3) [OF off i i32] pos] by blast
  have "eval e env = mem env os (nat (eval off env) + i)" if "nat (eval off env) + width_bytes w \<le> os_size os" for env
  proof -
    have "nat (eval off env) + i < os_size os"
      using that i by linarith
    then show ?thesis
      using e(6) byte_offset_in_bounds [OF off i that l] n os1(2) unfolding same_mem_def by metis
  qed
  with e same_mem_trans [OF os1(2) e(3)]
  show "\<exists>e os2. read8_at fresh (byte_offset w off i) os1 = Some (e, os2) \<and> obj_ok os2 \<and> same_mem os os2 \<and> wfe e \<and> getWidth e = 8 \<and>
      (\<forall>env. nat (eval off env) + width_bytes w \<le> os_size os \<longrightarrow> eval e env = mem env os (nat (eval off env) + i))"
    by blast
qed

lemma write_at_symbolic:
  assumes b: "width_bytes w \<le> m" "m < 2 ^ 32"
    and off: "wfe off" "getWidth off = 32" "as_const off = None" "varies off"
  shows "writes_bytes (\<lambda>i. write8_at (byte_offset w off i)) (width_bytes w) m (\<lambda>env i. eval (byte_offset w off i) env)"
  unfolding writes_bytes_def
proof (intro allI impI)
  fix i v os
  assume i: "i < width_bytes w" and os: "obj_ok os" "os_size os = m" and v: "wfe v" "getWidth v = 8"
  have "i < 2 ^ 32"
    using i b by linarith
  from write8_at_ok [OF os(1) byte_offset_ok(1-3) [OF off i this] v] os(2)
  show "\<exists>os'. write8_at (byte_offset w off i) v os = Some os' \<and> obj_ok os' \<and> os_size os' = m \<and>
      (\<forall>j < m. \<forall>env. mem env os' j = (if eval (byte_offset w off i) env = int j then eval v env else mem env os j))"
    by simp
qed

section \<open>The object as a memory of bytes\<close>

text \<open>An offset as the code needs it: constant, or taking two values. Some assignment is in bounds.\<close>

definition offset_ok :: "objstate \<Rightarrow> expr \<Rightarrow> nat \<Rightarrow> bool" where
  "offset_ok os off n \<longleftrightarrow> wfe off \<and> (as_const (ZExt_create off 32) = None \<longrightarrow> varies (ZExt_create off 32)) \<and> (\<exists>env. in_bounds os off n env)"

text \<open>Memory after a value \<open>x\<close> of the width \<open>w\<close> is stored at \<open>p\<close>.\<close>

definition store_value :: "bool \<Rightarrow> nat \<Rightarrow> int \<Rightarrow> nat \<Rightarrow> (nat \<Rightarrow> int) \<Rightarrow> nat \<Rightarrow> int" where
  "store_value le w x p f j =
     (if p \<le> j \<and> j < p + width_bytes w then byte_of w x (byte_index le (width_bytes w) (j - p)) else f j)"

lemma stored_store:
  assumes st: "stored env (width_bytes w) q (byte_of w x) os os'"
    and q: "\<And>k. k < width_bytes w \<Longrightarrow> q k = int (p + byte_index le (width_bytes w) k)" and j: "j < os_size os"
  shows "mem env os' j = store_value le w x p (mem env os) j"
proof (cases "p \<le> j \<and> j < p + width_bytes w")
  case True
  let ?k = "byte_index le (width_bytes w) (j - p)"
  have "j - p < width_bytes w"
    using True by auto
  then have "?k < width_bytes w" "q ?k = int j"
    using q [of ?k] byte_index_less byte_index_inv [of "j - p" "width_bytes w" le] True by simp_all
  with st j True show ?thesis
    by (simp add: stored_def store_value_def)
next
  case False
  have "q k \<noteq> int j" if "k < width_bytes w" for k
    using False q [OF that] byte_index_less [OF that, of le] by auto
  with st j False show ?thesis
    by (auto simp: stored_def store_value_def)
qed

lemma width_bytes_pos: "width_ok w \<Longrightarrow> 0 < width_bytes w"
  by (auto simp: width_ok_def width_bytes_def)

lemma offset_constant:
  assumes off: "wfe off" and c: "as_const (ZExt_create off 32) = Some c"
  shows "ce_getZExtValue 32 c = Some (int (points_to env off))"
proof -
  have "ZExt_create off 32 = ConstantExpr c"
    using c by auto
  then have "apval c = int (points_to env off)" "bitWidth c = 32" "ap_ok c"
    using offset32(1-3) [OF off] by (metis eval.simps(1), metis getWidth.simps(1), metis wfe.simps(1))
  then show ?thesis
    using ap_ok_range [of c] by (simp add: ce_getZExtValue_def in_width_def)
qed

lemma read_at_ok:
  assumes os: "obj_ok os" and w: "width_ok w" and off: "offset_ok os off (width_bytes w)"
  shows "\<exists>e os'. read_at fresh le off w os = Some (e, os') \<and> obj_ok os' \<and> same_mem os os' \<and> wfe e \<and> getWidth e = w \<and>
    (\<forall>env. in_bounds os off (width_bytes w) env \<longrightarrow> eval e env = value_at le w (\<lambda>i. mem env os (points_to env off + i)))"
proof -
  let ?off = "ZExt_create off 32"
  obtain env0 where b: "wfe off" "as_const ?off = None \<longrightarrow> varies ?off" "in_bounds os off (width_bytes w) env0"
    using off by (auto simp: offset_ok_def)
  note o = offset32 [OF b(1)]
  show ?thesis
  proof (cases "as_const ?off")
    case (Some c)
    define p where "p = points_to env0 off"
    have c: "ce_getZExtValue 32 c = Some (int (points_to env off))" for env
      by (rule offset_constant [OF b(1) Some])
    then have same: "points_to env off = p" for env
      unfolding p_def by (metis nat_int option.inject)
    have "p + width_bytes w \<le> os_size os"
      using b(3) by (simp add: in_bounds_def same)
    from read_const_ok [OF os w this, of fresh le] show ?thesis
      using Some c [of env0] by (auto simp add: read_at_def same)
  next
    case None
    have n: "0 < os_size os" "width_bytes w \<le> os_size os"
      using b(3) width_bytes_pos [OF w] by (auto simp: in_bounds_def)
    note v = b(2) [rule_format, OF None]
    have "read_at fresh le off w os = read_value (\<lambda>i. read8_at fresh (byte_offset w ?off i)) le w os"
      using None by (simp add: read_at_def read_value_def byte_offset_def)
    with read_value_ok [OF os read_at_symbolic [OF os w n o(1,2) None v, of fresh] w, of le] show ?thesis
      by (simp add: o(3) in_bounds_def)
  qed
qed

lemma write_at_ok:
  assumes os: "obj_ok os" and v: "wfe v" "width_ok (getWidth v)" and off: "offset_ok os off (width_bytes (getWidth v))"
  shows "\<exists>os'. write_at le off v os = Some os' \<and> obj_ok os' \<and> os_size os' = os_size os \<and>
    (\<forall>env. in_bounds os off (width_bytes (getWidth v)) env \<longrightarrow>
      (\<forall>j < os_size os. mem env os' j = store_value le (getWidth v) (eval v env) (points_to env off) (mem env os) j))"
proof -
  let ?off = "ZExt_create off 32" and ?n = "width_bytes (getWidth v)"
  obtain env0 where b: "wfe off" "as_const ?off = None \<longrightarrow> varies ?off" "in_bounds os off ?n env0"
    using off by (auto simp: offset_ok_def)
  note o = offset32 [OF b(1)]
  show ?thesis
  proof (cases "as_const ?off")
    case (Some c)
    define p where "p = points_to env0 off"
    have c: "ce_getZExtValue 32 c = Some (int (points_to env off))" for env
      by (rule offset_constant [OF b(1) Some])
    then have same: "points_to env off = p" for env
      unfolding p_def by (metis nat_int option.inject)
    have "p + ?n \<le> os_size os"
      using b(3) by (simp add: in_bounds_def same)
    from write_const_ok [OF os v this, of le] obtain os' where
      1: "write_const le p v os = Some os'" "obj_ok os'" "os_size os' = os_size os"
      "\<And>env. stored env ?n (\<lambda>k. int (p + byte_index le ?n k)) (byte_of (getWidth v) (eval v env)) os os'"
      by blast
    have "mem env os' j = store_value le (getWidth v) (eval v env) (points_to env off) (mem env os) j" if "j < os_size os" for env j
      using stored_store [OF 1(4) _ that, where p = p and le = le] by (simp add: same)
    with 1(1-3) Some c [of env0] show ?thesis
      by (simp add: write_at_def same)
  next
    case None
    have n: "?n \<le> os_size os" "os_size os < 2 ^ 32"
      using b(3) obj_okD(1) [OF os] by (auto simp: in_bounds_def shape_ok_def)
    note v' = b(2) [rule_format, OF None]
    have "?n < 2 ^ 32"
      using n by linarith
    note inj = byte_offset_inj [OF o(1,2) None v' this]
    obtain os' where 1: "write_value (\<lambda>i. write8_at (byte_offset (getWidth v) ?off i)) le v os = Some os'" "obj_ok os'" "os_size os' = os_size os"
      "\<And>env. stored env ?n (\<lambda>k. eval (byte_offset (getWidth v) ?off (byte_index le ?n k)) env) (byte_of (getWidth v) (eval v env)) os os'"
      using write_value_ok [OF os v inj write_at_symbolic [OF n o(1,2) None v'], of le] by blast
    have "mem env os' j = store_value le (getWidth v) (eval v env) (points_to env off) (mem env os) j"
      if "in_bounds os off ?n env" "j < os_size os" for env j
    proof (rule stored_store [OF 1(4) _ that(2)])
      fix k
      assume "k < ?n"
      then show "eval (byte_offset (getWidth v) ?off (byte_index le ?n k)) env = int (points_to env off + byte_index le ?n k)"
        using byte_offset_in_bounds [OF o(1,2) None v' byte_index_less _ n(2), of k "getWidth v" env le] that(1)
        by (simp add: o(3) in_bounds_def)
    qed
    moreover have "write_at le off v os = write_value (\<lambda>i. write8_at (byte_offset (getWidth v) ?off i)) le v os"
      using None by (cases "getWidth v = 1") (simp_all add: write_at_def write_value_def byte_offset_def Let_def)
    ultimately show ?thesis
      using 1(1-3) by simp
  qed
qed

lemma bytes_value_split: "bytes_value (\<lambda>k. take_bit 8 (drop_bit (8 * k) x)) n = take_bit (8 * n) (x::int)"
proof (induction n)
  case (Suc n)
  have "push_bit (8 * n) (take_bit 8 (drop_bit (8 * n) x)) OR take_bit (8 * n) x = take_bit (8 * Suc n) x"
    by (rule bit_eqI) (auto simp: bit_simps)
  with Suc show ?case
    by simp
qed simp

lemma bytes_value_cong: "(\<And>k. k < n \<Longrightarrow> f k = g k) \<Longrightarrow> bytes_value f n = bytes_value g n"
  by (induction n) auto

text \<open>A value that is stored is read again, in the same byte order.\<close>

lemma value_at_store:
  assumes w: "width_ok w" and x: "in_width w x"
  shows "value_at le w (\<lambda>i. store_value le w x p f (p + i)) = x"
  using w
proof (cases rule: width_cases)
  case Bool
  with x show ?thesis
    by (simp add: value_at_def store_value_def width_bytes_def byte_of_def in_width_def take_bit_int_eq_self)
next
  case (Bytes n)
  have n: "width_bytes w = n"
    using Bytes by (simp add: width_bytes_def)
  have "bytes_value (\<lambda>i. store_value le w x p f (p + byte_index le n i)) n = bytes_value (\<lambda>k. take_bit 8 (drop_bit (8 * k) x)) n"
    by (rule bytes_value_cong) (use Bytes(3) in \<open>simp add: store_value_def n byte_of_def byte_index_less byte_index_inv\<close>)
  with Bytes(1-4) x show ?thesis
    by (simp add: value_at_def bytes_value_split in_width_def take_bit_int_eq_self)
qed

lemma value_at_cong:
  assumes "width_ok w" "\<And>i. i < width_bytes w \<Longrightarrow> f i = g i"
  shows "value_at le w f = value_at le w g"
  using assms(1)
proof (cases rule: width_cases)
  case Bool
  with assms(2) [of 0] show ?thesis
    by (simp add: value_at_def width_bytes_def)
next
  case (Bytes n)
  have "width_bytes w = n"
    using Bytes by (simp add: width_bytes_def)
  then have "bytes_value (\<lambda>i. f (byte_index le n i)) n = bytes_value (\<lambda>i. g (byte_index le n i)) n"
    by (intro bytes_value_cong assms(2)) (simp add: byte_index_less)
  with Bytes(3,4) show ?thesis
    by (simp add: value_at_def)
qed

section \<open>New objects\<close>

lemma concrete_object_ok:
  assumes "n < 2 ^ 32" "\<And>a. arr = Some a \<Longrightarrow> byte_array a"
  shows "obj_ok (concrete_object n arr)"
  using assms
  by (auto simp: obj_ok_def concrete_object_def shape_ok_def list_all_length in_width_def byte_writes_def bounded_def
      knownSymbolic_def isByteFlushed_def isByteConcrete_def)

lemma concrete_object_mem: "i < n \<Longrightarrow> mem env (concrete_object n arr) i = 0"
  by (simp add: mem_def isByteConcrete_def concrete_object_def)

lemma initializeToZero_ok:
  assumes "obj_ok os"
  shows "obj_ok (initializeToZero os)" "i < os_size os \<Longrightarrow> mem env (initializeToZero os) i = 0"
  using obj_okD(1,3-5) [OF assms]
  by (simp_all add: obj_ok_def initializeToZero_def makeConcrete_def shape_ok_def list_all_length in_width_def
      knownSymbolic_def isByteFlushed_def isByteConcrete_def mem_def)

lemma symbolic_object_prefix:
  assumes "k \<le> n"
  shows "fold (\<lambda>i os. markByteFlushed i (setKnownSymbolic i None (markByteSymbolic i os))) [0..<k] (concrete_object n arr) =
    (concrete_object n arr)\<lparr>concreteMask := if k = 0 then None else Some (map (\<lambda>i. k \<le> i) [0..<n]),
      flushMask := if k = 0 then None else Some (replicate n False)\<rparr>"
  using assms
proof (induction k)
  case (Suc k)
  have "(map (\<lambda>i. k \<le> i) [0..<n])[k := False] = map (\<lambda>i. Suc k \<le> i) [0..<n]" "(replicate n True)[0 := False] = map (\<lambda>i. Suc 0 \<le> i) [0..<n]"
    using Suc.prems by (auto simp: list_eq_iff_nth_eq nth_list_update)
  with Suc show ?case
    by (auto simp: concrete_object_def markByteFlushed_def setKnownSymbolic_def markByteSymbolic_def list_update_same_conv)
qed (simp add: concrete_object_def)

text \<open>A symbolic object holds what its array holds.\<close>

lemma symbolic_object_ok:
  assumes n: "n < 2 ^ 32" and a: "byte_array arr"
  obtains os where "symbolic_object n arr = Some os" "obj_ok os" "os_size os = n"
    "\<And>i env. i < n \<Longrightarrow> mem env os i = initial env arr (int i)"
proof -
  define os where "os = (concrete_object n (Some arr))\<lparr>concreteMask := if n = 0 then None else Some (map (\<lambda>i. n \<le> i) [0..<n]),
    flushMask := if n = 0 then None else Some (replicate n False)\<rparr>"
  have fields: "os_size os = n" "root os = Some arr" "head os = UNil" "concreteStore os = replicate n 0"
    by (simp_all add: os_def concrete_object_def)
  have marks: "\<not> isByteConcrete os i" "isByteFlushed os i" "knownSymbolic os i = None" if "i < n" for i
    using that by (simp_all add: os_def concrete_object_def isByteConcrete_def isByteFlushed_def knownSymbolic_def)
  have mem: "mem env os i = initial env arr (int i)" "flushed_val env os i = initial env arr (int i)" if "i < n" for env i
    using marks that by (simp_all add: mem_def flushed_val_def base_val_def fields)
  have "shape_ok os"
    using n by (simp add: shape_ok_def os_def concrete_object_def)
  then have "obj_ok os"
    using a marks mem by (simp add: obj_ok_def fields list_all_length in_width_def byte_writes_def bounded_def)
  moreover have "symbolic_object n arr = Some os"
    using symbolic_object_prefix [of n n "Some arr"]
    by (simp add: symbolic_object_def makeSymbolic_def os_def) (simp add: concrete_object_def)
  ultimately show ?thesis
    using that fields(1) mem(1) by blast
qed

section \<open>The concrete store\<close>

text \<open>
  With values that agree with an assignment, the flushed store holds the memory under that assignment,
  for the bytes that are concrete or known expressions. Other bytes keep what the store had.
\<close>

lemma flushToConcreteStore_mem:
  assumes os: "obj_ok os" and i: "i < os_size os" "isByteConcrete os i \<or> isByteKnownSymbolic os i"
    and get: "\<And>e. knownSymbolic os i = Some e \<Longrightarrow> \<exists>c. getValue e = Some c \<and> apval c = eval e env"
  shows "concreteStore (flushToConcreteStore getValue os) ! i = mem env os i"
proof (cases "knownSymbolic os i")
  case None
  with i show ?thesis
    by (auto simp: flushToConcreteStore_def mem_def isByteKnownSymbolic_def)
next
  case (Some e)
  from obj_okD(6) [OF os i(1) this] have "in_width 8 (eval e env)" "\<not> isByteConcrete os i"
    using eval_in_width(1) [of e env] by auto
  with Some i(1) get [OF Some] show ?thesis
    by (auto simp: flushToConcreteStore_def mem_def in_width_def take_bit_int_eq_self)
qed

lemma unflushed_store_kept:
  "i < os_size os \<Longrightarrow> knownSymbolic os i = None \<Longrightarrow> concreteStore (flushToConcreteStore getValue os) ! i = concreteStore os ! i"
  by (simp add: flushToConcreteStore_def)

section \<open>Properties\<close>

text \<open>
  C27: What is read from an object at a symbolic or a constant offset is what its memory holds: under
  every assignment for which the access is in bounds, the expression that is returned has the value
  of the bytes at the offset, and the flushing of bytes and the making of a constant array that the
  read does along the way change no byte.
\<close>

theorem object_read:
  assumes "obj_ok os" "width_ok w" "offset_ok os off (width_bytes w)"
  shows "\<exists>e os'. read_at fresh le off w os = Some (e, os') \<and> obj_ok os' \<and> same_mem os os' \<and> getWidth e = w \<and>
    (\<forall>env. in_bounds os off (width_bytes w) env \<longrightarrow> eval e env = value_at le w (\<lambda>i. mem env os (points_to env off + i)))"
  using read_at_ok [OF assms] by blast

text \<open>
  C26: A write to an object at a symbolic or a constant offset stores the bytes of the value there, in
  the byte order of the target, and leaves every other byte as it was, under every assignment for
  which the access is in bounds.
\<close>

theorem object_write:
  assumes "obj_ok os" "wfe v" "width_ok (getWidth v)" "offset_ok os off (width_bytes (getWidth v))"
  shows "\<exists>os'. write_at le off v os = Some os' \<and> obj_ok os' \<and> os_size os' = os_size os \<and>
    (\<forall>env j. in_bounds os off (width_bytes (getWidth v)) env \<and> j < os_size os \<longrightarrow>
      mem env os' j = store_value le (getWidth v) (eval v env) (points_to env off) (mem env os) j)"
  using write_at_ok [OF assms, of le] by blast

text \<open>
  C25: A value that is written to an object is read back from the same offset, whether the offset is
  constant or symbolic and whatever was cached about the bytes before.
\<close>

theorem object_round_trip:
  assumes "obj_ok os" "wfe v" "width_ok (getWidth v)" "offset_ok os off (width_bytes (getWidth v))"
  shows "\<exists>os1 e os2. write_at le off v os = Some os1 \<and> read_at fresh le off (getWidth v) os1 = Some (e, os2) \<and>
    (\<forall>env. in_bounds os off (width_bytes (getWidth v)) env \<longrightarrow> eval e env = eval v env)"
proof -
  let ?w = "getWidth v" and ?n = "width_bytes (getWidth v)"
  obtain os1 where 1: "write_at le off v os = Some os1" "obj_ok os1" "os_size os1 = os_size os"
    "\<And>env j. in_bounds os off ?n env \<Longrightarrow> j < os_size os \<Longrightarrow>
      mem env os1 j = store_value le ?w (eval v env) (points_to env off) (mem env os) j"
    using write_at_ok [OF assms, of le] by blast
  have b: "in_bounds os1 off n env = in_bounds os off n env" for n env
    by (simp add: in_bounds_def 1(3))
  have "offset_ok os1 off ?n"
    using assms(4) by (simp add: offset_ok_def b)
  from read_at_ok [OF 1(2) assms(3) this] obtain e os2 where 2: "read_at fresh le off ?w os1 = Some (e, os2)"
    "\<And>env. in_bounds os off ?n env \<Longrightarrow> eval e env = value_at le ?w (\<lambda>i. mem env os1 (points_to env off + i))"
    unfolding b by blast
  have "eval e env = eval v env" if i: "in_bounds os off ?n env" for env
  proof -
    have "eval e env = value_at le ?w (\<lambda>i. store_value le ?w (eval v env) (points_to env off) (mem env os) (points_to env off + i))"
      unfolding 2(2) [OF i] by (rule value_at_cong [OF assms(3)]) (use i 1(4) [OF i] in \<open>simp add: in_bounds_def\<close>)
    then show ?thesis
      using value_at_store [OF assms(3) eval_in_width(1) [OF assms(2)]] by simp
  qed
  with 1(1) 2(1) show ?thesis
    by blast
qed

section \<open>An example\<close>

text \<open>Four bytes, an offset that is a symbolic byte, and the assignments that put it in bounds.\<close>

definition example_offset :: expr where
  "example_offset = ReadExpr \<lparr>arr_ptr = 1, arr_name = ''k'', arr_size = 1, arr_domain = 32, arr_range = 8, constantValues = []\<rparr> UNil (const32 0)"

definition example_memory :: objstate where
  "example_memory = concrete_object 4 None"

lemma example_offset_value: "wfe example_offset" "eval example_offset env = take_bit 8 (env \<lparr>arr_ptr = 1, arr_name = ''k'', arr_size = 1,
    arr_domain = 32, arr_range = 8, constantValues = []\<rparr> 0)"
  by (simp_all add: example_offset_def array_ok_def initial_def isConstantArray_def isSymbolicArray_def)

lemma example_points_to: "points_to (\<lambda>a i. x) example_offset = nat (take_bit 8 x)"
  by (simp add: points_to_def example_offset_value(2))

lemma example_memory_ok: "obj_ok example_memory" "os_size example_memory = 4"
  by (auto simp: example_memory_def intro: concrete_object_ok) (simp add: concrete_object_def)

lemma example_in_bounds: "in_bounds example_memory example_offset 2 (\<lambda>a i. 1)"
  by (simp add: in_bounds_def example_memory_ok example_points_to)

lemma example_offset_ok: "offset_ok example_memory example_offset 2"
proof -
  have "eval (ZExt_create example_offset 32) (\<lambda>a i. 0) \<noteq> eval (ZExt_create example_offset 32) (\<lambda>a i. 1)"
    unfolding offset32(3) [OF example_offset_value(1)] by (simp add: example_points_to)
  then show ?thesis
    using example_offset_value(1) example_in_bounds unfolding offset_ok_def varies_def by blast
qed

theorem object_read_witness:
  "\<exists>e os'. read_at (1, ''m'') True example_offset 16 example_memory = Some (e, os') \<and> eval e (\<lambda>a i. 1) = 0"
proof -
  have "value_at True 16 (\<lambda>i. mem (\<lambda>a i. 1) example_memory (1 + i)) = 0"
    by (simp add: value_at_def example_memory_def concrete_object_mem byte_index_def numeral_2_eq_2)
  with object_read [of example_memory 16 example_offset "(1, ''m'')" True] example_memory_ok(1) example_offset_ok example_in_bounds
  show ?thesis
    by (auto simp: width_ok_def width_bytes_def example_points_to)
qed

theorem object_write_witness:
  "\<exists>os'. write_at True example_offset (ConstantExpr (ce_alloc 0x1234 16)) example_memory = Some os' \<and>
    map (mem (\<lambda>a i. 1) os') [0..<4] = [0, 0x34, 0x12, 0]"
proof -
  let ?v = "ConstantExpr (ce_alloc 0x1234 16)"
  have v: "wfe ?v" "getWidth ?v = 16" "width_ok 16" "width_bytes 16 = 2" "eval ?v env = 0x1234" for env
    by (simp_all add: ap_ok_def ce_alloc_def in_width_def width_ok_def width_bytes_def)
  obtain os' where "write_at True example_offset ?v example_memory = Some os'"
    "\<And>j. j < 4 \<Longrightarrow> mem (\<lambda>a i. 1) os' j = store_value True 16 0x1234 1 (mem (\<lambda>a i. 1) example_memory) j"
    using object_write [of example_memory ?v example_offset True] example_memory_ok example_offset_ok example_in_bounds
    by (auto simp del: getWidth.simps eval.simps simp: v example_points_to)
  then show ?thesis
    by (simp add: upt_rec [of _ 4] store_value_def v byte_of_def byte_index_def example_memory_def concrete_object_mem)
qed

theorem object_round_trip_witness:
  "\<exists>os1 e os2. write_at True example_offset (ConstantExpr (ce_alloc 0x1234 16)) example_memory = Some os1 \<and>
    read_at (1, ''m'') True example_offset 16 os1 = Some (e, os2) \<and> eval e (\<lambda>a i. 1) = 0x1234"
proof -
  let ?v = "ConstantExpr (ce_alloc 0x1234 16)"
  have v: "wfe ?v" "getWidth ?v = 16" "width_ok 16" "width_bytes 16 = 2" "eval ?v env = 0x1234" for env
    by (simp_all add: ap_ok_def ce_alloc_def in_width_def width_ok_def width_bytes_def)
  show ?thesis
    using object_round_trip [of example_memory ?v example_offset True "(1, ''m'')"] example_memory_ok(1) example_offset_ok example_in_bounds
    by (auto simp del: getWidth.simps eval.simps simp: v)
qed

end
