(* ===== verification/ImmutableTree.thy ===== *)
theory ImmutableTree
  imports Main
begin

text \<open>
  Immutable search trees (\<open>include/klee/Internal/ADT/ImmutableTree.h\<close>), the maps of the executor's
  memory. A tree is balanced up to a difference of two in height. The comparison \<open>key_compare\<close> and the
  key of a value are arguments; that the comparison is a strict weak order is the locale
  \<open>key_compare\<close>. Nodes are shared and counted in the code, here they are values. Two nodes of one tree
  are the same node when they are equal, since no value occurs twice.
\<close>

section \<open>Nodes\<close>

text \<open>The terminator has itself as its children and the height 0; its value is not initialised.\<close>

datatype 'v node = Terminator | Node (left: "'v node") (right: "'v node") (val: 'v) (height: nat)
  where "left Terminator = Terminator" | "right Terminator = Terminator" | "height Terminator = 0"

definition new_Node :: "'v node \<Rightarrow> 'v node \<Rightarrow> 'v \<Rightarrow> 'v node" where
  "new_Node l r v = Node l r v (max (height l) (height r) + 1)"

definition balance :: "'v node \<Rightarrow> 'v \<Rightarrow> 'v node \<Rightarrow> 'v node" where
  "balance l v r =
     (if height l > height r + 2 then
        let ll = left l; lr = right l
        in if height ll \<ge> height lr then new_Node ll (new_Node lr r v) (val l)
           else (let lrl = left lr; lrr = right lr
                 in new_Node (new_Node ll lrl (val l)) (new_Node lrr r v) (val lr))
      else if height r > height l + 2 then
        let rl = left r; rr = right r
        in if height rr \<ge> height rl then new_Node (new_Node l rl v) rr (val r)
           else (let rll = left rl; rlr = right rl
                 in new_Node (new_Node l rll v) (new_Node rlr rr (val r)) (val rl))
      else new_Node l r v)"

primrec node_size :: "'v node \<Rightarrow> nat" where
  "node_size Terminator = 0"
| "node_size (Node l r v h) = node_size l + 1 + node_size r"

primrec popMin :: "'v node \<Rightarrow> 'v \<times> 'v node" where
  "popMin Terminator = (val Terminator, Terminator)"
| "popMin (Node l r v h) =
     (if l = Terminator then (v, r) else let (out, l') = popMin l in (out, balance l' v r))"

primrec popMax :: "'v node \<Rightarrow> 'v \<times> 'v node" where
  "popMax Terminator = (val Terminator, Terminator)"
| "popMax (Node l r v h) =
     (if r = Terminator then (v, l) else let (out, r') = popMax r in (out, balance l v r'))"

primrec insert_node :: "('k \<Rightarrow> 'k \<Rightarrow> bool) \<Rightarrow> ('v \<Rightarrow> 'k) \<Rightarrow> 'v \<Rightarrow> 'v node \<Rightarrow> 'v node" where
  "insert_node lt key x Terminator = new_Node Terminator Terminator x"
| "insert_node lt key x (Node l r v h) =
     (if lt (key x) (key v) then balance (insert_node lt key x l) v r
      else if lt (key v) (key x) then balance l v (insert_node lt key x r)
      else Node l r v h)"

primrec replace_node :: "('k \<Rightarrow> 'k \<Rightarrow> bool) \<Rightarrow> ('v \<Rightarrow> 'k) \<Rightarrow> 'v \<Rightarrow> 'v node \<Rightarrow> 'v node" where
  "replace_node lt key x Terminator = new_Node Terminator Terminator x"
| "replace_node lt key x (Node l r v h) =
     (if lt (key x) (key v) then balance (replace_node lt key x l) v r
      else if lt (key v) (key x) then balance l v (replace_node lt key x r)
      else new_Node l r x)"

primrec remove_node :: "('k \<Rightarrow> 'k \<Rightarrow> bool) \<Rightarrow> ('v \<Rightarrow> 'k) \<Rightarrow> 'k \<Rightarrow> 'v node \<Rightarrow> 'v node" where
  "remove_node lt key k Terminator = Terminator"
| "remove_node lt key k (Node l r v h) =
     (if lt k (key v) then balance (remove_node lt key k l) v r
      else if lt (key v) k then balance l v (remove_node lt key k r)
      else if l = Terminator then r
      else if r = Terminator then l
      else let (min, nr) = popMin r in balance l min nr)"

section \<open>Searching\<close>

primrec count_key :: "('k \<Rightarrow> 'k \<Rightarrow> bool) \<Rightarrow> ('v \<Rightarrow> 'k) \<Rightarrow> 'k \<Rightarrow> 'v node \<Rightarrow> nat" where
  "count_key lt key k Terminator = 0"
| "count_key lt key k (Node l r v h) =
     (if lt k (key v) then count_key lt key k l else if lt (key v) k then count_key lt key k r else 1)"

primrec lookup :: "('k \<Rightarrow> 'k \<Rightarrow> bool) \<Rightarrow> ('v \<Rightarrow> 'k) \<Rightarrow> 'k \<Rightarrow> 'v node \<Rightarrow> 'v option" where
  "lookup lt key k Terminator = None"
| "lookup lt key k (Node l r v h) =
     (if lt k (key v) then lookup lt key k l else if lt (key v) k then lookup lt key k r else Some v)"

text \<open>The loop of \<open>lookup_previous\<close>, with the last smaller value so far.\<close>

primrec lookup_previous_from :: "('k \<Rightarrow> 'k \<Rightarrow> bool) \<Rightarrow> ('v \<Rightarrow> 'k) \<Rightarrow> 'k \<Rightarrow> 'v node \<Rightarrow> 'v option \<Rightarrow> 'v option" where
  "lookup_previous_from lt key k Terminator result = result"
| "lookup_previous_from lt key k (Node l r v h) result =
     (if lt k (key v) then lookup_previous_from lt key k l result
      else if lt (key v) k then lookup_previous_from lt key k r (Some v)
      else Some v)"

definition lookup_previous :: "('k \<Rightarrow> 'k \<Rightarrow> bool) \<Rightarrow> ('v \<Rightarrow> 'k) \<Rightarrow> 'k \<Rightarrow> 'v node \<Rightarrow> 'v option" where
  "lookup_previous lt key k t = lookup_previous_from lt key k t None"

text \<open>\<open>min\<close> and \<open>max\<close> assert that the tree is not empty.\<close>

primrec min_value :: "'v node \<Rightarrow> 'v option" where
  "min_value Terminator = None"
| "min_value (Node l r v h) = (if l = Terminator then Some v else min_value l)"

primrec max_value :: "'v node \<Rightarrow> 'v option" where
  "max_value Terminator = None"
| "max_value (Node l r v h) = (if r = Terminator then Some v else max_value r)"

section \<open>Iterators\<close>

text \<open>An iterator holds the path from its node, which comes first, up to the root; at the end it is empty.\<close>

record 'v iterator =
  it_root :: "'v node"
  it_stack :: "'v node list"

primrec push_left :: "'v node \<Rightarrow> 'v node list \<Rightarrow> 'v node list" where
  "push_left Terminator st = st"
| "push_left (Node l r v h) st = push_left l (Node l r v h # st)"

primrec push_right :: "'v node \<Rightarrow> 'v node list \<Rightarrow> 'v node list" where
  "push_right Terminator st = st"
| "push_right (Node l r v h) st = push_right r (Node l r v h # st)"

definition it_begin :: "'v node \<Rightarrow> 'v iterator" where
  "it_begin t = \<lparr>it_root = t, it_stack = push_left t []\<rparr>"

definition it_end :: "'v node \<Rightarrow> 'v iterator" where
  "it_end t = \<lparr>it_root = t, it_stack = []\<rparr>"

definition deref_it :: "'v iterator \<Rightarrow> 'v option" where
  "deref_it it = (case it_stack it of [] \<Rightarrow> None | n # st \<Rightarrow> Some (val n))"

text \<open>Up from the node \<open>prev\<close> until it is a left child, or a right child.\<close>

primrec up_from_left :: "'v node \<Rightarrow> 'v node list \<Rightarrow> 'v node list" where
  "up_from_left prev [] = []"
| "up_from_left prev (n # st) = (if prev = left n then n # st else up_from_left n st)"

primrec up_from_right :: "'v node \<Rightarrow> 'v node list \<Rightarrow> 'v node list" where
  "up_from_right prev [] = []"
| "up_from_right prev (n # st) = (if prev = right n then n # st else up_from_right n st)"

text \<open>\<open>++\<close> asserts that the end is not reached; \<open>--\<close> goes back from the end.\<close>

definition increment :: "'v iterator \<Rightarrow> 'v iterator option" where
  "increment it =
     (case it_stack it of
        [] \<Rightarrow> None
      | n # st \<Rightarrow> Some (it\<lparr>it_stack :=
          (if right n = Terminator then up_from_left n st else push_left (left (right n)) (right n # n # st))\<rparr>))"

definition decrement :: "'v iterator \<Rightarrow> 'v iterator" where
  "decrement it =
     it\<lparr>it_stack := (case it_stack it of
        [] \<Rightarrow> push_right (it_root it) []
      | n # st \<Rightarrow> (if left n = Terminator then up_from_right n st else push_right (right (left n)) (left n # n # st)))\<rparr>"

text \<open>The loop of \<open>lower_bound\<close>: the path, and whether it has met the key.\<close>

primrec descend :: "('k \<Rightarrow> 'k \<Rightarrow> bool) \<Rightarrow> ('v \<Rightarrow> 'k) \<Rightarrow> 'k \<Rightarrow> 'v node \<Rightarrow> 'v node list \<Rightarrow> 'v node list \<times> bool" where
  "descend lt key k Terminator st = (st, False)"
| "descend lt key k (Node l r v h) st =
     (let st' = Node l r v h # st
      in if lt k (key v) then descend lt key k l st'
         else if lt (key v) k then descend lt key k r st'
         else (st', True))"

definition lower_bound :: "('k \<Rightarrow> 'k \<Rightarrow> bool) \<Rightarrow> ('v \<Rightarrow> 'k) \<Rightarrow> 'k \<Rightarrow> 'v node \<Rightarrow> 'v iterator option" where
  "lower_bound lt key k t =
     (let (st, found) = descend lt key k t []; it = \<lparr>it_root = t, it_stack = st\<rparr>
      in if found then Some it
         else case st of
             [] \<Rightarrow> Some it
           | n # _ \<Rightarrow> (if lt (key (val n)) k then increment it else Some it))"

definition it_find :: "('k \<Rightarrow> 'k \<Rightarrow> bool) \<Rightarrow> ('v \<Rightarrow> 'k) \<Rightarrow> 'k \<Rightarrow> 'v node \<Rightarrow> 'v iterator option" where
  "it_find lt key k t =
     (case lower_bound lt key k t of
        None \<Rightarrow> None
      | Some it \<Rightarrow>
          (case deref_it it of
             None \<Rightarrow> Some (it_end t)
           | Some v \<Rightarrow> Some (if lt k (key v) then it_end t else it)))"

definition upper_bound :: "('k \<Rightarrow> 'k \<Rightarrow> bool) \<Rightarrow> ('v \<Rightarrow> 'k) \<Rightarrow> 'k \<Rightarrow> 'v node \<Rightarrow> 'v iterator option" where
  "upper_bound lt key k t =
     (case lower_bound lt key k t of
        None \<Rightarrow> None
      | Some it \<Rightarrow>
          (case deref_it it of
             None \<Rightarrow> Some it
           | Some v \<Rightarrow> (if \<not> lt k (key v) then increment it else Some it)))"

section \<open>Balance\<close>

text \<open>The values in their order.\<close>

primrec inorder :: "'v node \<Rightarrow> 'v list" where
  "inorder Terminator = []"
| "inorder (Node l r v h) = inorder l @ v # inorder r"

primrec balanced :: "'v node \<Rightarrow> bool" where
  "balanced Terminator \<longleftrightarrow> True"
| "balanced (Node l r v h) \<longleftrightarrow> balanced l \<and> balanced r \<and> h = max (height l) (height r) + 1 \<and>
     height l \<le> height r + 2 \<and> height r \<le> height l + 2"

lemma inorder_new_Node [simp]: "inorder (new_Node l r v) = inorder l @ v # inorder r"
  by (simp add: new_Node_def)

lemma height_new_Node [simp]: "height (new_Node l r v) = max (height l) (height r) + 1"
  by (simp add: new_Node_def)

lemma balanced_new_Node [simp]:
  "balanced (new_Node l r v) \<longleftrightarrow> balanced l \<and> balanced r \<and> height l \<le> height r + 2 \<and> height r \<le> height l + 2"
  by (auto simp: new_Node_def)

lemma new_Node_not_Terminator [simp]: "new_Node l r v \<noteq> Terminator"
  by (simp add: new_Node_def)

lemma height_0: "balanced t \<Longrightarrow> height t = 0 \<longleftrightarrow> t = Terminator"
  by (cases t) auto

text \<open>The order of the values survives, whatever the heights, as long as the children that are opened exist.\<close>

lemma balance_ok:
  assumes "balanced l" "balanced r" "height l \<le> height r + 3" "height r \<le> height l + 3"
  shows "balanced (balance l v r)" "inorder (balance l v r) = inorder l @ v # inorder r"
    "max (height l) (height r) \<le> height (balance l v r)" "height (balance l v r) \<le> max (height l) (height r) + 1"
    "height l \<le> height r + 2 \<Longrightarrow> height r \<le> height l + 2 \<Longrightarrow> height (balance l v r) = max (height l) (height r) + 1"
proof -
  show "height l \<le> height r + 2 \<Longrightarrow> height r \<le> height l + 2 \<Longrightarrow> height (balance l v r) = max (height l) (height r) + 1"
    by (simp add: balance_def)
  consider (even) "height l \<le> height r + 2" "height r \<le> height l + 2" | (left) "height l = height r + 3" | (right) "height r = height l + 3"
    using assms(3,4) by linarith
  then have "balanced (balance l v r) \<and> inorder (balance l v r) = inorder l @ v # inorder r \<and>
    max (height l) (height r) \<le> height (balance l v r) \<and> height (balance l v r) \<le> max (height l) (height r) + 1"
  proof cases
    case even
    with assms show ?thesis
      by (auto simp: balance_def le_max_iff_disj)
  next
    case left
    then obtain ll lr lv lh where l: "l = Node ll lr lv lh"
      by (cases l) auto
    show ?thesis
    proof (cases "height lr \<le> height ll")
      case True
      with left assms show ?thesis
        by (auto simp: balance_def l)
    next
      case False
      then obtain lrl lrr lrv lrh where "lr = Node lrl lrr lrv lrh"
        by (cases lr) auto
      with False left assms show ?thesis
        by (auto simp: balance_def l)
    qed
  next
    case right
    then obtain rl rr rv rh where r: "r = Node rl rr rv rh"
      by (cases r) auto
    show ?thesis
    proof (cases "height rl \<le> height rr")
      case True
      with right assms show ?thesis
        by (auto simp: balance_def r)
    next
      case False
      then obtain rll rlr rlv rlh where "rl = Node rll rlr rlv rlh"
        by (cases rl) auto
      with False right assms show ?thesis
        by (auto simp: balance_def r)
    qed
  qed
  then show "balanced (balance l v r)" "inorder (balance l v r) = inorder l @ v # inorder r"
    "max (height l) (height r) \<le> height (balance l v r)" "height (balance l v r) \<le> max (height l) (height r) + 1"
    by simp_all
qed

text \<open>Going down to a child whose height changes by at most one keeps the balance.\<close>

lemma balance_left:
  assumes "balanced (Node l r v h)" "balanced l'" "height l' \<le> height l + 1" "height l \<le> height l' + 1"
  shows "balanced (balance l' v r)" "inorder (balance l' v r) = inorder l' @ v # inorder r"
    "height l \<le> height l' \<Longrightarrow> h \<le> height (balance l' v r) \<and> height (balance l' v r) \<le> h + 1"
    "height l' \<le> height l \<Longrightarrow> height (balance l' v r) \<le> h \<and> h \<le> height (balance l' v r) + 1"
proof -
  have r: "balanced r" "h = max (height l) (height r) + 1" "height l \<le> height r + 2" "height r \<le> height l + 2"
    using assms(1) by simp_all
  have d: "height l' \<le> height r + 3" "height r \<le> height l' + 3"
    using assms(3,4) r(3,4) by linarith+
  note b = balance_ok [OF assms(2) r(1) d, of v]
  show "balanced (balance l' v r)" "inorder (balance l' v r) = inorder l' @ v # inorder r"
    by (fact b(1), fact b(2))
  show "height l \<le> height l' \<Longrightarrow> h \<le> height (balance l' v r) \<and> height (balance l' v r) \<le> h + 1"
    using b(3,4,5) assms(3) r(2-4) d by (cases "height l' \<le> height r + 2 \<and> height r \<le> height l' + 2") linarith+
  show "height l' \<le> height l \<Longrightarrow> height (balance l' v r) \<le> h \<and> h \<le> height (balance l' v r) + 1"
    using b(3,4,5) assms(4) r(2-4) d by (cases "height l' \<le> height r + 2 \<and> height r \<le> height l' + 2") linarith+
qed

lemma balance_right:
  assumes "balanced (Node l r v h)" "balanced r'" "height r' \<le> height r + 1" "height r \<le> height r' + 1"
  shows "balanced (balance l v r')" "inorder (balance l v r') = inorder l @ v # inorder r'"
    "height r \<le> height r' \<Longrightarrow> h \<le> height (balance l v r') \<and> height (balance l v r') \<le> h + 1"
    "height r' \<le> height r \<Longrightarrow> height (balance l v r') \<le> h \<and> h \<le> height (balance l v r') + 1"
proof -
  have r: "balanced l" "h = max (height l) (height r) + 1" "height l \<le> height r + 2" "height r \<le> height l + 2"
    using assms(1) by simp_all
  have d: "height l \<le> height r' + 3" "height r' \<le> height l + 3"
    using assms(3,4) r(3,4) by linarith+
  note b = balance_ok [OF r(1) assms(2) d, of v]
  show "balanced (balance l v r')" "inorder (balance l v r') = inorder l @ v # inorder r'"
    by (fact b(1), fact b(2))
  show "height r \<le> height r' \<Longrightarrow> h \<le> height (balance l v r') \<and> height (balance l v r') \<le> h + 1"
    using b(3,4,5) assms(3) r(2-4) d by (cases "height l \<le> height r' + 2 \<and> height r' \<le> height l + 2") linarith+
  show "height r' \<le> height r \<Longrightarrow> height (balance l v r') \<le> h \<and> h \<le> height (balance l v r') + 1"
    using b(3,4,5) assms(4) r(2-4) d by (cases "height l \<le> height r' + 2 \<and> height r' \<le> height l + 2") linarith+
qed

lemma popMin_ok:
  "balanced t \<Longrightarrow> t \<noteq> Terminator \<Longrightarrow> popMin t = (x, t') \<Longrightarrow>
   balanced t' \<and> inorder t = x # inorder t' \<and> height t' \<le> height t \<and> height t \<le> height t' + 1"
proof (induction t arbitrary: x t')
  case Terminator
  then show ?case
    by simp
next
  case (Node l r v h)
  show ?case
  proof (cases "l = Terminator")
    case True
    with Node.prems show ?thesis
      by auto
  next
    case False
    obtain y l' where l': "popMin l = (y, l')"
      by fastforce
    have IH: "balanced l'" "inorder l = y # inorder l'" "height l' \<le> height l" "height l \<le> height l' + 1"
      using Node.IH(1) [OF _ False l'] Node.prems(1) by auto
    note b = balance_left [OF Node.prems(1) IH(1) _ IH(4)]
    have "x = y" "t' = balance l' v r"
      using Node.prems(3) False l' by auto
    with b IH show ?thesis
      by simp
  qed
qed

lemma popMax_ok:
  "balanced t \<Longrightarrow> t \<noteq> Terminator \<Longrightarrow> popMax t = (x, t') \<Longrightarrow>
   balanced t' \<and> inorder t = inorder t' @ [x] \<and> height t' \<le> height t \<and> height t \<le> height t' + 1"
proof (induction t arbitrary: x t')
  case Terminator
  then show ?case
    by simp
next
  case (Node l r v h)
  show ?case
  proof (cases "r = Terminator")
    case True
    with Node.prems show ?thesis
      by auto
  next
    case False
    obtain y r' where r': "popMax r = (y, r')"
      by fastforce
    have IH: "balanced r'" "inorder r = inorder r' @ [y]" "height r' \<le> height r" "height r \<le> height r' + 1"
      using Node.IH(2) [OF _ False r'] Node.prems(1) by auto
    note b = balance_right [OF Node.prems(1) IH(1) _ IH(4)]
    have "x = y" "t' = balance l v r'"
      using Node.prems(3) False r' by auto
    with b IH show ?thesis
      by simp
  qed
qed

section \<open>Comparisons\<close>

text \<open>
  What \<open>ImmutableTree\<close> asks of its comparison: a strict weak order. Keys that are not less than each
  other count as equal.
\<close>

locale key_compare =
  fixes lt :: "'k \<Rightarrow> 'k \<Rightarrow> bool"
  assumes lt_irrefl: "\<not> lt a a"
    and lt_trans: "lt a b \<Longrightarrow> lt b c \<Longrightarrow> lt a c"
    and not_lt_trans: "\<not> lt a b \<Longrightarrow> \<not> lt b c \<Longrightarrow> \<not> lt a c"

text \<open>The values in order, and their part with smaller, equal and larger keys.\<close>

definition ordered :: "('k \<Rightarrow> 'k \<Rightarrow> bool) \<Rightarrow> ('v \<Rightarrow> 'k) \<Rightarrow> 'v list \<Rightarrow> bool" where
  "ordered lt key = sorted_wrt (\<lambda>x y. lt (key x) (key y))"

definition smaller :: "('k \<Rightarrow> 'k \<Rightarrow> bool) \<Rightarrow> ('v \<Rightarrow> 'k) \<Rightarrow> 'k \<Rightarrow> 'v list \<Rightarrow> 'v list" where
  "smaller lt key k = filter (\<lambda>x. lt (key x) k)"

definition same_key :: "('k \<Rightarrow> 'k \<Rightarrow> bool) \<Rightarrow> ('v \<Rightarrow> 'k) \<Rightarrow> 'k \<Rightarrow> 'v list \<Rightarrow> 'v list" where
  "same_key lt key k = filter (\<lambda>x. \<not> lt (key x) k \<and> \<not> lt k (key x))"

definition larger :: "('k \<Rightarrow> 'k \<Rightarrow> bool) \<Rightarrow> ('v \<Rightarrow> 'k) \<Rightarrow> 'k \<Rightarrow> 'v list \<Rightarrow> 'v list" where
  "larger lt key k = filter (\<lambda>x. lt k (key x))"

lemmas part_defs = smaller_def same_key_def larger_def

context key_compare
begin

lemma lt_asym: "lt a b \<Longrightarrow> \<not> lt b a"
  using lt_irrefl lt_trans by blast

lemma equal_lt: "\<not> lt a k \<Longrightarrow> \<not> lt k a \<Longrightarrow> lt a b \<Longrightarrow> lt k b" "\<not> lt a k \<Longrightarrow> \<not> lt k a \<Longrightarrow> lt b a \<Longrightarrow> lt b k"
  using not_lt_trans [of a k b] not_lt_trans [of b k a] by blast+

text \<open>The parts around a value, when the key is smaller than it, larger or equal.\<close>

lemma parts_left:
  assumes "ordered lt key (xs @ v # ys)" "lt k (key v)"
  shows "smaller lt key k (xs @ v # ys) = smaller lt key k xs" "same_key lt key k (xs @ v # ys) = same_key lt key k xs"
    "larger lt key k (xs @ v # ys) = larger lt key k xs @ v # ys"
proof -
  have "lt k (key y)" if "y \<in> set ys" for y
    using assms that lt_trans by (fastforce simp: ordered_def sorted_wrt_append)
  then show "smaller lt key k (xs @ v # ys) = smaller lt key k xs" "same_key lt key k (xs @ v # ys) = same_key lt key k xs"
    "larger lt key k (xs @ v # ys) = larger lt key k xs @ v # ys"
    using assms(2) lt_asym by (auto simp: part_defs filter_id_conv filter_empty_conv)
qed

lemma parts_right:
  assumes "ordered lt key (xs @ v # ys)" "lt (key v) k"
  shows "smaller lt key k (xs @ v # ys) = xs @ v # smaller lt key k ys" "same_key lt key k (xs @ v # ys) = same_key lt key k ys"
    "larger lt key k (xs @ v # ys) = larger lt key k ys"
proof -
  have "lt (key y) k" if "y \<in> set xs" for y
    using assms that lt_trans by (fastforce simp: ordered_def sorted_wrt_append)
  then show "smaller lt key k (xs @ v # ys) = xs @ v # smaller lt key k ys" "same_key lt key k (xs @ v # ys) = same_key lt key k ys"
    "larger lt key k (xs @ v # ys) = larger lt key k ys"
    using assms(2) lt_asym by (auto simp: part_defs filter_id_conv filter_empty_conv)
qed

lemma parts_equal:
  assumes "ordered lt key (xs @ v # ys)" "\<not> lt k (key v)" "\<not> lt (key v) k"
  shows "smaller lt key k (xs @ v # ys) = xs" "same_key lt key k (xs @ v # ys) = [v]" "larger lt key k (xs @ v # ys) = ys"
proof -
  have "lt (key y) k" if "y \<in> set xs" for y
    using assms that equal_lt(2) [of "key v" k] by (auto simp: ordered_def sorted_wrt_append)
  moreover have "lt k (key y)" if "y \<in> set ys" for y
    using assms that equal_lt(1) [of "key v" k] by (auto simp: ordered_def sorted_wrt_append)
  ultimately show "smaller lt key k (xs @ v # ys) = xs" "same_key lt key k (xs @ v # ys) = [v]" "larger lt key k (xs @ v # ys) = ys"
    using assms(2,3) lt_asym by (auto simp: part_defs filter_id_conv filter_empty_conv)
qed

lemmas parts = parts_left parts_right parts_equal

lemma ordered_parts:
  assumes "ordered lt key xs"
  shows "xs = smaller lt key k xs @ same_key lt key k xs @ larger lt key k xs" "length (same_key lt key k xs) \<le> 1"
proof -
  have "xs = smaller lt key k xs @ same_key lt key k xs @ larger lt key k xs \<and> length (same_key lt key k xs) \<le> 1"
    using assms
  proof (induction xs)
    case Nil
    then show ?case
      by (simp add: part_defs)
  next
    case (Cons x xs)
    then have IH: "xs = smaller lt key k xs @ same_key lt key k xs @ larger lt key k xs" "length (same_key lt key k xs) \<le> 1"
      by (simp_all add: ordered_def)
    consider "lt k (key x)" | "lt (key x) k" | "\<not> lt k (key x)" "\<not> lt (key x) k"
      by blast
    then show ?case
      using parts [of key "[]" x xs k] Cons.prems IH by cases (simp_all add: part_defs)
  qed
  then show "xs = smaller lt key k xs @ same_key lt key k xs @ larger lt key k xs" "length (same_key lt key k xs) \<le> 1"
    by blast+
qed

lemma ordered_sub: "ordered lt key (inorder (Node l r v h)) \<Longrightarrow> ordered lt key (inorder l) \<and> ordered lt key (inorder r)"
  by (simp add: ordered_def sorted_wrt_append)

lemma insert_ok:
  "balanced t \<Longrightarrow> ordered lt key (inorder t) \<Longrightarrow>
   balanced (insert_node lt key x t) \<and> height t \<le> height (insert_node lt key x t) \<and> height (insert_node lt key x t) \<le> height t + 1 \<and>
   inorder (insert_node lt key x t) = smaller lt key (key x) (inorder t) @
     (if same_key lt key (key x) (inorder t) = [] then [x] else same_key lt key (key x) (inorder t)) @ larger lt key (key x) (inorder t)"
proof (induction t)
  case Terminator
  then show ?case
    by (simp add: part_defs)
next
  case (Node l r v h)
  note sub = ordered_sub [OF Node.prems(2)]
  have o: "ordered lt key (inorder l @ v # inorder r)"
    using Node.prems(2) by simp
  consider "lt (key x) (key v)" | "lt (key v) (key x)" "\<not> lt (key x) (key v)" | "\<not> lt (key x) (key v)" "\<not> lt (key v) (key x)"
    by blast
  then show ?case
  proof cases
    case 1
    have IH: "balanced (insert_node lt key x l)" "height l \<le> height (insert_node lt key x l)" "height (insert_node lt key x l) \<le> height l + 1"
      using Node.IH(1) Node.prems(1) sub by simp_all
    note b = balance_left [OF Node.prems(1) IH(1,3)]
    from 1 Node.IH(1) Node.prems(1) sub IH(2) b parts_left [OF o 1] show ?thesis
      by simp
  next
    case 2
    have IH: "balanced (insert_node lt key x r)" "height r \<le> height (insert_node lt key x r)" "height (insert_node lt key x r) \<le> height r + 1"
      using Node.IH(2) Node.prems(1) sub by simp_all
    note b = balance_right [OF Node.prems(1) IH(1,3)]
    from 2 Node.IH(2) Node.prems(1) sub IH(2) b parts_right [OF o 2(1)] show ?thesis
      by simp
  next
    case 3
    with Node.prems(1) parts_equal [OF o 3] show ?thesis
      by (auto simp: le_max_iff_disj)
  qed
qed

lemma replace_ok:
  "balanced t \<Longrightarrow> ordered lt key (inorder t) \<Longrightarrow>
   balanced (replace_node lt key x t) \<and> height t \<le> height (replace_node lt key x t) \<and> height (replace_node lt key x t) \<le> height t + 1 \<and>
   inorder (replace_node lt key x t) = smaller lt key (key x) (inorder t) @ x # larger lt key (key x) (inorder t)"
proof (induction t)
  case Terminator
  then show ?case
    by (simp add: part_defs)
next
  case (Node l r v h)
  note sub = ordered_sub [OF Node.prems(2)]
  have o: "ordered lt key (inorder l @ v # inorder r)"
    using Node.prems(2) by simp
  consider "lt (key x) (key v)" | "lt (key v) (key x)" "\<not> lt (key x) (key v)" | "\<not> lt (key x) (key v)" "\<not> lt (key v) (key x)"
    by blast
  then show ?case
  proof cases
    case 1
    have IH: "balanced (replace_node lt key x l)" "height l \<le> height (replace_node lt key x l)" "height (replace_node lt key x l) \<le> height l + 1"
      using Node.IH(1) Node.prems(1) sub by simp_all
    note b = balance_left [OF Node.prems(1) IH(1,3)]
    from 1 Node.IH(1) Node.prems(1) sub IH(2) b parts_left [OF o 1] show ?thesis
      by simp
  next
    case 2
    have IH: "balanced (replace_node lt key x r)" "height r \<le> height (replace_node lt key x r)" "height (replace_node lt key x r) \<le> height r + 1"
      using Node.IH(2) Node.prems(1) sub by simp_all
    note b = balance_right [OF Node.prems(1) IH(1,3)]
    from 2 Node.IH(2) Node.prems(1) sub IH(2) b parts_right [OF o 2(1)] show ?thesis
      by simp
  next
    case 3
    with Node.prems(1) parts_equal [OF o 3] show ?thesis
      by (auto simp: le_max_iff_disj)
  qed
qed

lemma remove_ok:
  "balanced t \<Longrightarrow> ordered lt key (inorder t) \<Longrightarrow>
   balanced (remove_node lt key k t) \<and> height (remove_node lt key k t) \<le> height t \<and> height t \<le> height (remove_node lt key k t) + 1 \<and>
   inorder (remove_node lt key k t) = smaller lt key k (inorder t) @ larger lt key k (inorder t)"
proof (induction t)
  case Terminator
  then show ?case
    by (simp add: part_defs)
next
  case (Node l r v h)
  note sub = ordered_sub [OF Node.prems(2)]
  have o: "ordered lt key (inorder l @ v # inorder r)"
    using Node.prems(2) by simp
  consider "lt k (key v)" | "lt (key v) k" "\<not> lt k (key v)" | (equal) "\<not> lt k (key v)" "\<not> lt (key v) k"
    by blast
  then show ?case
  proof cases
    case 1
    have IH: "balanced (remove_node lt key k l)" "height (remove_node lt key k l) \<le> height l" "height l \<le> height (remove_node lt key k l) + 1"
      using Node.IH(1) Node.prems(1) sub by simp_all
    note b = balance_left [OF Node.prems(1) IH(1) _ IH(3)]
    from 1 Node.IH(1) Node.prems(1) sub IH(2) b parts_left [OF o 1] show ?thesis
      by simp
  next
    case 2
    have IH: "balanced (remove_node lt key k r)" "height (remove_node lt key k r) \<le> height r" "height r \<le> height (remove_node lt key k r) + 1"
      using Node.IH(2) Node.prems(1) sub by simp_all
    note b = balance_right [OF Node.prems(1) IH(1) _ IH(3)]
    from 2 Node.IH(2) Node.prems(1) sub IH(2) b parts_right [OF o 2(1)] show ?thesis
      by simp
  next
    case equal
    show ?thesis
    proof (cases "l = Terminator \<or> r = Terminator")
      case True
      with equal Node.prems(1) parts_equal [OF o equal] show ?thesis
        by auto
    next
      case False
      obtain m r' where m: "popMin r = (m, r')"
        by fastforce
      have r': "balanced r'" "inorder r = m # inorder r'" "height r' \<le> height r" "height r \<le> height r' + 1"
        using popMin_ok [OF _ _ m] False Node.prems(1) by auto
      have "balanced (Node l r m h)"
        using Node.prems(1) by simp
      from balance_right [OF this r'(1) _ r'(4)] show ?thesis
        using r'(3) equal False m r'(2) parts_equal [OF o equal] by simp
    qed
  qed
qed

lemma lookup_ok: "ordered lt key (inorder t) \<Longrightarrow> lookup lt key k t = (case same_key lt key k (inorder t) of [] \<Rightarrow> None | v # _ \<Rightarrow> Some v)"
proof (induction t)
  case Terminator
  then show ?case
    by (simp add: part_defs)
next
  case (Node l r v h)
  note sub = ordered_sub [OF Node.prems]
  have o: "ordered lt key (inorder l @ v # inorder r)"
    using Node.prems by simp
  show ?case
    using Node.IH sub parts_left [OF o] parts_right [OF o] parts_equal [OF o] by simp
qed

lemma count_ok: "ordered lt key (inorder t) \<Longrightarrow> count_key lt key k t = length (same_key lt key k (inorder t))"
proof (induction t)
  case Terminator
  then show ?case
    by (simp add: part_defs)
next
  case (Node l r v h)
  note sub = ordered_sub [OF Node.prems]
  have o: "ordered lt key (inorder l @ v # inorder r)"
    using Node.prems by simp
  show ?case
    using Node.IH sub parts_left [OF o] parts_right [OF o] parts_equal [OF o] by simp
qed

text \<open>The last value of a list, if there is one.\<close>

lemma lookup_previous_from_ok:
  "ordered lt key (inorder t) \<Longrightarrow> lookup_previous_from lt key k t res =
     (let vs = smaller lt key k (inorder t) @ same_key lt key k (inorder t) in if vs = [] then res else Some (last vs))"
proof (induction t arbitrary: res)
  case Terminator
  then show ?case
    by (simp add: part_defs)
next
  case (Node l r v h)
  note sub = ordered_sub [OF Node.prems]
  have o: "ordered lt key (inorder l @ v # inorder r)"
    using Node.prems by simp
  show ?case
    using Node.IH sub parts_left [OF o] parts_right [OF o] parts_equal [OF o]
    by (auto simp: Let_def)
qed

lemma ordered_distinct: "ordered lt key xs \<Longrightarrow> distinct xs"
  unfolding ordered_def by (induction xs) (use lt_irrefl in auto)

end

section \<open>Iterating\<close>

text \<open>
  A path leads from a node up to the root; what comes before and after the subtree of a node on it is
  what the nodes above it add.
\<close>

primrec valid_path :: "'v node \<Rightarrow> 'v node list \<Rightarrow> bool" where
  "valid_path t [] \<longleftrightarrow> True"
| "valid_path t (n # st) \<longleftrightarrow> n \<noteq> Terminator \<and> (case st of [] \<Rightarrow> n = t | p # _ \<Rightarrow> n = left p \<or> n = right p) \<and> valid_path t st"

primrec after :: "'v node \<Rightarrow> 'v node list \<Rightarrow> 'v list" where
  "after c [] = []"
| "after c (n # st) = (if c = left n then val n # inorder (right n) else []) @ after n st"

primrec before :: "'v node \<Rightarrow> 'v node list \<Rightarrow> 'v list" where
  "before c [] = []"
| "before c (n # st) = before n st @ (if c = left n then [] else inorder (left n) @ [val n])"

definition valid_it :: "'v iterator \<Rightarrow> bool" where
  "valid_it it \<longleftrightarrow> valid_path (it_root it) (it_stack it)"

definition elements_from :: "'v node list \<Rightarrow> 'v list" where
  "elements_from st = (case st of [] \<Rightarrow> [] | n # st \<Rightarrow> val n # inorder (right n) @ after n st)"

definition elements_before :: "'v node \<Rightarrow> 'v node list \<Rightarrow> 'v list" where
  "elements_before t st = (case st of [] \<Rightarrow> inorder t | n # st \<Rightarrow> before n st @ inorder (left n))"

lemma inorder_sel: "n \<noteq> Terminator \<Longrightarrow> inorder n = inorder (left n) @ val n # inorder (right n)"
  by (cases n) simp_all

lemma path_distinct:
  "valid_path t st \<Longrightarrow> distinct (inorder t) \<Longrightarrow> n \<in> set st \<Longrightarrow> distinct (inorder n)"
proof (induction st arbitrary: n)
  case Nil
  then show ?case
    by simp
next
  case (Cons m st)
  have "distinct (inorder m)"
  proof (cases st)
    case Nil
    with Cons.prems show ?thesis
      by simp
  next
    case (Cons p st')
    then have "distinct (inorder p)" "p \<noteq> Terminator" "m = left p \<or> m = right p"
      using Cons.IH [of p] Cons.prems by auto
    then show ?thesis
      using inorder_sel [of p] by auto
  qed
  with Cons show ?case
    by auto
qed

lemma children_differ: "distinct (inorder n) \<Longrightarrow> left n \<noteq> Terminator \<Longrightarrow> left n \<noteq> right n"
  by (cases n; cases "left n") auto

lemma path_inorder:
  "valid_path t (n # st) \<Longrightarrow> distinct (inorder t) \<Longrightarrow> inorder t = before n st @ inorder n @ after n st"
proof (induction st arbitrary: n)
  case Nil
  then show ?case
    by simp
next
  case (Cons p st)
  then have "inorder t = before p st @ inorder p @ after p st" "p \<noteq> Terminator" "n = left p \<or> n = right p"
    by auto
  moreover have "distinct (inorder p)"
    using path_distinct [OF Cons.prems] by simp
  then have "n = right p \<Longrightarrow> n \<noteq> left p"
    using children_differ [of p] Cons.prems(1) by auto
  ultimately show ?case
    using inorder_sel [of p] by auto
qed

lemma elements_split:
  assumes "valid_path t st" "distinct (inorder t)"
  shows "elements_before t st @ elements_from st = inorder t"
proof (cases st)
  case Nil
  then show ?thesis
    by (simp add: elements_before_def elements_from_def)
next
  case (Cons n st')
  then have "inorder t = before n st' @ inorder n @ after n st'" "n \<noteq> Terminator"
    using path_inorder assms by auto
  then show ?thesis
    using inorder_sel [of n] by (simp add: Cons elements_before_def elements_from_def)
qed

lemma up_from_left_ok:
  "valid_path t (n # st) \<Longrightarrow> distinct (inorder t) \<Longrightarrow>
   valid_path t (up_from_left n st) \<and> elements_from (up_from_left n st) = after n st"
proof (induction st arbitrary: n)
  case Nil
  then show ?case
    by (simp add: elements_from_def)
next
  case (Cons p st)
  then show ?case
    by (auto simp: elements_from_def)
qed

lemma up_from_right_ok:
  "valid_path t (n # st) \<Longrightarrow> distinct (inorder t) \<Longrightarrow> before n st \<noteq> [] \<Longrightarrow>
   \<exists>m st'. up_from_right n st = m # st' \<and> valid_path t (m # st') \<and> elements_before t (m # st') @ [val m] = before n st"
proof (induction st arbitrary: n)
  case Nil
  then show ?case
    by simp
next
  case (Cons p st)
  have p: "n = left p \<or> n = right p" "n \<noteq> Terminator" "valid_path t (p # st)"
    using Cons.prems(1) by auto
  have "distinct (inorder p)"
    using path_distinct [OF Cons.prems(1,2)] by simp
  then have "n = right p \<Longrightarrow> n \<noteq> left p"
    using children_differ [of p] p by auto
  then show ?case
    using Cons.IH [OF p(3) Cons.prems(2)] Cons.prems(3) p by (auto simp: elements_before_def)
qed

lemma push_left_ok:
  "valid_path t (m # st) \<Longrightarrow> valid_path t (push_left m st) \<and> elements_from (push_left m st) = inorder m @ after m st"
proof (induction m arbitrary: st)
  case Terminator
  then show ?case
    by simp
next
  case (Node l r v h)
  show ?case
  proof (cases "l = Terminator")
    case True
    with Node.prems show ?thesis
      by (simp add: elements_from_def)
  next
    case False
    with Node.prems Node.IH(1) [of "Node l r v h # st"] show ?thesis
      by simp
  qed
qed

lemma push_right_ok:
  "valid_path t (m # st) \<Longrightarrow> distinct (inorder t) \<Longrightarrow>
   \<exists>n st'. push_right m st = n # st' \<and> valid_path t (n # st') \<and> elements_before t (n # st') @ [val n] = before m st @ inorder m"
proof (induction m arbitrary: st)
  case Terminator
  then show ?case
    by simp
next
  case (Node l r v h)
  have "distinct (inorder (Node l r v h))"
    by (rule path_distinct [OF Node.prems]) simp
  then have "r \<noteq> Terminator \<Longrightarrow> r \<noteq> l"
    using children_differ [of "Node l r v h"] by auto
  then show ?case
    using Node.prems Node.IH(2) [of "Node l r v h # st"] by (cases "r = Terminator") (auto simp: elements_before_def)
qed

text \<open>Forwards and backwards through the values.\<close>

lemma begin_ok: "valid_it (it_begin t) \<and> elements_from (it_stack (it_begin t)) = inorder t"
  using push_left_ok [of t t "[]"] by (cases "t = Terminator") (auto simp: valid_it_def it_begin_def elements_from_def)

lemma increment_ok:
  assumes "valid_it it" "distinct (inorder (it_root it))" "elements_from (it_stack it) = v # vs"
  shows "\<exists>it'. increment it = Some it' \<and> it_root it' = it_root it \<and> valid_it it' \<and> elements_from (it_stack it') = vs \<and> deref_it it = Some v"
proof -
  obtain n st where st: "it_stack it = n # st"
    using assms(3) by (cases "it_stack it") (auto simp: elements_from_def)
  have n: "valid_path (it_root it) (n # st)" "v = val n" "vs = inorder (right n) @ after n st"
    using assms(1,3) st by (auto simp: valid_it_def elements_from_def)
  show ?thesis
  proof (cases "right n = Terminator")
    case True
    with n st up_from_left_ok [OF n(1) assms(2)] show ?thesis
      by (simp add: increment_def valid_it_def deref_it_def)
  next
    case False
    then have p: "valid_path (it_root it) (right n # n # st)"
      using n(1) by simp
    have "n \<noteq> Terminator"
      using n(1) by simp
    moreover have "distinct (inorder n)"
      using path_distinct [OF n(1) assms(2)] by simp
    ultimately have "right n \<noteq> left n"
      using children_differ [of n] False by auto
    moreover have "push_left (right n) (n # st) = push_left (left (right n)) (right n # n # st)"
      using False by (cases "right n") simp_all
    ultimately show ?thesis
      using push_left_ok [OF p] n(2,3) st False by (simp add: increment_def valid_it_def deref_it_def)
  qed
qed

lemma decrement_ok:
  assumes "valid_it it" "distinct (inorder (it_root it))" "elements_before (it_root it) (it_stack it) = vs @ [v]"
  shows "it_root (decrement it) = it_root it \<and> valid_it (decrement it) \<and>
    elements_before (it_root it) (it_stack (decrement it)) = vs \<and> deref_it (decrement it) = Some v"
proof (cases "it_stack it")
  case Nil
  then have "it_root it \<noteq> Terminator"
    using assms(3) by (auto simp: elements_before_def)
  then show ?thesis
    using push_right_ok [of "it_root it" "it_root it" "[]"] assms(2,3)
    by (auto simp: decrement_def valid_it_def deref_it_def elements_before_def Nil)
next
  case (Cons n st)
  then have n: "valid_path (it_root it) (n # st)" "before n st @ inorder (left n) = vs @ [v]"
    using assms(1,3) by (auto simp: valid_it_def elements_before_def)
  show ?thesis
  proof (cases "left n = Terminator")
    case True
    with n have "before n st = vs @ [v]"
      by simp
    with up_from_right_ok [OF n(1) assms(2)] obtain m st' where
      "up_from_right n st = m # st'" "valid_path (it_root it) (m # st')" "elements_before (it_root it) (m # st') @ [val m] = vs @ [v]"
      by auto
    with True show ?thesis
      by (simp add: decrement_def valid_it_def deref_it_def Cons)
  next
    case False
    then have p: "valid_path (it_root it) (left n # n # st)"
      using n(1) by simp
    have "push_right (left n) (n # st) = push_right (right (left n)) (left n # n # st)"
      using False by (cases "left n") simp_all
    with push_right_ok [OF p assms(2)] n(2) obtain m st' where
      "push_right (right (left n)) (left n # n # st) = m # st'" "valid_path (it_root it) (m # st')"
      "elements_before (it_root it) (m # st') @ [val m] = vs @ [v]"
      by auto
    with False show ?thesis
      by (simp add: decrement_def valid_it_def deref_it_def Cons)
  qed
qed

text \<open>The stack of an iterator never holds more nodes than the tree is high, which is its size.\<close>

lemma path_height:
  "valid_path t (n # st) \<Longrightarrow> balanced t \<Longrightarrow> balanced n \<and> height n + length st \<le> height t"
proof (induction st arbitrary: n)
  case Nil
  then show ?case
    by simp
next
  case (Cons p st)
  then have "balanced p" "height p + length st \<le> height t" "p \<noteq> Terminator" "n = left p \<or> n = right p"
    by auto
  then show ?case
    by (cases p) auto
qed

lemma stack_bound:
  assumes "valid_it it" "balanced (it_root it)"
  shows "length (it_stack it) \<le> height (it_root it)"
proof (cases "it_stack it")
  case (Cons n st)
  then have "balanced n" "height n + length st \<le> height (it_root it)" "n \<noteq> Terminator"
    using path_height [of "it_root it" n st] assms by (auto simp: valid_it_def)
  then show ?thesis
    using height_0 [of n] Cons by (cases n) auto
qed simp

context key_compare
begin

lemma split_parts:
  assumes "\<And>x. x \<in> set xs \<Longrightarrow> lt (key x) k" "\<And>x. x \<in> set ys \<Longrightarrow> lt k (key x)"
  shows "smaller lt key k (xs @ ys) = xs" "same_key lt key k (xs @ ys) = []" "larger lt key k (xs @ ys) = ys"
proof -
  have "\<not> lt k (key x)" if "x \<in> set xs" for x
    using assms(1) [OF that] by (rule lt_asym)
  moreover have "\<not> lt (key x) k" if "x \<in> set ys" for x
    using assms(2) [OF that] by (rule lt_asym)
  ultimately show "smaller lt key k (xs @ ys) = xs" "same_key lt key k (xs @ ys) = []" "larger lt key k (xs @ ys) = ys"
    using assms by (auto simp: part_defs filter_id_conv filter_empty_conv)
qed

lemma descend_ok:
  "valid_path t (m # st) \<Longrightarrow> ordered lt key (inorder t) \<Longrightarrow> descend lt key k m st = (st', found) \<Longrightarrow>
   (\<And>x. x \<in> set (before m st) \<Longrightarrow> lt (key x) k) \<Longrightarrow> (\<And>x. x \<in> set (after m st) \<Longrightarrow> lt k (key x)) \<Longrightarrow>
   \<exists>n st0. st' = n # st0 \<and> valid_path t st' \<and>
     (if found then \<not> lt k (key (val n)) \<and> \<not> lt (key (val n)) k
      else same_key lt key k (inorder t) = [] \<and>
        (if lt (key (val n)) k then elements_from st' = val n # larger lt key k (inorder t)
         else elements_from st' = larger lt key k (inorder t)))"
proof (induction m arbitrary: st)
  case Terminator
  then show ?case
    by simp
next
  case (Node l r v h)
  let ?m = "Node l r v h"
  note d = ordered_distinct [OF Node.prems(2)]
  have t: "inorder t = before ?m st @ (inorder l @ v # inorder r) @ after ?m st"
    using path_inorder [OF Node.prems(1) d] by simp
  have o: "ordered lt key (inorder l @ v # inorder r)"
    using Node.prems(2) unfolding t by (simp add: ordered_def sorted_wrt_append)
  have differ: "r \<noteq> Terminator \<Longrightarrow> r \<noteq> l"
    using path_distinct [OF Node.prems(1) d, of ?m] children_differ [of ?m] by (cases "l = Terminator") auto
  consider (less) "lt k (key v)" | (greater) "lt (key v) k" "\<not> lt k (key v)" | (found) "\<not> lt k (key v)" "\<not> lt (key v) k"
    by blast
  then show ?case
  proof cases
    case less
    have up: "lt k (key x)" if "x \<in> set (v # inorder r @ after ?m st)" for x
      using that less o lt_trans [of k "key v"] Node.prems(5) by (auto simp: ordered_def sorted_wrt_append)
    show ?thesis
    proof (cases "l = Terminator")
      case True
      have "inorder t = before ?m st @ (v # inorder r @ after ?m st)"
        using t True by simp
      note p = split_parts [of "before ?m st" key k "v # inorder r @ after ?m st", OF Node.prems(4) up, folded this]
      show ?thesis
        using True less lt_asym [OF less] Node.prems(1,3) p by (auto simp: elements_from_def)
    next
      case False
      then have p: "valid_path t (l # ?m # st)"
        using Node.prems(1) by simp
      have st: "descend lt key k l (?m # st) = (st', found)"
        using Node.prems(3) less by simp
      show ?thesis
        by (rule Node.IH(1) [OF p Node.prems(2) st]) (use Node.prems(4) up in auto)
    qed
  next
    case greater
    have down: "lt (key x) k" if "x \<in> set (before ?m st @ inorder l @ [v])" for x
      using that greater(1) o lt_trans [of _ "key v" k] Node.prems(4) by (auto simp: ordered_def sorted_wrt_append)
    show ?thesis
    proof (cases "r = Terminator")
      case True
      have "inorder t = (before ?m st @ inorder l @ [v]) @ after ?m st"
        using t True by simp
      note p = split_parts [of "before ?m st @ inorder l @ [v]" key k "after ?m st", OF down Node.prems(5), folded this]
      show ?thesis
        using True greater Node.prems(1,3) p by (auto simp: elements_from_def)
    next
      case False
      then have p: "valid_path t (r # ?m # st)"
        using Node.prems(1) by simp
      have st: "descend lt key k r (?m # st) = (st', found)"
        using Node.prems(3) greater by simp
      show ?thesis
        by (rule Node.IH(2) [OF p Node.prems(2) st]) (use Node.prems(5) down differ [OF False] in auto)
    qed
  next
    case found
    with Node.prems(1,3) show ?thesis
      by auto
  qed
qed

lemma lower_bound_ok:
  assumes "ordered lt key (inorder t)"
  shows "\<exists>it. lower_bound lt key k t = Some it \<and> it_root it = t \<and> valid_it it \<and>
    elements_from (it_stack it) = same_key lt key k (inorder t) @ larger lt key k (inorder t)"
proof (cases "t = Terminator")
  case True
  then show ?thesis
    by (simp add: lower_bound_def valid_it_def elements_from_def part_defs)
next
  case False
  note d = ordered_distinct [OF assms]
  obtain st found where st: "descend lt key k t [] = (st, found)"
    by fastforce
  have "valid_path t [t]"
    using False by simp
  from descend_ok [OF this assms st] obtain n st0 where n: "st = n # st0" "valid_path t st"
    "if found then \<not> lt k (key (val n)) \<and> \<not> lt (key (val n)) k
      else same_key lt key k (inorder t) = [] \<and>
        (if lt (key (val n)) k then elements_from st = val n # larger lt key k (inorder t)
         else elements_from st = larger lt key k (inorder t))"
    by auto
  let ?it = "\<lparr>it_root = t, it_stack = st\<rparr>"
  have v: "valid_it ?it"
    using n(2) by (simp add: valid_it_def)
  show ?thesis
  proof (cases found)
    case True
    have eq: "\<not> lt k (key (val n))" "\<not> lt (key (val n)) k"
      using n(3) True by simp_all
    have t: "inorder t = elements_before t st @ val n # inorder (right n) @ after n st0"
      using elements_split [OF n(2) d] by (simp add: n(1) elements_from_def)
    have "elements_from st = same_key lt key k (inorder t) @ larger lt key k (inorder t)"
      using parts_equal [OF assms [unfolded t] eq] unfolding t by (simp add: n(1) elements_from_def)
    with v st True show ?thesis
      by (simp add: lower_bound_def)
  next
    case False
    show ?thesis
    proof (cases "lt (key (val n)) k")
      case True
      with False n(3) have "elements_from (it_stack ?it) = val n # larger lt key k (inorder t)" "same_key lt key k (inorder t) = []"
        by simp_all
      with increment_ok [OF v _ this(1)] d False True st n(1) show ?thesis
        by (auto simp: lower_bound_def)
    next
      case False': False
      with False n v st show ?thesis
        by (simp add: lower_bound_def)
    qed
  qed
qed

lemma upper_bound_ok:
  assumes "ordered lt key (inorder t)"
  shows "\<exists>it. upper_bound lt key k t = Some it \<and> it_root it = t \<and> valid_it it \<and>
    elements_from (it_stack it) = larger lt key k (inorder t)"
proof -
  obtain it where it: "lower_bound lt key k t = Some it" "it_root it = t" "valid_it it"
    "elements_from (it_stack it) = same_key lt key k (inorder t) @ larger lt key k (inorder t)"
    using lower_bound_ok [OF assms] by blast
  have d: "distinct (inorder (it_root it))"
    using ordered_distinct [OF assms] it(2) by simp
  show ?thesis
  proof (cases "same_key lt key k (inorder t)")
    case Nil
    show ?thesis
    proof (cases "larger lt key k (inorder t)")
      case Nil': Nil
      with it Nil have "it_stack it = []"
        by (auto simp: elements_from_def split: list.splits)
      with it Nil Nil' show ?thesis
        by (simp add: upper_bound_def deref_it_def)
    next
      case (Cons v vs)
      then have "lt k (key v)"
        by (auto simp: larger_def filter_eq_Cons_iff)
      with it Nil Cons increment_ok [OF it(3) d, of v vs] show ?thesis
        by (auto simp: upper_bound_def)
    qed
  next
    case (Cons v vs)
    then have "vs = []" "\<not> lt k (key v)"
      using ordered_parts(2) [OF assms, of k] by (auto simp: same_key_def filter_eq_Cons_iff)
    with it Cons increment_ok [OF it(3) d, of v "larger lt key k (inorder t)"] show ?thesis
      by (auto simp: upper_bound_def)
  qed
qed

end

section \<open>Maps\<close>

text \<open>
  \<open>ImmutableMap\<close> (\<open>include/klee/Internal/ADT/ImmutableMap.h\<close>) is the tree of its entries, with the
  first component as the key and, by default, \<open>std::less\<close> as the comparison.
\<close>

interpretation std_less: key_compare "(<) :: 'k::linorder \<Rightarrow> 'k \<Rightarrow> bool"
  by unfold_locales auto

definition imap_ok :: "('k::linorder \<times> 'd) node \<Rightarrow> bool" where
  "imap_ok t \<longleftrightarrow> balanced t \<and> ordered (<) fst (inorder t)"

definition imap_entries :: "('k::linorder \<times> 'd) node \<Rightarrow> 'k \<rightharpoonup> 'd" where
  "imap_entries t = map_of (inorder t)"

lemma ordered_fst: "ordered (<) fst xs \<longleftrightarrow> sorted (map fst xs) \<and> distinct (map fst xs)"
  by (simp add: ordered_def sorted_wrt_map [symmetric] strict_sorted_iff [symmetric] comp_def)

lemma map_of_parts:
  assumes "ordered (<) fst (xs :: ('k::linorder \<times> 'd) list)"
  shows "map_of (smaller (<) fst k xs) = map_of xs |` {..<k}" "map_of (larger (<) fst k xs) = map_of xs |` {k<..}"
    "map_of (same_key (<) fst k xs) = map_of xs |` {k}"
  using assms by (induction xs) (auto simp: ordered_def part_defs restrict_map_def fun_eq_iff)

lemma parts_ordered:
  assumes "ordered lt key xs"
  shows "ordered lt key (smaller lt key k xs)" "ordered lt key (larger lt key k xs)"
  using assms by (simp_all add: ordered_def part_defs sorted_wrt_filter)

lemma ordered_around:
  assumes "ordered (<) fst (xs :: ('k::linorder \<times> 'd) list)"
  shows "ordered (<) fst (smaller (<) fst k xs @ larger (<) fst k xs)"
    "ordered (<) fst (smaller (<) fst k xs @ (k, d) # larger (<) fst k xs)"
  using parts_ordered [OF assms] by (auto simp: ordered_def part_defs sorted_wrt_append)

section \<open>Properties\<close>

text \<open>
  C37: an immutable map is a map. \<open>replace\<close> changes one entry, \<open>insert\<close> keeps an entry that is there,
  \<open>remove\<close> deletes, and \<open>lookup\<close> finds the entry of a key; the results are balanced search trees again.
\<close>

theorem immutable_map_refines:
  assumes "imap_ok t"
  shows "imap_ok (replace_node (<) fst (k, d) t) \<and> imap_entries (replace_node (<) fst (k, d) t) = (imap_entries t)(k \<mapsto> d) \<and>
    imap_ok (insert_node (<) fst (k, d) t) \<and>
    imap_entries (insert_node (<) fst (k, d) t) = (if imap_entries t k = None then (imap_entries t)(k \<mapsto> d) else imap_entries t) \<and>
    imap_ok (remove_node (<) fst k t) \<and> imap_entries (remove_node (<) fst k t) = (imap_entries t)(k := None) \<and>
    lookup (<) fst k t = map_option (Pair k) (imap_entries t k)"
proof -
  let ?xs = "inorder t"
  have t: "balanced t" "ordered (<) fst ?xs"
    using assms by (simp_all add: imap_ok_def)
  note parts = map_of_parts [OF t(2), of k]
  have entry: "imap_entries t k = map_option snd (case same_key (<) fst k ?xs of [] \<Rightarrow> None | v # _ \<Rightarrow> Some v)"
  proof -
    have "map_of (same_key (<) fst k ?xs) k = map_of ?xs k"
      using parts(3) by simp
    moreover have "\<forall>v \<in> set (same_key (<) fst k ?xs). fst v = k"
      by (auto simp: same_key_def)
    ultimately show ?thesis
      by (cases "same_key (<) fst k ?xs") (auto simp: imap_entries_def)
  qed
  have replaced: "map_of (smaller (<) fst k ?xs @ (k, d) # larger (<) fst k ?xs) = (imap_entries t)(k \<mapsto> d)"
    using parts by (auto simp: imap_entries_def fun_eq_iff restrict_map_def map_add_def split: option.splits)
  have removed: "map_of (smaller (<) fst k ?xs @ larger (<) fst k ?xs) = (imap_entries t)(k := None)"
    using parts by (auto simp: imap_entries_def fun_eq_iff restrict_map_def map_add_def split: option.splits)
  have same: "smaller (<) fst k ?xs @ same_key (<) fst k ?xs @ larger (<) fst k ?xs = ?xs"
    using std_less.ordered_parts(1) [OF t(2), of k] by simp
  have "imap_ok (replace_node (<) fst (k, d) t) \<and> imap_entries (replace_node (<) fst (k, d) t) = (imap_entries t)(k \<mapsto> d)"
    using std_less.replace_ok [OF t, of "(k, d)"] ordered_around(2) [OF t(2)] replaced by (simp add: imap_ok_def imap_entries_def)
  moreover have "imap_ok (remove_node (<) fst k t) \<and> imap_entries (remove_node (<) fst k t) = (imap_entries t)(k := None)"
    using std_less.remove_ok [OF t, of k] ordered_around(1) [OF t(2)] removed by (simp add: imap_ok_def imap_entries_def)
  moreover have "imap_ok (insert_node (<) fst (k, d) t) \<and>
    imap_entries (insert_node (<) fst (k, d) t) = (if imap_entries t k = None then (imap_entries t)(k \<mapsto> d) else imap_entries t)"
    using std_less.insert_ok [OF t, of "(k, d)"] ordered_around(2) [OF t(2)] replaced same t entry
    by (cases "same_key (<) fst k ?xs") (simp_all add: imap_ok_def imap_entries_def)
  moreover have "lookup (<) fst k t = map_option (Pair k) (imap_entries t k)"
  proof -
    have "\<forall>v \<in> set (same_key (<) fst k ?xs). fst v = k"
      by (auto simp: same_key_def)
    then show ?thesis
      using std_less.lookup_ok [OF t(2), of k] entry by (cases "same_key (<) fst k ?xs") auto
  qed
  ultimately show ?thesis
    by blast
qed

text \<open>An example: a map with three entries.\<close>

definition example_imap :: "(nat \<times> nat) node" where
  "example_imap = new_Node (new_Node Terminator Terminator (1, 10)) (new_Node Terminator Terminator (7, 70)) (5, 50)"

lemma example_imap_ok: "imap_ok example_imap"
  by (simp add: imap_ok_def example_imap_def ordered_def)

theorem immutable_map_refines_witness:
  "lookup (<) fst 6 (replace_node (<) fst (6, 60) example_imap) = Some (6, 60) \<and>
   imap_entries (remove_node (<) fst 5 example_imap) 5 = None"
  using immutable_map_refines [OF example_imap_ok, of 6 60] immutable_map_refines [OF example_imap_ok, of 5 0]
    immutable_map_refines [of "replace_node (<) fst (6, 60) example_imap" 6 0]
  by simp

text \<open>
  \<open>lookup_previous\<close> finds the last entry whose key is at most the one asked for: it returns an entry
  exactly when there is one with such a key, and then the one with the greatest.
\<close>

theorem lookup_previous_greatest:
  assumes "imap_ok t"
  shows "case lookup_previous (<) fst k t of
      None \<Rightarrow> \<forall>e \<in> set (inorder t). k < fst e
    | Some v \<Rightarrow> v \<in> set (inorder t) \<and> fst v \<le> k \<and> (\<forall>e \<in> set (inorder t). fst e \<le> k \<longrightarrow> fst e \<le> fst v)"
proof -
  let ?xs = "inorder t"
  have t: "ordered (<) fst ?xs"
    using assms by (simp add: imap_ok_def)
  define vs where "vs = smaller (<) fst k ?xs @ same_key (<) fst k ?xs"
  have vs: "lookup_previous (<) fst k t = (if vs = [] then None else Some (last vs))"
    using std_less.lookup_previous_from_ok [OF t] by (simp add: lookup_previous_def vs_def Let_def)
  have in_vs: "e \<in> set vs \<longleftrightarrow> e \<in> set ?xs \<and> fst e \<le> k" for e
    by (auto simp: vs_def smaller_def same_key_def)
  have "?xs = vs @ larger (<) fst k ?xs"
    using std_less.ordered_parts(1) [OF t, of k] by (simp add: vs_def)
  then have o: "ordered (<) fst vs"
    using t by (metis ordered_def sorted_wrt_append)
  have "fst e \<le> fst (last vs)" if "e \<in> set vs" for e
    using o that by (cases vs rule: rev_cases) (auto simp: ordered_def sorted_wrt_append order_le_less)
  moreover have "vs \<noteq> [] \<Longrightarrow> last vs \<in> set ?xs \<and> fst (last vs) \<le> k"
    using in_vs [of "last vs"] by simp
  moreover have "vs = [] \<Longrightarrow> \<forall>e \<in> set ?xs. k < fst e"
    using in_vs by (metis list.set(1) empty_iff not_le)
  ultimately show ?thesis
    using vs in_vs by (auto split: option.splits if_splits)
qed

theorem lookup_previous_greatest_witness: "lookup_previous (<) fst 6 example_imap = Some (5, 50) \<and> fst (5::nat, 50::nat) \<le> 6"
  using lookup_previous_greatest [OF example_imap_ok, of 6]
  by (simp add: lookup_previous_def example_imap_def new_Node_def)

text \<open>
  C38: iterators visit every entry once, in the order of the keys, and stay within their stack. Iterating
  starts before the first entry; an iterator in front of an entry yields it and \<open>++\<close> steps behind it,
  \<open>--\<close> steps back; \<open>lower_bound\<close> and \<open>upper_bound\<close> stand before the first key that is not smaller, or
  that is larger; and no iterator holds more nodes than the height of the tree, for which its stack is
  allocated.
\<close>

theorem iterators_in_order:
  assumes "imap_ok t" "it_root it = t" "valid_it it"
  shows "elements_from (it_stack (it_begin t)) = inorder t \<and>
    (\<forall>v vs. elements_from (it_stack it) = v # vs \<longrightarrow> deref_it it = Some v \<and>
       (\<exists>it'. increment it = Some it' \<and> valid_it it' \<and> elements_from (it_stack it') = vs)) \<and>
    (\<forall>v vs. elements_before t (it_stack it) = vs @ [v] \<longrightarrow>
       valid_it (decrement it) \<and> elements_before t (it_stack (decrement it)) = vs \<and> deref_it (decrement it) = Some v) \<and>
    (\<exists>lb. lower_bound (<) fst k t = Some lb \<and> valid_it lb \<and> set (elements_from (it_stack lb)) = {e \<in> set (inorder t). k \<le> fst e}) \<and>
    (\<exists>ub. upper_bound (<) fst k t = Some ub \<and> valid_it ub \<and> set (elements_from (it_stack ub)) = {e \<in> set (inorder t). k < fst e}) \<and>
    length (it_stack it) \<le> height t"
proof -
  have t: "balanced t" "ordered (<) fst (inorder t)"
    using assms(1) by (simp_all add: imap_ok_def)
  have d: "distinct (inorder (it_root it))"
    using std_less.ordered_distinct [OF t(2)] assms(2) by simp
  have "\<exists>lb. lower_bound (<) fst k t = Some lb \<and> valid_it lb \<and> set (elements_from (it_stack lb)) = {e \<in> set (inorder t). k \<le> fst e}"
    using std_less.lower_bound_ok [OF t(2), of k] by (auto simp: part_defs)
  moreover have "\<exists>ub. upper_bound (<) fst k t = Some ub \<and> valid_it ub \<and> set (elements_from (it_stack ub)) = {e \<in> set (inorder t). k < fst e}"
    using std_less.upper_bound_ok [OF t(2), of k] by (auto simp: part_defs)
  moreover have "length (it_stack it) \<le> height t"
    using stack_bound [OF assms(3)] assms(2) t(1) by simp
  ultimately show ?thesis
    using begin_ok increment_ok [OF assms(3) d] decrement_ok [OF assms(3) d] assms(2) by blast
qed

theorem iterators_in_order_witness:
  "length (it_stack (it_begin example_imap)) \<le> 2 \<and> elements_from (it_stack (it_begin example_imap)) = [(1, 10), (5, 50), (7, 70)]"
  using iterators_in_order [OF example_imap_ok, of "it_begin example_imap" 0] begin_ok [of example_imap]
  by (simp add: it_begin_def example_imap_def)

end
