(* ===== verification/KTest.thy ===== *)
theory KTest
  imports "HOL-Library.Word" "HOL-Library.Monad_Syntax"
begin

text \<open>
  Test files (\<open>lib/Basic/KTest.cpp\<close>): the inputs that the executor found for a path, written to a file
  and read back for a replay. A file is the list of its bytes. Memory is taken to be available, so the
  failures are those of the file: one that cannot be opened is \<open>None\<close>, \<open>fread\<close> and \<open>fwrite\<close> fail as
  the C library says. Files are shorter than \<open>2 ^ 32 - 1\<close> bytes.
\<close>

unbundle bit_operations_syntax

section \<open>Data\<close>

type_synonym byte = "8 word"
type_synonym u32 = "32 word"

record ktest_object =
  name :: "byte list"
  numBytes :: u32
  bytes :: "byte list"

record ktest =
  version :: u32
  numArgs :: u32
  args :: "byte list list"
  symArgvs :: u32
  symArgvLen :: u32
  numObjects :: u32
  objects :: "ktest_object list"

definition KTEST_VERSION :: u32 where
  "KTEST_VERSION = 3"

definition KTEST_MAGIC :: "byte list" where
  "KTEST_MAGIC = [0x4B, 0x54, 0x45, 0x53, 0x54]"

definition BOUT_MAGIC :: "byte list" where
  "BOUT_MAGIC = [0x42, 0x4F, 0x55, 0x54, 0x0A]"

section \<open>Reading\<close>

text \<open>
  \<open>fread(p, n, 1, f) == 1\<close>: one item of \<open>n\<close> bytes has been read. An item of no bytes is never read:
  the result is 0 when the size is 0.
\<close>

type_synonym 'a reader = "byte list \<Rightarrow> ('a \<times> byte list) option"

definition fread :: "nat \<Rightarrow> byte list reader" where
  "fread n f = (if 0 < n \<and> n \<le> length f then Some (take n f, drop n f) else None)"

text \<open>Reading one thing after another, from where the last one ended.\<close>

definition and_then :: "'a reader \<Rightarrow> ('a \<Rightarrow> 'b reader) \<Rightarrow> 'b reader" where
  "and_then p q f = Option.bind (p f) (\<lambda>(x, f'). q x f')"

definition have_read :: "'a \<Rightarrow> 'a reader" where
  "have_read x f = Some (x, f)"

definition read_uint32 :: "u32 reader" where
  "read_uint32 = and_then (fread 4) (\<lambda>data. have_read
     (push_bit 8 (push_bit 8 (push_bit 8 (ucast (data ! 0)) + ucast (data ! 1)) + ucast (data ! 2)) + ucast (data ! 3)))"

definition read_string :: "byte list reader" where
  "read_string = and_then read_uint32 (\<lambda>len. fread (unat len))"

definition kTest_checkHeader :: "unit reader" where
  "kTest_checkHeader =
     and_then (fread 5) (\<lambda>header f. if header \<noteq> KTEST_MAGIC \<and> header \<noteq> BOUT_MAGIC then None else Some ((), f))"

definition kTest_isKTestFile :: "byte list option \<Rightarrow> bool" where
  "kTest_isKTestFile file = (case file of None \<Rightarrow> False | Some f \<Rightarrow> kTest_checkHeader f \<noteq> None)"

primrec read_args :: "nat \<Rightarrow> byte list list reader" where
  "read_args 0 = have_read []"
| "read_args (Suc n) = and_then read_string (\<lambda>s. and_then (read_args n) (\<lambda>ss. have_read (s # ss)))"

definition read_object :: "ktest_object reader" where
  "read_object =
     and_then read_string (\<lambda>s. and_then read_uint32 (\<lambda>n. and_then (fread (unat n)) (\<lambda>bs.
     have_read \<lparr>name = s, numBytes = n, bytes = bs\<rparr>)))"

primrec read_objects :: "nat \<Rightarrow> ktest_object list reader" where
  "read_objects 0 = have_read []"
| "read_objects (Suc n) = and_then read_object (\<lambda>ob. and_then (read_objects n) (\<lambda>obs. have_read (ob # obs)))"

text \<open>A version before 2 has no symbolic arguments; \<open>calloc\<close> leaves them 0.\<close>

definition read_symArgv :: "u32 \<Rightarrow> (u32 \<times> u32) reader" where
  "read_symArgv ver =
     (if 2 \<le> ver then and_then read_uint32 (\<lambda>n. and_then read_uint32 (\<lambda>len. have_read (n, len))) else have_read (0, 0))"

definition read_version :: "u32 reader" where
  "read_version = and_then read_uint32 (\<lambda>ver f. if KTEST_VERSION < ver then None else Some (ver, f))"

definition read_ktest :: "ktest reader" where
  "read_ktest =
     and_then kTest_checkHeader (\<lambda>_.
     and_then read_version (\<lambda>ver.
     and_then read_uint32 (\<lambda>na.
     and_then (read_args (unat na)) (\<lambda>as.
     and_then (read_symArgv ver) (\<lambda>(sa, sl).
     and_then read_uint32 (\<lambda>no.
     and_then (read_objects (unat no)) (\<lambda>obs.
     have_read \<lparr>version = ver, numArgs = na, args = as, symArgvs = sa, symArgvLen = sl, numObjects = no, objects = obs\<rparr>)))))))"

definition kTest_fromFile :: "byte list option \<Rightarrow> ktest option" where
  "kTest_fromFile file = Option.bind file (\<lambda>f. map_option fst (read_ktest f))"

section \<open>Writing\<close>

text \<open>
  \<open>fwrite(p, n, 1, f) == 1\<close>, for a buffer of at least \<open>n\<close> bytes: an item of no bytes is never written.
  \<open>write_uint32\<close> writes four items of one byte.
\<close>

definition fwrite :: "byte list \<Rightarrow> nat \<Rightarrow> byte list option" where
  "fwrite p n = (if 0 < n then Some (take n p) else None)"

definition write_uint32 :: "u32 \<Rightarrow> byte list" where
  "write_uint32 v = [ucast (drop_bit 24 v), ucast (drop_bit 16 v), ucast (drop_bit 8 v), ucast v]"

definition cstring :: "byte list \<Rightarrow> byte list" where
  "cstring s = takeWhile (\<lambda>c. c \<noteq> 0) s"

definition write_string :: "byte list \<Rightarrow> byte list option" where
  "write_string s =
     (let len = of_nat (length (cstring s)) in do { b \<leftarrow> fwrite (cstring s) (unat len); Some (write_uint32 len @ b) })"

primrec write_args :: "byte list list \<Rightarrow> byte list option" where
  "write_args [] = Some []"
| "write_args (s # ss) = do { b \<leftarrow> write_string s; bs \<leftarrow> write_args ss; Some (b @ bs) }"

definition write_object :: "ktest_object \<Rightarrow> byte list option" where
  "write_object ob =
     (if numBytes ob = 0 then Some []
      else do { b \<leftarrow> write_string (name ob); bs \<leftarrow> fwrite (bytes ob) (unat (numBytes ob));
                Some (b @ write_uint32 (numBytes ob) @ bs) })"

primrec write_objects :: "ktest_object list \<Rightarrow> byte list option" where
  "write_objects [] = Some []"
| "write_objects (ob # obs) = do { b \<leftarrow> write_object ob; bs \<leftarrow> write_objects obs; Some (b @ bs) }"

definition kTest_toFile :: "ktest \<Rightarrow> byte list option" where
  "kTest_toFile bo =
     do {
       as \<leftarrow> write_args (take (unat (numArgs bo)) (args bo));
       obs \<leftarrow> write_objects (take (unat (numObjects bo)) (objects bo));
       Some (KTEST_MAGIC @ write_uint32 KTEST_VERSION @ write_uint32 (numArgs bo) @ as @ write_uint32 (symArgvs bo) @
             write_uint32 (symArgvLen bo) @ write_uint32 (numObjects bo) @ obs)
     }"

definition kTest_numBytes :: "ktest \<Rightarrow> u32" where
  "kTest_numBytes bo = fold (\<lambda>ob res. res + numBytes ob) (take (unat (numObjects bo)) (objects bo)) 0"

section \<open>Readers and what they consume\<close>

text \<open>
  The reader \<open>p\<close> takes exactly the bytes \<open>xs\<close> for the value \<open>x\<close>: with anything behind them it leaves
  that, and with fewer of them it fails.
\<close>

definition takes :: "'a reader \<Rightarrow> byte list \<Rightarrow> 'a \<Rightarrow> bool" where
  "takes p xs x \<longleftrightarrow> (\<forall>rest. p (xs @ rest) = Some (x, rest)) \<and> (\<forall>n < length xs. p (take n xs) = None)"

lemma takesD:
  assumes "takes p xs x"
  shows "p (xs @ rest) = Some (x, rest)" "p xs = Some (x, [])" "n < length xs \<Longrightarrow> p (take n xs) = None"
proof -
  show 1: "p (xs @ rest) = Some (x, rest)" for rest
    using assms by (simp add: takes_def)
  show "p xs = Some (x, [])"
    using 1 [of "[]"] by simp
  show "n < length xs \<Longrightarrow> p (take n xs) = None"
    using assms by (simp add: takes_def)
qed

lemma takes_have_read [simp]: "takes (have_read x) [] x"
  by (simp add: takes_def have_read_def)

lemma takes_and_then:
  assumes p: "takes p xs x" and q: "takes (q x) ys y"
  shows "takes (and_then p q) (xs @ ys) y"
  unfolding takes_def
proof (intro conjI allI impI)
  show "and_then p q ((xs @ ys) @ rest) = Some (y, rest)" for rest
    by (simp add: and_then_def takesD [OF p] takesD [OF q])
next
  fix n
  assume n: "n < length (xs @ ys)"
  show "and_then p q (take n (xs @ ys)) = None"
  proof (cases "n < length xs")
    case True
    then show ?thesis
      by (simp add: and_then_def takesD(3) [OF p])
  next
    case False
    then have "take n (xs @ ys) = xs @ take (n - length xs) ys" "n - length xs < length ys"
      using n by simp_all
    then show ?thesis
      by (simp add: and_then_def takesD(1) [OF p] takesD(3) [OF q])
  qed
qed

lemma takes_and_return: "takes p xs x \<Longrightarrow> takes (and_then p (\<lambda>x. have_read (h x))) xs (h x)"
  using takes_and_then [of p xs x "\<lambda>x. have_read (h x)" "[]" "h x"] by simp

lemma takes_fread: "xs \<noteq> [] \<Longrightarrow> takes (fread (length xs)) xs xs"
  by (auto simp: takes_def fread_def)

lemma bytes_of_u32:
  fixes v :: u32
  shows "push_bit 8 (push_bit 8 (push_bit 8 (ucast (ucast (drop_bit 24 v) :: byte)) + ucast (ucast (drop_bit 16 v) :: byte)) +
     ucast (ucast (drop_bit 8 v) :: byte)) + ucast (ucast v :: byte) = v"
proof -
  have *: "push_bit 8 w + ucast b = push_bit 8 w OR ucast b" for w :: u32 and b :: byte
    by (rule disjunctive_add) (auto simp: bit_simps dest: bit_imp_le_length)
  show ?thesis
    unfolding *
  proof (rule bit_word_eqI)
    fix n
    assume "n < LENGTH(32)"
    consider "n < 8" | "8 \<le> n" "n < 16" | "16 \<le> n" "n < 24" | "24 \<le> n"
      by linarith
    then show "bit (push_bit 8 (push_bit 8 (push_bit 8 (ucast (ucast (drop_bit 24 v) :: byte)) OR
        ucast (ucast (drop_bit 16 v) :: byte)) OR ucast (ucast (drop_bit 8 v) :: byte)) OR ucast (ucast v :: byte) :: u32) n = bit v n"
      using \<open>n < LENGTH(32)\<close> by cases (auto simp: bit_simps)
  qed
qed

lemma takes_uint32: "takes read_uint32 (write_uint32 v) v"
proof -
  have "takes (fread (length (write_uint32 v))) (write_uint32 v) (write_uint32 v)"
    by (rule takes_fread) (simp add: write_uint32_def)
  moreover have "length (write_uint32 v) = 4"
    by (simp add: write_uint32_def)
  ultimately have "takes (fread 4) (write_uint32 v) (write_uint32 v)"
    by simp
  from takes_and_return [OF this] show ?thesis
    unfolding read_uint32_def
    by (rule arg_cong [where f = "takes _ _", THEN iffD1, rotated]) (simp add: write_uint32_def bytes_of_u32)
qed

text \<open>A string that can be written: not empty, without a zero byte, and not too long.\<close>

definition text_ok :: "byte list \<Rightarrow> bool" where
  "text_ok s \<longleftrightarrow> s \<noteq> [] \<and> 0 \<notin> set s \<and> length s < 2 ^ 32"

lemma unat_length: "length s < 2 ^ 32 \<Longrightarrow> unat (of_nat (length s) :: u32) = length s"
  by (simp add: unat_of_nat)

lemma write_string_ok:
  assumes "text_ok s"
  shows "\<exists>b. write_string s = Some b \<and> takes read_string b s"
proof -
  have s: "cstring s = s"
    using assms by (auto simp: cstring_def text_ok_def takeWhile_eq_all_conv)
  have "takes (fread (length s)) s s"
    using assms by (intro takes_fread) (simp add: text_ok_def)
  then have "takes read_string (write_uint32 (of_nat (length s)) @ s) s"
    unfolding read_string_def using assms
    by (intro takes_and_then [OF takes_uint32]) (simp add: unat_length text_ok_def)
  moreover have "write_string s = Some (write_uint32 (of_nat (length s)) @ s)"
    using assms by (simp add: write_string_def s fwrite_def text_ok_def unat_length Let_def)
  ultimately show ?thesis
    by blast
qed

lemma write_args_ok:
  "list_all text_ok ss \<Longrightarrow> \<exists>b. write_args ss = Some b \<and> takes (read_args (length ss)) b ss"
proof (induction ss)
  case Nil
  then show ?case
    by simp
next
  case (Cons s ss)
  then obtain b where b: "write_string s = Some b" "takes read_string b s"
    using write_string_ok by auto
  from Cons obtain bs where "write_args ss = Some bs" "takes (read_args (length ss)) bs ss"
    by auto
  with b show ?case
    by (auto intro!: takes_and_then takes_and_return)
qed

definition object_ok :: "ktest_object \<Rightarrow> bool" where
  "object_ok ob \<longleftrightarrow> text_ok (name ob) \<and> unat (numBytes ob) = length (bytes ob)"

lemma write_object_ok:
  assumes "object_ok ob"
  shows "\<exists>b. write_object ob = Some b \<and> (if numBytes ob = 0 then b = [] else takes read_object b ob)"
proof (cases "numBytes ob = 0")
  case True
  then show ?thesis
    by (simp add: write_object_def)
next
  case False
  obtain b where b: "write_string (name ob) = Some b" "takes read_string b (name ob)"
    using write_string_ok assms by (auto simp: object_ok_def)
  have n: "unat (numBytes ob) = length (bytes ob)"
    using assms by (simp add: object_ok_def)
  have pos: "0 < unat (numBytes ob)"
    using False by (simp add: unat_gt_0)
  then have "bytes ob \<noteq> []"
    unfolding n by simp
  then have bytes: "takes (fread (unat (numBytes ob))) (bytes ob) (bytes ob)"
    using takes_fread [of "bytes ob"] n by simp
  have "takes read_object (b @ write_uint32 (numBytes ob) @ bytes ob)
      \<lparr>name = name ob, numBytes = numBytes ob, bytes = bytes ob\<rparr>"
    unfolding read_object_def
    by (intro takes_and_then [OF b(2)] takes_and_then [OF takes_uint32] takes_and_return [OF bytes])
  moreover have "write_object ob = Some (b @ write_uint32 (numBytes ob) @ bytes ob)"
    using False b(1) n pos by (simp add: write_object_def fwrite_def)
  moreover have "\<lparr>name = name ob, numBytes = numBytes ob, bytes = bytes ob\<rparr> = ob"
    by simp
  ultimately show ?thesis
    using False by metis
qed

text \<open>What is written of a list of objects is what is written of those that are not empty.\<close>

lemma write_objects_ok:
  "list_all object_ok obs \<Longrightarrow>
   \<exists>b. write_objects obs = Some b \<and>
     takes (read_objects (length (filter (\<lambda>ob. numBytes ob \<noteq> 0) obs))) b (filter (\<lambda>ob. numBytes ob \<noteq> 0) obs)"
proof (induction obs)
  case Nil
  then show ?case
    by simp
next
  case (Cons ob obs)
  obtain b where b: "write_object ob = Some b" "if numBytes ob = 0 then b = [] else takes read_object b ob"
    using write_object_ok Cons.prems by auto
  obtain bs where bs: "write_objects obs = Some bs"
    "takes (read_objects (length (filter (\<lambda>ob. numBytes ob \<noteq> 0) obs))) bs (filter (\<lambda>ob. numBytes ob \<noteq> 0) obs)"
    using Cons by auto
  then show ?case
    using b by (auto intro!: takes_and_then takes_and_return)
qed

lemma read_objects_add:
  "read_objects (n + m) f =
     and_then (read_objects n) (\<lambda>obs. and_then (read_objects m) (\<lambda>obs'. have_read (obs @ obs'))) f"
proof (induction n arbitrary: f)
  case 0
  then show ?case
    by (auto simp: and_then_def have_read_def split: option.split)
next
  case (Suc n)
  then show ?case
    by (auto simp: and_then_def have_read_def split: option.split bind_splits)
qed

lemma read_too_many:
  assumes "takes (read_objects n) b obs" "n < m"
  shows "read_objects m b = None"
proof -
  obtain k where "m = n + Suc k"
    using assms(2) less_iff_Suc_add by auto
  moreover have "read_objects (Suc k) [] = None"
    by (simp add: and_then_def read_object_def read_string_def read_uint32_def fread_def)
  ultimately show ?thesis
    using takesD(2) [OF assms(1)] by (simp only: read_objects_add and_then_def) simp
qed

section \<open>Properties\<close>

text \<open>A test whose counts agree with its lists and whose strings can be written.\<close>

definition ktest_ok :: "ktest \<Rightarrow> bool" where
  "ktest_ok bo \<longleftrightarrow> unat (numArgs bo) = length (args bo) \<and> list_all text_ok (args bo) \<and>
     unat (numObjects bo) = length (objects bo) \<and> list_all object_ok (objects bo)"

text \<open>What is read back, up to the objects.\<close>

lemma written_ktest:
  assumes "ktest_ok bo"
  shows "\<exists>f as obs. kTest_toFile bo = Some f \<and> write_objects (objects bo) = Some obs \<and> write_args (args bo) = Some as \<and>
    takes (read_args (unat (numArgs bo))) as (args bo) \<and>
    f = KTEST_MAGIC @ write_uint32 KTEST_VERSION @ write_uint32 (numArgs bo) @ as @ write_uint32 (symArgvs bo) @
             write_uint32 (symArgvLen bo) @ write_uint32 (numObjects bo) @ obs"
proof -
  obtain as where "write_args (args bo) = Some as" "takes (read_args (length (args bo))) as (args bo)"
    using write_args_ok assms by (auto simp: ktest_ok_def)
  moreover obtain obs where "write_objects (objects bo) = Some obs"
    using write_objects_ok assms by (auto simp: ktest_ok_def)
  ultimately show ?thesis
    using assms by (simp add: kTest_toFile_def ktest_ok_def)
qed

lemma takes_header: "takes kTest_checkHeader KTEST_MAGIC ()"
proof -
  have "takes (fread 5) KTEST_MAGIC KTEST_MAGIC"
    using takes_fread [of KTEST_MAGIC] by (simp add: KTEST_MAGIC_def numeral_eq_Suc)
  from takes_and_then [OF this, of "\<lambda>header f. if header \<noteq> KTEST_MAGIC \<and> header \<noteq> BOUT_MAGIC then None else Some ((), f)" "[]" "()"]
  show ?thesis
    by (simp add: kTest_checkHeader_def takes_def)
qed

lemma takes_version: "takes read_version (write_uint32 KTEST_VERSION) KTEST_VERSION"
  using takes_and_then [OF takes_uint32, of "\<lambda>ver f. if KTEST_VERSION < ver then None else Some (ver, f)" KTEST_VERSION "[]" KTEST_VERSION]
  by (simp add: read_version_def takes_def)

lemma takes_symArgv: "takes (read_symArgv KTEST_VERSION) (write_uint32 sa @ write_uint32 sl) (sa, sl)"
  by (auto simp: read_symArgv_def KTEST_VERSION_def intro!: takes_and_then [OF takes_uint32] takes_and_return [OF takes_uint32])

lemma takes_ktest:
  assumes "ktest_ok bo" "list_all (\<lambda>ob. numBytes ob \<noteq> 0) (objects bo)" "kTest_toFile bo = Some f"
  shows "takes read_ktest f (bo\<lparr>version := KTEST_VERSION\<rparr>)"
proof -
  obtain as obs where f: "write_objects (objects bo) = Some obs" "takes (read_args (unat (numArgs bo))) as (args bo)"
    "f = KTEST_MAGIC @ write_uint32 KTEST_VERSION @ write_uint32 (numArgs bo) @ as @ (write_uint32 (symArgvs bo) @
             write_uint32 (symArgvLen bo)) @ write_uint32 (numObjects bo) @ obs"
    using written_ktest [OF assms(1)] assms(3) by auto
  have "filter (\<lambda>ob. numBytes ob \<noteq> 0) (objects bo) = objects bo"
    using assms(2) by (simp add: filter_id_conv list_all_iff)
  then have obs: "takes (read_objects (unat (numObjects bo))) obs (objects bo)"
    using write_objects_ok [of "objects bo"] assms(1) f(1) by (simp add: ktest_ok_def)
  have "takes read_ktest f \<lparr>version = KTEST_VERSION, numArgs = numArgs bo, args = args bo, symArgvs = symArgvs bo,
      symArgvLen = symArgvLen bo, numObjects = numObjects bo, objects = objects bo\<rparr>"
    unfolding read_ktest_def f(3)
    by (intro takes_and_then [OF takes_header] takes_and_then [OF takes_version] takes_and_then [OF takes_uint32]
        takes_and_then [OF f(2)] takes_and_then [OF takes_symArgv], unfold prod.case)
      (intro takes_and_then [OF takes_uint32] takes_and_return [OF obs])
  moreover have "\<lparr>version = KTEST_VERSION, numArgs = numArgs bo, args = args bo, symArgvs = symArgvs bo,
      symArgvLen = symArgvLen bo, numObjects = numObjects bo, objects = objects bo\<rparr> = bo\<lparr>version := KTEST_VERSION\<rparr>"
    by simp
  ultimately show ?thesis
    by metis
qed

text \<open>
  C39: a test that is written to a file is read back. For a test whose counts agree with its lists,
  whose strings are not empty and have no zero byte, and whose objects all have bytes, writing
  succeeds and reading the file returns the test, with the current version.
\<close>

theorem ktest_round_trip:
  assumes "ktest_ok bo" "list_all (\<lambda>ob. numBytes ob \<noteq> 0) (objects bo)"
  shows "\<exists>f. kTest_toFile bo = Some f \<and> kTest_isKTestFile (Some f) \<and> kTest_fromFile (Some f) = Some (bo\<lparr>version := KTEST_VERSION\<rparr>)"
proof -
  obtain f where f: "kTest_toFile bo = Some f"
    using written_ktest [OF assms(1)] by blast
  have "read_ktest f = Some (bo\<lparr>version := KTEST_VERSION\<rparr>, [])"
    by (rule takesD(2) [OF takes_ktest [OF assms f]])
  moreover from this have "kTest_isKTestFile (Some f)"
    by (auto simp: kTest_isKTestFile_def read_ktest_def and_then_def split: bind_splits)
  ultimately show ?thesis
    using f by (simp add: kTest_fromFile_def)
qed

definition example_ktest :: "ktest_object list \<Rightarrow> ktest" where
  "example_ktest obs = \<lparr>version = 3, numArgs = 1, args = [[0x61]], symArgvs = 0, symArgvLen = 7,
     numObjects = of_nat (length obs), objects = obs\<rparr>"

theorem ktest_round_trip_witness:
  "\<exists>f. kTest_toFile (example_ktest [\<lparr>name = [0x78], numBytes = 2, bytes = [0, 255]\<rparr>]) = Some f \<and>
    kTest_fromFile (Some f) = Some (example_ktest [\<lparr>name = [0x78], numBytes = 2, bytes = [0, 255]\<rparr>])"
  using ktest_round_trip [of "example_ktest [\<lparr>name = [0x78], numBytes = 2, bytes = [0, 255]\<rparr>]"]
  by (auto simp: ktest_ok_def example_ktest_def object_ok_def text_ok_def KTEST_VERSION_def)

text \<open>
  C40: a file that ends too early is never accepted. If any number of bytes is missing at the end of
  the file that was written for a test, \<open>kTest_fromFile\<close> fails.
\<close>

theorem truncated_file_rejected:
  assumes "ktest_ok bo" "list_all (\<lambda>ob. numBytes ob \<noteq> 0) (objects bo)" "kTest_toFile bo = Some f" "n < length f"
  shows "kTest_fromFile (Some (take n f)) = None"
  using takesD(3) [OF takes_ktest [OF assms(1-3)] assms(4)] by (simp add: kTest_fromFile_def)

theorem truncated_file_rejected_witness:
  "\<exists>f. kTest_toFile (example_ktest []) = Some f \<and> length f = 30 \<and> kTest_fromFile (Some (take 29 f)) = None"
proof -
  have ok: "ktest_ok (example_ktest [])"
    by (simp add: ktest_ok_def example_ktest_def text_ok_def)
  have "kTest_toFile (example_ktest []) = Some (KTEST_MAGIC @ write_uint32 3 @ write_uint32 1 @ write_uint32 1 @ [0x61] @
      write_uint32 0 @ write_uint32 7 @ write_uint32 0)"
    by (simp add: kTest_toFile_def example_ktest_def write_string_def fwrite_def cstring_def KTEST_VERSION_def Let_def)
  moreover have "length (KTEST_MAGIC @ write_uint32 3 @ write_uint32 1 @ write_uint32 1 @ [0x61] @
      write_uint32 0 @ write_uint32 7 @ write_uint32 0) = 30"
    by (simp add: KTEST_MAGIC_def write_uint32_def)
  ultimately show ?thesis
    using truncated_file_rejected [OF ok, of _ 29] by (simp add: example_ktest_def)
qed

text \<open>
  a test with an object without bytes is written to a file that cannot be read. The object is
  skipped, but it is counted in the number of objects, so that \<open>kTest_toFile\<close> reports success and
  \<open>kTest_fromFile\<close> misses an object at the end of the file.
\<close>

theorem empty_object_unreadable:
  assumes "ktest_ok bo" "\<exists>ob \<in> set (objects bo). numBytes ob = 0"
  shows "\<exists>f. kTest_toFile bo = Some f \<and> kTest_fromFile (Some f) = None"
proof -
  obtain f as obs where f: "kTest_toFile bo = Some f" "write_objects (objects bo) = Some obs"
    "takes (read_args (unat (numArgs bo))) as (args bo)"
    "f = KTEST_MAGIC @ write_uint32 KTEST_VERSION @ write_uint32 (numArgs bo) @ as @ (write_uint32 (symArgvs bo) @
             write_uint32 (symArgvLen bo)) @ write_uint32 (numObjects bo) @ obs"
    using written_ktest [OF assms(1)] by auto
  let ?some = "filter (\<lambda>ob. numBytes ob \<noteq> 0) (objects bo)"
  have "takes (read_objects (length ?some)) obs ?some"
    using write_objects_ok [of "objects bo"] assms(1) f(2) by (simp add: ktest_ok_def)
  moreover have "length ?some < unat (numObjects bo)"
    using assms length_filter_less [of _ "objects bo" "\<lambda>ob. numBytes ob \<noteq> 0"] by (auto simp: ktest_ok_def)
  ultimately have "read_objects (unat (numObjects bo)) obs = None"
    by (rule read_too_many)
  then have "read_ktest f = None"
    unfolding read_ktest_def f(4) and_then_def
    by (simp add: takesD(1) [OF takes_header] takesD(1) [OF takes_version] takesD(1) [OF takes_uint32] takesD(1) [OF f(3)]
        takesD(1) [OF takes_symArgv, unfolded append_assoc])
  with f(1) show ?thesis
    by (simp add: kTest_fromFile_def)
qed

theorem empty_object_unreadable_witness:
  "\<exists>f. kTest_toFile (example_ktest [\<lparr>name = [0x78], numBytes = 0, bytes = []\<rparr>]) = Some f \<and> kTest_fromFile (Some f) = None"
  using empty_object_unreadable [of "example_ktest [\<lparr>name = [0x78], numBytes = 0, bytes = []\<rparr>]"]
  by (simp add: ktest_ok_def example_ktest_def object_ok_def text_ok_def)

end
