(* ===== verification/AddressSpace.thy ===== *)
theory AddressSpace
  imports ObjectState ImmutableTree
begin

text \<open>
  The address space of a state (\<open>lib/Core/AddressSpace.cpp\<close>): an immutable map from memory objects,
  ordered by address, to object states, which are shared between the states of the execution and
  copied when they are written. The object states live in a store, and a pointer to one is its
  position. Failed assertions are \<open>None\<close>. The specification of copy on write is a list of independent
  memories; the search for objects is in \<open>Resolution\<close>.
\<close>

section \<open>State\<close>

record memobj =
  mo_id :: nat
  mo_address :: int
  mo_size :: nat
  isUserSpecified :: bool

record object =
  copyOnWriteOwner :: nat
  readOnly :: bool
  contents :: objstate

type_synonym store = "object list"

record aspace =
  cowKey :: nat
  objects :: "(memobj \<times> nat) node"

definition MemoryObjectLT :: "memobj \<Rightarrow> memobj \<Rightarrow> bool" where
  "MemoryObjectLT a b \<longleftrightarrow> mo_address a < mo_address b"

text \<open>The object that only serves as a key.\<close>

definition hack :: "int \<Rightarrow> memobj" where
  "hack address = \<lparr>mo_id = 0, mo_address = address, mo_size = 0, isUserSpecified = False\<rparr>"

definition new_aspace :: aspace where
  "new_aspace = \<lparr>cowKey = 1, objects = Terminator\<rparr>"

text \<open>The copy constructor changes the key of the space that is copied; it is an \<open>unsigned\<close>.\<close>

definition copy_aspace :: "aspace \<Rightarrow> aspace \<times> aspace" where
  "copy_aspace b =
     (let k = (cowKey b + 1) mod 2 ^ 32 in (b\<lparr>cowKey := k\<rparr>, \<lparr>cowKey = k, objects = objects b\<rparr>))"

section \<open>Binding\<close>

definition bindObject :: "memobj \<Rightarrow> nat \<Rightarrow> store \<times> aspace \<Rightarrow> (store \<times> aspace) option" where
  "bindObject mo p = (\<lambda>(h, a).
     if copyOnWriteOwner (h ! p) \<noteq> 0 then None
     else Some (h[p := (h ! p)\<lparr>copyOnWriteOwner := cowKey a\<rparr>], a\<lparr>objects := replace_node MemoryObjectLT fst (mo, p) (objects a)\<rparr>))"

definition unbindObject :: "memobj \<Rightarrow> aspace \<Rightarrow> aspace" where
  "unbindObject mo a = a\<lparr>objects := remove_node MemoryObjectLT fst mo (objects a)\<rparr>"

definition findObject :: "memobj \<Rightarrow> aspace \<Rightarrow> nat option" where
  "findObject mo a = map_option snd (lookup MemoryObjectLT fst mo (objects a))"

text \<open>The copy constructor of an object state.\<close>

definition copy_object :: "object \<Rightarrow> object option" where
  "copy_object ob = (if readOnly ob then None else Some (ob\<lparr>copyOnWriteOwner := 0\<rparr>))"

text \<open>The position that may be written, which is that of a new object unless the space owns the old one.\<close>

definition getWriteable :: "memobj \<Rightarrow> nat \<Rightarrow> store \<times> aspace \<Rightarrow> (nat \<times> store \<times> aspace) option" where
  "getWriteable mo p = (\<lambda>(h, a).
     if readOnly (h ! p) then None
     else if cowKey a = copyOnWriteOwner (h ! p) then Some (p, h, a)
     else Option.bind (copy_object (h ! p)) (\<lambda>n.
       Some (length h, h @ [n\<lparr>copyOnWriteOwner := cowKey a\<rparr>],
         a\<lparr>objects := replace_node MemoryObjectLT fst (mo, length h) (objects a)\<rparr>)))"

section \<open>Native memory\<close>

text \<open>External calls see the concrete bytes at the addresses of the objects.\<close>

definition copy_out :: "store \<Rightarrow> memobj \<times> nat \<Rightarrow> (int \<Rightarrow> int) \<Rightarrow> int \<Rightarrow> int" where
  "copy_out h = (\<lambda>(mo, p) native.
     if isUserSpecified mo \<or> readOnly (h ! p) then native
     else (\<lambda>x. if mo_address mo \<le> x \<and> x < mo_address mo + int (mo_size mo)
               then concreteStore (contents (h ! p)) ! nat (x - mo_address mo) else native x))"

definition copyOutConcretes :: "store \<Rightarrow> aspace \<Rightarrow> (int \<Rightarrow> int) \<Rightarrow> int \<Rightarrow> int" where
  "copyOutConcretes h a = fold (copy_out h) (inorder (objects a))"

definition native_bytes :: "(int \<Rightarrow> int) \<Rightarrow> int \<Rightarrow> nat \<Rightarrow> int list" where
  "native_bytes native src n = map (\<lambda>i. native (src + int i)) [0..<n]"

text \<open>The result of \<open>copyInConcrete\<close> with the changed store and space.\<close>

definition copyInConcrete :: "(int \<Rightarrow> int) \<Rightarrow> memobj \<Rightarrow> nat \<Rightarrow> int \<Rightarrow> store \<times> aspace \<Rightarrow> (bool \<times> store \<times> aspace) option" where
  "copyInConcrete native mo p src = (\<lambda>(h, a).
     let new = native_bytes native src (mo_size mo); old = concreteStore (contents (h ! p))
     in if new \<noteq> take (mo_size mo) old then
          (if readOnly (h ! p) then Some (False, h, a)
           else map_option (\<lambda>(q, h', a').
               (True, h'[q := (h' ! q)\<lparr>contents := (contents (h' ! q))\<lparr>concreteStore := new @ drop (mo_size mo) old\<rparr>\<rparr>], a'))
             (getWriteable mo p (h, a)))
        else Some (True, h, a))"

fun copyIn_loop :: "(int \<Rightarrow> int) \<Rightarrow> (memobj \<times> nat) list \<Rightarrow> store \<times> aspace \<Rightarrow> (bool \<times> store \<times> aspace) option" where
  "copyIn_loop native [] s = Some (True, s)"
| "copyIn_loop native ((mo, p) # es) s =
     (if isUserSpecified mo then copyIn_loop native es s
      else Option.bind (copyInConcrete native mo p (mo_address mo) s) (\<lambda>(ok, s').
        if ok then copyIn_loop native es s' else Some (False, s')))"

definition copyInConcretes :: "(int \<Rightarrow> int) \<Rightarrow> store \<times> aspace \<Rightarrow> (bool \<times> store \<times> aspace) option" where
  "copyInConcretes native = (\<lambda>(h, a). copyIn_loop native (inorder (objects a)) (h, a))"

section \<open>The map\<close>

interpretation by_address: key_compare MemoryObjectLT
  by unfold_locales (auto simp: MemoryObjectLT_def)

type_synonym entry = "memobj \<times> nat"

definition entries :: "aspace \<Rightarrow> entry list" where
  "entries a = inorder (objects a)"

definition space_ok :: "aspace \<Rightarrow> bool" where
  "space_ok a \<longleftrightarrow> balanced (objects a) \<and> ordered MemoryObjectLT fst (entries a)"

lemma same_key_set: "set (same_key MemoryObjectLT fst k xs) = {e \<in> set xs. mo_address (fst e) = mo_address k}"
  by (auto simp: same_key_def MemoryObjectLT_def)

lemma parts_set:
  "set (smaller MemoryObjectLT fst k xs) \<union> set (larger MemoryObjectLT fst k xs) = {e \<in> set xs. mo_address (fst e) \<noteq> mo_address k}"
  by (auto simp: smaller_def larger_def MemoryObjectLT_def)

lemma parts_around:
  assumes "ordered MemoryObjectLT fst xs"
  shows "ordered MemoryObjectLT fst (smaller MemoryObjectLT fst k xs @ larger MemoryObjectLT fst k xs)"
    "ordered MemoryObjectLT fst (smaller MemoryObjectLT fst k xs @ (k, p) # larger MemoryObjectLT fst k xs)"
  using parts_ordered [OF assms] by (auto simp: ordered_def part_defs sorted_wrt_append MemoryObjectLT_def)

lemma replaced:
  assumes "space_ok a" "a' = a\<lparr>objects := replace_node MemoryObjectLT fst (mo, p) (objects a)\<rparr>"
  shows "space_ok a'" "set (entries a') = insert (mo, p) {e \<in> set (entries a). mo_address (fst e) \<noteq> mo_address mo}"
  using by_address.replace_ok [of "objects a" fst "(mo, p)"] assms parts_around(2) [of "entries a" mo p] parts_set [of mo "entries a"]
  by (auto simp: space_ok_def entries_def)

lemma removed:
  assumes "space_ok a"
  shows "space_ok (unbindObject mo a)" "set (entries (unbindObject mo a)) = {e \<in> set (entries a). mo_address (fst e) \<noteq> mo_address mo}"
  using by_address.remove_ok [of "objects a" fst mo] assms parts_around(1) [of "entries a" mo] parts_set [of mo "entries a"]
  by (auto simp: space_ok_def entries_def unbindObject_def)

lemma lookup_iff:
  assumes "space_ok a"
  shows "lookup MemoryObjectLT fst k (objects a) = Some e \<longleftrightarrow> e \<in> set (entries a) \<and> mo_address (fst e) = mo_address k"
proof -
  let ?s = "same_key MemoryObjectLT fst k (entries a)"
  have o: "ordered MemoryObjectLT fst (entries a)"
    using assms by (simp add: space_ok_def)
  have "lookup MemoryObjectLT fst k (objects a) = (case ?s of [] \<Rightarrow> None | v # _ \<Rightarrow> Some v)" "length ?s \<le> 1"
    using by_address.lookup_ok o by_address.ordered_parts(2) [OF o] by (auto simp: entries_def)
  moreover have "e \<in> set ?s \<longleftrightarrow> e \<in> set (entries a) \<and> mo_address (fst e) = mo_address k"
    by (auto simp: same_key_set)
  ultimately show ?thesis
    by (cases ?s) auto
qed

lemma lookup_none:
  assumes "space_ok a"
  shows "lookup MemoryObjectLT fst k (objects a) = None \<longleftrightarrow> (\<forall>e \<in> set (entries a). mo_address (fst e) \<noteq> mo_address k)"
  using lookup_iff [OF assms, of k] by (metis not_None_eq)

lemma entries_unique:
  assumes "space_ok a" "e \<in> set (entries a)" "e' \<in> set (entries a)" "mo_address (fst e) = mo_address (fst e')"
  shows "e = e'"
  using lookup_iff [OF assms(1), of "fst e"] assms(2-4) by (metis option.inject)

section \<open>Copy on write\<close>

text \<open>
  The spaces of all states over one store, and what the executor does with them: a new object is bound,
  one is unbound, a state is forked, and an object is written, after it was made writeable.
\<close>

datatype operation = Bind nat memobj objstate bool | Unbind nat memobj | Fork nat | Store nat memobj objstate

type_synonym system = "store \<times> aspace list"

definition set_contents :: "nat \<Rightarrow> objstate \<Rightarrow> store \<Rightarrow> store" where
  "set_contents q c h = h[q := (h ! q)\<lparr>contents := c\<rparr>]"

fun exec :: "operation \<Rightarrow> system \<Rightarrow> system option" where
  "exec (Bind i mo c ro) (h, as) =
     (if i < length as then
        map_option (\<lambda>(h', a'). (h', as[i := a'])) (bindObject mo (length h) (h @ [\<lparr>copyOnWriteOwner = 0, readOnly = ro, contents = c\<rparr>], as ! i))
      else None)"
| "exec (Unbind i mo) (h, as) = (if i < length as then Some (h, as[i := unbindObject mo (as ! i)]) else None)"
| "exec (Fork i) (h, as) =
     (if i < length as then (let (a, b) = copy_aspace (as ! i) in Some (h, as[i := a] @ [b])) else None)"
| "exec (Store i mo c) (h, as) =
     (if i < length as then
        Option.bind (findObject mo (as ! i)) (\<lambda>p.
        Option.bind (getWriteable mo p (h, as ! i)) (\<lambda>(q, h', a').
        Some (set_contents q c h', as[i := a'])))
      else None)"

fun run :: "operation list \<Rightarrow> system \<Rightarrow> system option" where
  "run [] s = Some s"
| "run (x # xs) s = Option.bind (exec x s) (run xs)"

text \<open>What is promised: each state has its own memory, from addresses to contents, and a fork copies it.\<close>

type_synonym memory = "int \<rightharpoonup> objstate \<times> bool"

fun spec_exec :: "operation \<Rightarrow> memory list \<Rightarrow> memory list option" where
  "spec_exec (Bind i mo c ro) ms = (if i < length ms then Some (ms[i := (ms ! i)(mo_address mo \<mapsto> (c, ro))]) else None)"
| "spec_exec (Unbind i mo) ms = (if i < length ms then Some (ms[i := (ms ! i)(mo_address mo := None)]) else None)"
| "spec_exec (Fork i) ms = (if i < length ms then Some (ms @ [ms ! i]) else None)"
| "spec_exec (Store i mo c) ms =
     (if i < length ms then
        (case (ms ! i) (mo_address mo) of
           Some (c', False) \<Rightarrow> Some (ms[i := (ms ! i)(mo_address mo \<mapsto> (c, False))])
         | _ \<Rightarrow> None)
      else None)"

fun spec_run :: "operation list \<Rightarrow> memory list \<Rightarrow> memory list option" where
  "spec_run [] ms = Some ms"
| "spec_run (x # xs) ms = Option.bind (spec_exec x ms) (spec_run xs)"

definition object_view :: "store \<Rightarrow> nat \<Rightarrow> objstate \<times> bool" where
  "object_view h p = (contents (h ! p), readOnly (h ! p))"

definition space_view :: "store \<Rightarrow> aspace \<Rightarrow> memory" where
  "space_view h a address = map_option (object_view h \<circ> snd) (lookup MemoryObjectLT fst (hack address) (objects a))"

definition views :: "system \<Rightarrow> memory list" where
  "views = (\<lambda>(h, as). map (space_view h) as)"

text \<open>
  After \<open>n\<close> operations no key is above \<open>n + 1\<close>; every object is owned by a key that is not above the
  key of its space, and below it if another space has the object as well.
\<close>

definition space_inv :: "nat \<Rightarrow> store \<Rightarrow> aspace \<Rightarrow> bool" where
  "space_inv n h a \<longleftrightarrow> space_ok a \<and> 1 \<le> cowKey a \<and> cowKey a \<le> n + 1 \<and>
     (\<forall>(mo, p) \<in> set (entries a). p < length h \<and> copyOnWriteOwner (h ! p) \<le> cowKey a)"

definition apart :: "store \<Rightarrow> aspace \<Rightarrow> aspace \<Rightarrow> bool" where
  "apart h a b \<longleftrightarrow> (\<forall>p \<in> snd ` set (entries a) \<inter> snd ` set (entries b). copyOnWriteOwner (h ! p) < cowKey a)"

definition once :: "aspace \<Rightarrow> bool" where
  "once a \<longleftrightarrow> inj_on snd (set (entries a))"

definition system_inv :: "nat \<Rightarrow> system \<Rightarrow> bool" where
  "system_inv n = (\<lambda>(h, as). (\<forall>a \<in> set as. space_inv n h a \<and> once a) \<and>
     (\<forall>i < length as. \<forall>j < length as. i \<noteq> j \<longrightarrow> apart h (as ! i) (as ! j)))"

lemma lookup_replaced:
  assumes "space_ok a" "a' = a\<lparr>objects := replace_node MemoryObjectLT fst (mo, p) (objects a)\<rparr>"
  shows "lookup MemoryObjectLT fst k (objects a') =
    (if mo_address k = mo_address mo then Some (mo, p) else lookup MemoryObjectLT fst k (objects a))"
proof (cases "mo_address k = mo_address mo")
  case True
  then show ?thesis
    using lookup_iff [OF replaced(1) [OF assms]] replaced(2) [OF assms] by auto
next
  case False
  have "lookup MemoryObjectLT fst k (objects a') = Some e \<longleftrightarrow> lookup MemoryObjectLT fst k (objects a) = Some e" for e
    using lookup_iff [OF replaced(1) [OF assms]] lookup_iff [OF assms(1)] replaced(2) [OF assms] False by auto
  with False show ?thesis
    by (metis option.exhaust)
qed

lemma lookup_removed:
  assumes "space_ok a"
  shows "lookup MemoryObjectLT fst k (objects (unbindObject mo a)) =
    (if mo_address k = mo_address mo then None else lookup MemoryObjectLT fst k (objects a))"
proof -
  have "lookup MemoryObjectLT fst k (objects (unbindObject mo a)) = Some e \<longleftrightarrow>
      mo_address k \<noteq> mo_address mo \<and> lookup MemoryObjectLT fst k (objects a) = Some e" for e
    using lookup_iff [OF removed(1) [OF assms]] lookup_iff [OF assms] removed(2) [OF assms] by auto
  then show ?thesis
    by (metis option.exhaust)
qed

text \<open>What the view of a space depends on.\<close>

definition agree :: "store \<Rightarrow> store \<Rightarrow> aspace \<Rightarrow> bool" where
  "agree h h' a \<longleftrightarrow> (\<forall>p \<in> snd ` set (entries a). object_view h' p = object_view h p)"

lemma agree_lookup:
  assumes "space_ok a" "agree h h' a"
  shows "map_option (object_view h' \<circ> snd) (lookup MemoryObjectLT fst k (objects a)) =
    map_option (object_view h \<circ> snd) (lookup MemoryObjectLT fst k (objects a))"
  using assms(2) lookup_iff [OF assms(1), of k]
  by (cases "lookup MemoryObjectLT fst k (objects a)") (auto simp: agree_def)

lemma view_agree: "space_ok a \<Longrightarrow> agree h h' a \<Longrightarrow> objects a' = objects a \<Longrightarrow> space_view h' a' = space_view h a"
  using agree_lookup by (simp add: space_view_def fun_eq_iff)

lemma view_replaced:
  assumes "space_ok a" "a' = a\<lparr>objects := replace_node MemoryObjectLT fst (mo, p) (objects a)\<rparr>" "agree h h' a"
  shows "space_view h' a' = (space_view h a)(mo_address mo \<mapsto> object_view h' p)"
  using lookup_replaced [OF assms(1,2)] agree_lookup [OF assms(1,3)]
  by (simp add: space_view_def fun_eq_iff hack_def)

lemma view_removed: "space_ok a \<Longrightarrow> space_view h (unbindObject mo a) = (space_view h a)(mo_address mo := None)"
  using lookup_removed by (simp add: space_view_def fun_eq_iff hack_def)

lemma view_at:
  assumes "space_ok a" "findObject mo a = Some p"
  shows "space_view h a (mo_address mo) = Some (object_view h p)" "\<exists>mo'. (mo', p) \<in> set (entries a) \<and> mo_address mo' = mo_address mo"
proof -
  obtain e where e: "lookup MemoryObjectLT fst mo (objects a) = Some e" "snd e = p"
    using assms(2) by (auto simp: findObject_def)
  then have "e \<in> set (entries a)" "mo_address (fst e) = mo_address mo"
    using lookup_iff [OF assms(1)] by auto
  then show "\<exists>mo'. (mo', p) \<in> set (entries a) \<and> mo_address mo' = mo_address mo"
    using e(2) by (metis prod.collapse)
  have "lookup MemoryObjectLT fst (hack (mo_address mo)) (objects a) = Some e"
    using lookup_iff [OF assms(1)] \<open>e \<in> _\<close> \<open>mo_address (fst e) = _\<close> by (simp add: hack_def)
  with e(2) show "space_view h a (mo_address mo) = Some (object_view h p)"
    by (simp add: space_view_def)
qed

lemma view_none:
  assumes "space_ok a" "findObject mo a = None"
  shows "space_view h a (mo_address mo) = None"
  using assms lookup_none [OF assms(1)] by (simp add: findObject_def space_view_def hack_def)

lemma views_nth: "i < length as \<Longrightarrow> views (h, as) ! i = space_view h (as ! i)"
  by (simp add: views_def)

lemma views_update:
  assumes "i < length as" "\<And>j. j < length as \<Longrightarrow> j \<noteq> i \<Longrightarrow> space_view h' (as ! j) = space_view h (as ! j)"
  shows "views (h', as[i := a]) = (views (h, as))[i := space_view h' a]"
  using assms by (auto simp: views_def list_eq_iff_nth_eq nth_list_update)

section \<open>The invariant\<close>

lemma system_invD:
  assumes "system_inv n (h, as)" "i < length as"
  shows "space_inv n h (as ! i)" "once (as ! i)" "space_ok (as ! i)"
    "j < length as \<Longrightarrow> i \<noteq> j \<Longrightarrow> apart h (as ! i) (as ! j)"
  using assms by (auto simp: system_inv_def space_inv_def)

text \<open>Changing one space: the others must not see it.\<close>

lemma system_inv_update:
  assumes inv: "system_inv n (h, as)" and i: "i < length as" and a: "space_inv m h' a" "once a" and m: "n \<le> m"
    and h: "length h \<le> length h'"
    and owner: "\<And>j p. j < length as \<Longrightarrow> j \<noteq> i \<Longrightarrow> p \<in> snd ` set (entries (as ! j)) \<Longrightarrow> copyOnWriteOwner (h' ! p) = copyOnWriteOwner (h ! p)"
    and apart: "\<And>j. j < length as \<Longrightarrow> j \<noteq> i \<Longrightarrow> apart h' a (as ! j) \<and> apart h' (as ! j) a"
  shows "system_inv m (h', as[i := a])"
proof -
  have same: "space_inv m h' (as ! j)" if j: "j < length as" "j \<noteq> i" for j
    using system_invD(1) [OF inv j(1)] owner [OF j] h m by (fastforce simp: space_inv_def)
  have other: "apart h' (as ! j) (as ! k)" if jk: "j < length as" "k < length as" "j \<noteq> i" "k \<noteq> i" "j \<noteq> k" for j k
    using system_invD(4) [OF inv jk(1,2,5)] owner [OF jk(1,3)] by (auto simp: apart_def)
  show ?thesis
    unfolding system_inv_def prod.case
  proof (intro conjI ballI allI impI)
    fix b
    assume "b \<in> set (as[i := a])"
    then obtain j where "j < length as" "b = (as[i := a]) ! j"
      by (auto simp: in_set_conv_nth)
    then consider "b = a" | "j < length as" "j \<noteq> i" "b = as ! j"
      by (cases "j = i") auto
    then show "space_inv m h' b" "once b"
      using same a system_invD(2) [OF inv] by (cases; simp)+
  next
    fix j k
    assume "j < length (as[i := a])" "k < length (as[i := a])" "j \<noteq> k"
    then show "apart h' (as[i := a] ! j) (as[i := a] ! k)"
      using other apart i by (auto simp: nth_list_update)
  qed
qed

lemma system_inv_snoc:
  assumes inv: "system_inv n (h, as)" and b: "space_inv n h b" "once b"
    and apart: "\<And>j. j < length as \<Longrightarrow> apart h b (as ! j) \<and> apart h (as ! j) b"
  shows "system_inv n (h, as @ [b])"
  using assms by (auto simp: system_inv_def nth_append less_Suc_eq)

text \<open>A new object in one space.\<close>

lemma fresh_entry:
  assumes inv: "system_inv n (h, as)" and i: "i < length as"
    and h': "h' = h @ [\<lparr>copyOnWriteOwner = cowKey (as ! i), readOnly = ro, contents = c\<rparr>]"
    and a': "a' = (as ! i)\<lparr>objects := replace_node MemoryObjectLT fst (mo, length h) (objects (as ! i))\<rparr>"
  shows "system_inv (Suc n) (h', as[i := a'])"
    "views (h', as[i := a']) = (views (h, as))[i := (views (h, as) ! i)(mo_address mo \<mapsto> (c, ro))]"
proof -
  note d = system_invD [OF inv]
  have old: "p < length h" if "j < length as" "p \<in> snd ` set (entries (as ! j))" for j p
    using d(1) [OF that(1)] that(2) by (auto simp: space_inv_def)
  have h'_old: "h' ! p = h ! p" if "p < length h" for p
    using that by (simp add: h' nth_append)
  have h'_new: "h' ! length h = \<lparr>copyOnWriteOwner = cowKey (as ! i), readOnly = ro, contents = c\<rparr>"
    by (simp add: h')
  have ag: "agree h h' (as ! j)" if "j < length as" for j
    using old [OF that] h'_old by (simp add: agree_def object_view_def)
  note r = replaced [OF d(3) [OF i] a']
  have key: "cowKey a' = cowKey (as ! i)"
    by (simp add: a')
  have si: "space_inv (Suc n) h' a'"
    using d(1) [OF i] r h'_old h'_new by (fastforce simp: space_inv_def key h')
  have sub: "snd ` set (entries a') \<subseteq> insert (length h) (snd ` set (entries (as ! i)))"
    using r(2) by auto
  have "inj_on snd {e \<in> set (entries (as ! i)). mo_address (fst e) \<noteq> mo_address mo}"
    using d(2) [OF i] unfolding once_def by (rule inj_on_subset) auto
  moreover have "length h \<notin> snd ` set (entries (as ! i))"
    using old [OF i] by blast
  ultimately have on: "once a'"
    unfolding once_def r(2) inj_on_insert by (auto simp: image_iff)
  have ap: "apart h' a' (as ! j) \<and> apart h' (as ! j) a'" if j: "j < length as" "j \<noteq> i" for j
  proof -
    have "p \<in> snd ` set (entries (as ! i)) \<and> p < length h" if "p \<in> snd ` set (entries a')" "p \<in> snd ` set (entries (as ! j))" for p
      using that sub old [OF j(1) that(2)] by auto
    then show ?thesis
      using d(4) [OF i j(1)] d(4) [OF j(1) i] j(2) h'_old by (auto simp: apart_def key)
  qed
  show "system_inv (Suc n) (h', as[i := a'])"
  proof (rule system_inv_update [OF inv i si on])
    show "copyOnWriteOwner (h' ! p) = copyOnWriteOwner (h ! p)" if "j < length as" "j \<noteq> i" "p \<in> snd ` set (entries (as ! j))" for j p
      using h'_old [OF old [OF that(1,3)]] by simp
  qed (use ap in \<open>simp_all add: h'\<close>)
  have "views (h', as[i := a']) = (views (h, as))[i := space_view h' a']"
    by (rule views_update [OF i]) (use view_agree [OF d(3)] ag in blast)
  also have "space_view h' a' = (views (h, as) ! i)(mo_address mo \<mapsto> (c, ro))"
    using view_replaced [OF d(3) [OF i] a' ag [OF i]] i h'_new by (simp add: views_nth object_view_def)
  finally show "views (h', as[i := a']) = (views (h, as))[i := (views (h, as) ! i)(mo_address mo \<mapsto> (c, ro))]" .
qed

lemma exec_Bind:
  assumes inv: "system_inv n (h, as)" and i: "i < length as"
  shows "\<exists>s'. exec (Bind i mo c ro) (h, as) = Some s' \<and> system_inv (Suc n) s' \<and> spec_exec (Bind i mo c ro) (views (h, as)) = Some (views s')"
  using fresh_entry [OF inv i refl refl, of ro c mo] i by (simp add: bindObject_def views_def)

lemma exec_Unbind:
  assumes inv: "system_inv n (h, as)" and i: "i < length as"
  shows "\<exists>s'. exec (Unbind i mo) (h, as) = Some s' \<and> system_inv (Suc n) s' \<and> spec_exec (Unbind i mo) (views (h, as)) = Some (views s')"
proof -
  note d = system_invD [OF inv]
  let ?a = "unbindObject mo (as ! i)"
  note r = removed [OF d(3) [OF i], of mo]
  have key: "cowKey ?a = cowKey (as ! i)"
    by (simp add: unbindObject_def)
  have si: "space_inv (Suc n) h ?a"
    using d(1) [OF i] r by (auto simp: space_inv_def key)
  have on: "once ?a"
    using d(2) [OF i] unfolding once_def r(2) by (rule inj_on_subset) auto
  have "apart h ?a (as ! j) \<and> apart h (as ! j) ?a" if "j < length as" "j \<noteq> i" for j
    using d(4) [OF i that(1)] d(4) [OF that(1) i] that(2) by (auto simp: apart_def key r(2))
  then have "system_inv (Suc n) (h, as[i := ?a])"
    by (intro system_inv_update [OF inv i si on]) auto
  moreover have "views (h, as[i := ?a]) = (views (h, as))[i := (views (h, as) ! i)(mo_address mo := None)]"
    using views_update [OF i, of h h ?a] view_removed [OF d(3) [OF i], of h mo] i by (simp add: views_nth)
  ultimately show ?thesis
    using i by (simp add: views_def)
qed

lemma exec_Fork:
  assumes inv: "system_inv n (h, as)" and i: "i < length as" and n: "n + 2 < 2 ^ 32"
  shows "\<exists>s'. exec (Fork i) (h, as) = Some s' \<and> system_inv (Suc n) s' \<and> spec_exec (Fork i) (views (h, as)) = Some (views s')"
proof -
  note d = system_invD [OF inv]
  define k where "k = cowKey (as ! i) + 1"
  let ?a = "(as ! i)\<lparr>cowKey := k\<rparr>" and ?b = "\<lparr>cowKey = k, objects = objects (as ! i)\<rparr>"
  have k: "(cowKey (as ! i) + 1) mod 2 ^ 32 = k"
    using d(1) [OF i] n by (simp add: space_inv_def k_def)
  have k1: "cowKey (as ! i) \<le> k" "k \<le> cowKey (as ! i) + 1" "1 \<le> k"
    by (simp_all add: k_def)
  have e: "entries ?a = entries (as ! i)" "entries ?b = entries (as ! i)"
    by (simp_all add: entries_def)
  have si: "space_inv (Suc n) h ?a" "space_inv (Suc n) h ?b"
    using d(1) [OF i] k1 by (auto simp: space_inv_def space_ok_def e)
  have on: "once ?a" "once ?b"
    using d(2) [OF i] by (simp_all add: once_def e)
  have owner: "copyOnWriteOwner (h ! p) < k" if "p \<in> snd ` set (entries (as ! i))" for p
    using d(1) [OF i] that by (fastforce simp: space_inv_def k_def)
  have ap: "apart h ?a (as ! j)" "apart h (as ! j) ?a" "apart h ?b (as ! j)" "apart h (as ! j) ?b" if j: "j < length as" "j \<noteq> i" for j
    using d(4) [OF j(1) i j(2)] owner by (auto simp: apart_def e)
  have "apart h ?a ?b" "apart h ?b ?a"
    using owner by (auto simp: apart_def e)
  moreover have "system_inv (Suc n) (h, as[i := ?a])"
    by (rule system_inv_update [OF inv i si(1) on(1)]) (use ap in auto)
  ultimately have "system_inv (Suc n) (h, as[i := ?a] @ [?b])"
    using ap i by (intro system_inv_snoc si(2) on(2)) (auto simp: nth_list_update)
  moreover have "exec (Fork i) (h, as) = Some (h, as[i := ?a] @ [?b])"
    using i k by (simp add: copy_aspace_def)
  moreover have "views (h, as[i := ?a] @ [?b]) = views (h, as) @ [views (h, as) ! i]"
    using i by (auto simp: views_def space_view_def list_eq_iff_nth_eq nth_append nth_list_update)
  ultimately show ?thesis
    using i by (simp add: views_def)
qed

text \<open>An object that its space owns is in no other space.\<close>

lemma owned_alone:
  assumes inv: "system_inv n (h, as)" and ij: "i < length as" "j < length as" "i \<noteq> j"
    and p: "p \<in> snd ` set (entries (as ! i))" "cowKey (as ! i) = copyOnWriteOwner (h ! p)"
  shows "p \<notin> snd ` set (entries (as ! j))"
  using system_invD(4) [OF inv ij] p by (auto simp: apart_def)

lemma view_written:
  assumes "space_ok a" "once a" "findObject mo a = Some p" "p < length h"
  shows "space_view (set_contents p c h) a = (space_view h a)(mo_address mo \<mapsto> (c, readOnly (h ! p)))"
proof
  fix x
  obtain mo' where mo': "(mo', p) \<in> set (entries a)" "mo_address mo' = mo_address mo"
    using view_at(2) [OF assms(1,3)] by blast
  show "space_view (set_contents p c h) a x = ((space_view h a)(mo_address mo \<mapsto> (c, readOnly (h ! p)))) x"
  proof (cases "x = mo_address mo")
    case True
    then show ?thesis
      using view_at(1) [OF assms(1,3), of "set_contents p c h"] assms(4) by (simp add: object_view_def set_contents_def)
  next
    case False
    have "object_view (set_contents p c h) (snd e) = object_view h (snd e)"
      if "lookup MemoryObjectLT fst (hack x) (objects a) = Some e" for e
    proof -
      have "e \<in> set (entries a)" "mo_address (fst e) = x"
        using that lookup_iff [OF assms(1)] by (auto simp: hack_def)
      then have "snd e \<noteq> p"
        using assms(2) mo' False by (metis fst_conv inj_onD once_def snd_conv)
      then show ?thesis
        by (simp add: object_view_def set_contents_def)
    qed
    with False show ?thesis
      by (cases "lookup MemoryObjectLT fst (hack x) (objects a)") (simp_all add: space_view_def)
  qed
qed

lemma exec_Store:
  assumes inv: "system_inv n (h, as)" and i: "i < length as"
  shows "case exec (Store i mo c) (h, as) of
      None \<Rightarrow> spec_exec (Store i mo c) (views (h, as)) = None
    | Some s' \<Rightarrow> system_inv (Suc n) s' \<and> spec_exec (Store i mo c) (views (h, as)) = Some (views s')"
proof (cases "findObject mo (as ! i)")
  case None
  then show ?thesis
    using view_none [OF system_invD(3) [OF inv i] None, of h] i by (simp add: views_nth)
next
  case (Some p)
  note d = system_invD [OF inv]
  have at: "(views (h, as) ! i) (mo_address mo) = Some (contents (h ! p), readOnly (h ! p))"
    using view_at(1) [OF d(3) [OF i] Some, of h] i by (simp add: views_nth object_view_def)
  have p: "p \<in> snd ` set (entries (as ! i))" "p < length h"
    using view_at(2) [OF d(3) [OF i] Some] d(1) [OF i] by (force simp: space_inv_def)+
  have len: "length (views (h, as)) = length as"
    by (simp add: views_def)
  show ?thesis
  proof (cases "readOnly (h ! p)")
    case True
    with Some i at show ?thesis
      by (simp add: getWriteable_def len)
  next
    case rw: False
    then have spec: "spec_exec (Store i mo c) (views (h, as)) = Some ((views (h, as))[i := (views (h, as) ! i)(mo_address mo \<mapsto> (c, False))])"
      using i at by (simp add: len)
    show ?thesis
    proof (cases "cowKey (as ! i) = copyOnWriteOwner (h ! p)")
      case True
      let ?h = "set_contents p c h"
      have owner: "copyOnWriteOwner (?h ! q) = copyOnWriteOwner (h ! q)" for q
        by (cases "q = p") (simp_all add: set_contents_def p(2))
      have lenh: "length ?h = length h"
        by (simp add: set_contents_def)
      have other: "?h ! q = h ! q" if "q \<noteq> p" for q
        using that by (simp add: set_contents_def)
      have "agree h ?h (as ! j)" if "j < length as" "j \<noteq> i" for j
        using owned_alone [OF inv i that(1) _ p(1) True] that(2) other unfolding agree_def object_view_def by metis
      then have "views (?h, as[i := as ! i]) = (views (h, as))[i := space_view ?h (as ! i)]"
        by (intro views_update i view_agree d(3)) auto
      moreover have "system_inv (Suc n) (?h, as[i := as ! i])"
        by (rule system_inv_update [OF inv i _ d(2) [OF i]])
          (use d(1) [OF i] d(4) i lenh in \<open>simp_all add: space_inv_def apart_def owner\<close>)
      moreover have "exec (Store i mo c) (h, as) = Some (?h, as[i := as ! i])"
        using i Some rw True by (simp add: getWriteable_def)
      ultimately show ?thesis
        using spec view_written [OF d(3) [OF i] d(2) [OF i] Some p(2), of c] rw i by (simp add: views_nth)
    next
      case False
      let ?h = "h @ [\<lparr>copyOnWriteOwner = cowKey (as ! i), readOnly = False, contents = c\<rparr>]"
      let ?a = "(as ! i)\<lparr>objects := replace_node MemoryObjectLT fst (mo, length h) (objects (as ! i))\<rparr>"
      have "exec (Store i mo c) (h, as) = Some (?h, as[i := ?a])"
        using i Some rw False by (simp add: getWriteable_def copy_object_def set_contents_def)
      then show ?thesis
        using fresh_entry [OF inv i refl refl, of False c mo] spec by simp
    qed
  qed
qed

lemma exec_ok:
  assumes inv: "system_inv n s" and n: "n + 2 < 2 ^ 32"
  shows "case exec x s of
      None \<Rightarrow> spec_exec x (views s) = None
    | Some s' \<Rightarrow> system_inv (Suc n) s' \<and> spec_exec x (views s) = Some (views s')"
proof -
  obtain h as where s: "s = (h, as)"
    by fastforce
  have len: "length (views (h, as)) = length as"
    by (simp add: views_def)
  have out: "\<not> i < length as \<Longrightarrow> exec (Store i mo c) (h, as) = None \<and> spec_exec (Store i mo c) (views (h, as)) = None" for i mo c
    by (simp add: len)
  have inv': "system_inv n (h, as)"
    using inv by (simp add: s)
  show ?thesis
  proof (cases x)
    case (Bind i mo c ro)
    with exec_Bind [of n h as i mo c ro] inv show ?thesis
      by (cases "i < length as") (auto simp: s len)
  next
    case (Unbind i mo)
    with exec_Unbind [of n h as i mo] inv show ?thesis
      by (cases "i < length as") (auto simp: s len)
  next
    case (Fork i)
    with exec_Fork [of n h as i] inv n show ?thesis
      by (cases "i < length as") (auto simp: s len)
  next
    case (Store i mo c)
    show ?thesis
      unfolding s Store using exec_Store [OF inv', of i mo c]
      by (cases "i < length as") (simp_all add: out del: exec.simps(4) spec_exec.simps(4))
  qed
qed

lemma run_ok:
  "system_inv n s \<Longrightarrow> n + length xs + 1 < 2 ^ 32 \<Longrightarrow>
   map_option views (run xs s) = spec_run xs (views s) \<and> (\<forall>s'. run xs s = Some s' \<longrightarrow> system_inv (n + length xs) s')"
proof (induction xs arbitrary: n s)
  case Nil
  then show ?case
    by simp
next
  case (Cons x xs)
  have "n + 2 < 2 ^ 32"
    using Cons.prems(2) by simp
  from exec_ok [OF Cons.prems(1) this, of x] show ?case
  proof (cases "exec x s")
    case None
    with exec_ok [OF Cons.prems(1) \<open>n + 2 < 2 ^ 32\<close>, of x] show ?thesis
      by simp
  next
    case (Some s1)
    with exec_ok [OF Cons.prems(1) \<open>n + 2 < 2 ^ 32\<close>, of x]
    have 1: "system_inv (Suc n) s1" "spec_exec x (views s) = Some (views s1)"
      by simp_all
    have "Suc n + length xs + 1 < 2 ^ 32"
      using Cons.prems(2) by simp
    from Cons.IH [OF 1(1) this] Some 1(2) show ?thesis
      by simp
  qed
qed

lemma initial_inv: "system_inv 0 ([], [new_aspace])"
  by (simp add: system_inv_def space_inv_def new_aspace_def space_ok_def entries_def once_def ordered_def)

lemma initial_views: "views ([], [new_aspace]) = [Map.empty]"
  by (simp add: views_def new_aspace_def space_view_def fun_eq_iff)

section \<open>External calls\<close>

text \<open>Objects do not overlap and end in the address space; an object of no bytes has one address.\<close>

definition mo_ok :: "memobj \<Rightarrow> bool" where
  "mo_ok mo \<longleftrightarrow> 0 \<le> mo_address mo \<and> mo_address mo < 2 ^ 64 \<and> mo_address mo + int (mo_size mo) \<le> 2 ^ 64"

definition before_obj :: "memobj \<Rightarrow> memobj \<Rightarrow> bool" where
  "before_obj a b \<longleftrightarrow> mo_address a < mo_address b \<and> mo_address a + int (mo_size a) \<le> mo_address b"

definition layout_ok :: "aspace \<Rightarrow> bool" where
  "layout_ok a \<longleftrightarrow> space_ok a \<and> (\<forall>e \<in> set (entries a). mo_ok (fst e)) \<and> sorted_wrt (\<lambda>x y. before_obj (fst x) (fst y)) (entries a)"

text \<open>The stores of objects hold as many bytes as the objects; native memory holds the read-only objects.\<close>

definition stores_ok :: "store \<Rightarrow> aspace \<Rightarrow> bool" where
  "stores_ok h a \<longleftrightarrow> (\<forall>(mo, p) \<in> set (entries a). length (concreteStore (contents (h ! p))) = mo_size mo)"

definition native_holds :: "(int \<Rightarrow> int) \<Rightarrow> store \<Rightarrow> entry \<Rightarrow> bool" where
  "native_holds native h = (\<lambda>(mo, p). native_bytes native (mo_address mo) (mo_size mo) = concreteStore (contents (h ! p)))"

lemma copy_out_other:
  assumes "before_obj (fst e) (fst e') \<or> before_obj (fst e') (fst e)"
  shows "native_holds (copy_out h e native) h e' = native_holds native h e'"
proof -
  obtain mo p mo' p' where e: "e = (mo, p)" "e' = (mo', p')"
    by fastforce
  have "native_bytes (copy_out h (mo, p) native) (mo_address mo') (mo_size mo') = native_bytes native (mo_address mo') (mo_size mo')"
    using assms by (auto simp: native_bytes_def copy_out_def e before_obj_def)
  then show ?thesis
    by (simp add: native_holds_def e)
qed

lemma copy_out_self:
  assumes "length (concreteStore (contents (h ! p))) = mo_size mo" "isUserSpecified mo \<or> readOnly (h ! p) \<Longrightarrow> native_holds native h (mo, p)"
  shows "native_holds (copy_out h (mo, p) native) h (mo, p)"
  using assms by (auto simp: native_holds_def native_bytes_def copy_out_def list_eq_iff_nth_eq)

lemma fold_copy_out:
  assumes "sorted_wrt (\<lambda>x y. before_obj (fst x) (fst y)) es"
    and "\<forall>(mo, p) \<in> set es. length (concreteStore (contents (h ! p))) = mo_size mo"
    and "\<forall>(mo, p) \<in> set es. isUserSpecified mo \<or> readOnly (h ! p) \<longrightarrow> native_holds native h (mo, p)"
  shows "(\<forall>e \<in> set es. native_holds (fold (copy_out h) es native) h e) \<and>
    (\<forall>e'. (\<forall>e \<in> set es. before_obj (fst e') (fst e)) \<longrightarrow> native_holds (fold (copy_out h) es native) h e' = native_holds native h e')"
  using assms
proof (induction es arbitrary: native)
  case Nil
  then show ?case
    by simp
next
  case (Cons e es)
  obtain mo p where e: "e = (mo, p)"
    by fastforce
  let ?n = "copy_out h e native"
  have rest: "native_holds ?n h e' = native_holds native h e'" if "e' \<in> set es" for e'
    using copy_out_other [of e e'] Cons.prems(1) that by auto
  have "\<forall>(mo, p) \<in> set es. isUserSpecified mo \<or> readOnly (h ! p) \<longrightarrow> native_holds ?n h (mo, p)"
    using Cons.prems(3) rest by fastforce
  with Cons.IH [of ?n] Cons.prems
  have IH: "\<forall>e \<in> set es. native_holds (fold (copy_out h) es ?n) h e"
    "\<And>e'. \<forall>e \<in> set es. before_obj (fst e') (fst e) \<Longrightarrow> native_holds (fold (copy_out h) es ?n) h e' = native_holds ?n h e'"
    by auto
  have "native_holds ?n h e"
    using copy_out_self [of h p mo native] Cons.prems(2,3) by (auto simp: e)
  moreover have "native_holds (fold (copy_out h) es ?n) h e = native_holds ?n h e"
    using IH(2) [of e] Cons.prems(1) by simp
  moreover have "native_holds (fold (copy_out h) es ?n) h e' = native_holds native h e'" if "\<forall>x \<in> set (e # es). before_obj (fst e') (fst x)" for e'
    using IH(2) [of e'] copy_out_other [of e e'] that by simp
  ultimately show ?case
    using IH(1) by simp
qed

lemma copyIn_unchanged:
  assumes "\<forall>(mo, p) \<in> set es. length (concreteStore (contents (h ! p))) = mo_size mo"
    "\<forall>(mo, p) \<in> set es. isUserSpecified mo \<or> native_holds native h (mo, p)"
  shows "copyIn_loop native es (h, a) = Some (True, h, a)"
  using assms by (induction es) (auto simp: copyInConcrete_def native_holds_def)


text \<open>
  C28: Copy on write isolates the states of an execution. For every sequence of bindings, unbindings,
  forks and writes, fewer than two to the 32, the address spaces that share objects behave as
  memories of their own: a write is seen by the state that makes it and by no other, a fork starts
  with the memory of its parent, and writing what is unbound or read-only fails.
\<close>

theorem copy_on_write_isolates:
  assumes "length ops < 2 ^ 32 - 1"
  shows "map_option views (run ops ([], [new_aspace])) = spec_run ops [Map.empty]"
  using run_ok [OF initial_inv, of ops] assms by (simp add: initial_views)

section \<open>Examples\<close>

text \<open>Two objects, of four bytes and of none.\<close>

definition example_mo :: "int \<Rightarrow> nat \<Rightarrow> memobj" where
  "example_mo address n = \<lparr>mo_id = 1, mo_address = address, mo_size = n, isUserSpecified = False\<rparr>"

definition example_space :: aspace where
  "example_space = \<lparr>cowKey = 1, objects = new_Node Terminator (new_Node Terminator Terminator (example_mo 20 0, 1)) (example_mo 10 4, 0)\<rparr>"

lemma example_layout_ok: "layout_ok example_space"
  by (simp add: layout_ok_def space_ok_def entries_def example_space_def example_mo_def ordered_def MemoryObjectLT_def
      mo_ok_def before_obj_def)

theorem copy_on_write_isolates_witness:
  "map_option views (run [Bind 0 (example_mo 10 4) (concrete_object 4 None) False, Fork 0, Store 1 (example_mo 10 4) (concrete_object 5 None)] ([], [new_aspace])) =
   spec_run [Bind 0 (example_mo 10 4) (concrete_object 4 None) False, Fork 0, Store 1 (example_mo 10 4) (concrete_object 5 None)] [Map.empty]"
  by (rule copy_on_write_isolates) simp


end
