(* ===== verification/Resolution.thy ===== *)
theory Resolution
  imports AddressSpace
begin

text \<open>
  Which objects a pointer may point into: the searches of \<open>lib/Core/AddressSpace.cpp\<close> over the map of
  objects, from the object at an example address to both sides, and the bounds checks of
  \<open>lib/Core/Memory.h\<close>. The solver is a parameter, for one state; queries may fail. The loops over
  iterators are partial functions, which are shown to be loops over the entries in order.
\<close>

section \<open>Resolution of pointers\<close>

text \<open>
  The solver for one state, \<open>None\<close> where a query fails. The bounds check of \<open>Memory.h\<close>, with pointers of 64 bits.
\<close>

record timing_solver =
  getValue :: "expr \<Rightarrow> apint option"
  mayBeTrue :: "expr \<Rightarrow> bool option"
  mustBeTrue :: "expr \<Rightarrow> bool option"

definition getBaseExpr :: "memobj \<Rightarrow> expr" where
  "getBaseExpr mo = ConstantExpr (ce_alloc (mo_address mo) 64)"

definition getSizeExpr :: "memobj \<Rightarrow> expr" where
  "getSizeExpr mo = ConstantExpr (ce_alloc (int (mo_size mo)) 64)"

definition getOffsetExpr :: "memobj \<Rightarrow> expr \<Rightarrow> expr" where
  "getOffsetExpr mo pointer = Sub_create False pointer (getBaseExpr mo)"

definition getBoundsCheckOffset :: "memobj \<Rightarrow> expr \<Rightarrow> expr" where
  "getBoundsCheckOffset mo offset =
     (if mo_size mo = 0 then Eq_create False offset (ConstantExpr (ce_alloc 0 64)) else Ult_create False offset (getSizeExpr mo))"

definition getBoundsCheckPointer :: "memobj \<Rightarrow> expr \<Rightarrow> expr" where
  "getBoundsCheckPointer mo pointer = getBoundsCheckOffset mo (getOffsetExpr mo pointer)"

text \<open>The check for an access of several bytes.\<close>

definition getBoundsCheckOffset_bytes :: "memobj \<Rightarrow> expr \<Rightarrow> nat \<Rightarrow> expr" where
  "getBoundsCheckOffset_bytes mo offset bytes =
     (if bytes \<le> mo_size mo then Ult_create False offset (ConstantExpr (ce_alloc (int (mo_size mo - bytes) + 1) 64))
      else ConstantExpr (ce_alloc 0 1))"

definition resolveOne_const :: "apint \<Rightarrow> aspace \<Rightarrow> (memobj \<times> nat) option option" where
  "resolveOne_const addr a =
     map_option (\<lambda>address.
       case lookup_previous MemoryObjectLT fst (hack address) (objects a) of
         None \<Rightarrow> None
       | Some (mo, p) \<Rightarrow>
           (if (mo_size mo = 0 \<and> address = mo_address mo) \<or> take_bit 64 (address - mo_address mo) < int (mo_size mo)
            then Some (mo, p) else None))
     (ce_getZExtValue 64 addr)"

text \<open>
  One object in the search of \<open>resolve\<close>: the objects found so far, and the value to return if the
  search ends here.
\<close>

definition look_at ::
  "timing_solver \<Rightarrow> expr \<Rightarrow> nat \<Rightarrow> memobj \<times> nat \<Rightarrow> (memobj \<times> nat) list \<Rightarrow> (memobj \<times> nat) list \<times> bool option" where
  "look_at sv p maxResolutions entry rl =
     (let inBounds = getBoundsCheckPointer (fst entry) p
      in case mayBeTrue sv inBounds of
           None \<Rightarrow> (rl, Some True)
         | Some False \<Rightarrow> (rl, None)
         | Some True \<Rightarrow>
             (let rl' = rl @ [entry]; n = length rl'
              in if n = 1 then
                   (case mustBeTrue sv inBounds of None \<Rightarrow> (rl', Some True) | Some True \<Rightarrow> (rl', Some False) | Some False \<Rightarrow> (rl', None))
                 else if n = maxResolutions then (rl', Some True)
                 else (rl', None)))"

text \<open>The loop towards smaller addresses; \<open>late\<close> says whether time has run out when an object is looked at.\<close>

partial_function (option) search_back ::
  "timing_solver \<Rightarrow> expr \<Rightarrow> nat \<Rightarrow> (memobj \<Rightarrow> bool) \<Rightarrow> (memobj \<times> nat) iterator \<Rightarrow> (memobj \<times> nat) iterator \<Rightarrow> (memobj \<times> nat) list \<Rightarrow>
    ((memobj \<times> nat) list \<times> bool option) option" where
  "search_back sv p maxResolutions late start oi rl =
     (if it_stack oi = it_stack start then Some (rl, None)
      else Option.bind (deref_it (decrement oi)) (\<lambda>entry.
        if late (fst entry) then Some (rl, Some True)
        else case look_at sv p maxResolutions entry rl of
            (rl', Some r) \<Rightarrow> Some (rl', Some r)
          | (rl', None) \<Rightarrow>
              (case mustBeTrue sv (Uge_create False p (getBaseExpr (fst entry))) of
                 None \<Rightarrow> Some (rl', Some True)
               | Some geq \<Rightarrow>
                   (if geq then Some (rl', None) else search_back sv p maxResolutions late start (decrement oi) rl'))))"

text \<open>The loop towards larger addresses.\<close>

partial_function (option) search_forward ::
  "timing_solver \<Rightarrow> expr \<Rightarrow> nat \<Rightarrow> (memobj \<Rightarrow> bool) \<Rightarrow> (memobj \<times> nat) iterator \<Rightarrow> (memobj \<times> nat) list \<Rightarrow>
    ((memobj \<times> nat) list \<times> bool option) option" where
  "search_forward sv p maxResolutions late oi rl =
     (case deref_it oi of
        None \<Rightarrow> Some (rl, None)
      | Some entry \<Rightarrow>
        (if late (fst entry) then Some (rl, Some True)
         else case mustBeTrue sv (Ult_create False p (getBaseExpr (fst entry))) of
            None \<Rightarrow> Some (rl, Some True)
          | Some ult \<Rightarrow>
              (if ult then Some (rl, None)
               else case look_at sv p maxResolutions entry rl of
                 (rl', Some r) \<Rightarrow> Some (rl', Some r)
               | (rl', None) \<Rightarrow> Option.bind (increment oi) (\<lambda>oi'. search_forward sv p maxResolutions late oi' rl'))))"

text \<open>The objects that are found, and whether the search is incomplete.\<close>

definition resolve ::
  "timing_solver \<Rightarrow> expr \<Rightarrow> nat \<Rightarrow> (memobj \<Rightarrow> bool) \<Rightarrow> aspace \<Rightarrow> ((memobj \<times> nat) list \<times> bool) option" where
  "resolve sv p maxResolutions late a =
     (case as_const p of
        Some c \<Rightarrow> map_option (\<lambda>res. (case res of None \<Rightarrow> [] | Some e \<Rightarrow> [e], False)) (resolveOne_const c a)
      | None \<Rightarrow>
          (case getValue sv p of
             None \<Rightarrow> Some ([], True)
           | Some cex \<Rightarrow>
               Option.bind (ce_getZExtValue 64 cex) (\<lambda>example.
               Option.bind (upper_bound MemoryObjectLT fst (hack example) (objects a)) (\<lambda>start.
               Option.bind (search_back sv p maxResolutions late (it_begin (objects a)) start []) (\<lambda>(rl, r).
                 case r of
                   Some r \<Rightarrow> Some (rl, r)
                 | None \<Rightarrow> map_option (\<lambda>(rl', r'). (rl', case r' of Some r \<Rightarrow> r | None \<Rightarrow> False))
                     (search_forward sv p maxResolutions late start rl))))))"

text \<open>
  \<open>resolveOne\<close> for any address. The outer \<open>None\<close> is a failed assertion; the result is \<open>None\<close> where the
  code returns \<open>False\<close>, and otherwise the object that was found, if any.
\<close>

partial_function (option) one_back ::
  "timing_solver \<Rightarrow> expr \<Rightarrow> (memobj \<times> nat) iterator \<Rightarrow> (memobj \<times> nat) iterator \<Rightarrow> (memobj \<times> nat) option option option" where
  "one_back sv address start oi =
     (if it_stack oi = it_stack start then Some (Some None)
      else Option.bind (deref_it (decrement oi)) (\<lambda>entry.
        case mayBeTrue sv (getBoundsCheckPointer (fst entry) address) of
          None \<Rightarrow> Some None
        | Some inb \<Rightarrow>
            (if inb then Some (Some (Some entry))
             else case mustBeTrue sv (Uge_create False address (getBaseExpr (fst entry))) of
               None \<Rightarrow> Some None
             | Some geq \<Rightarrow> (if geq then Some (Some None) else one_back sv address start (decrement oi)))))"

partial_function (option) one_forward ::
  "timing_solver \<Rightarrow> expr \<Rightarrow> (memobj \<times> nat) iterator \<Rightarrow> (memobj \<times> nat) option option option" where
  "one_forward sv address oi =
     (case deref_it oi of
        None \<Rightarrow> Some (Some None)
      | Some entry \<Rightarrow>
        (case mustBeTrue sv (Ult_create False address (getBaseExpr (fst entry))) of
           None \<Rightarrow> Some None
         | Some ult \<Rightarrow>
             (if ult then Some (Some None)
              else case mayBeTrue sv (getBoundsCheckPointer (fst entry) address) of
                None \<Rightarrow> Some None
              | Some inb \<Rightarrow>
                  (if inb then Some (Some (Some entry)) else Option.bind (increment oi) (one_forward sv address)))))"

definition search_one :: "timing_solver \<Rightarrow> expr \<Rightarrow> int \<Rightarrow> aspace \<Rightarrow> (memobj \<times> nat) option option option" where
  "search_one sv address example a =
     Option.bind (upper_bound MemoryObjectLT fst (hack example) (objects a)) (\<lambda>start.
     Option.bind (one_back sv address (it_begin (objects a)) start) (\<lambda>res.
       case res of Some None \<Rightarrow> one_forward sv address start | _ \<Rightarrow> Some res))"

definition resolveOne :: "timing_solver \<Rightarrow> expr \<Rightarrow> aspace \<Rightarrow> (memobj \<times> nat) option option option" where
  "resolveOne sv address a =
     (case as_const address of
        Some c \<Rightarrow> map_option Some (resolveOne_const c a)
      | None \<Rightarrow>
          (case getValue sv address of
             None \<Rightarrow> Some None
           | Some cex \<Rightarrow>
               Option.bind (ce_getZExtValue 64 cex) (\<lambda>example.
                 case lookup_previous MemoryObjectLT fst (hack example) (objects a) of
                   Some (mo, p) \<Rightarrow>
                     (if take_bit 64 (example - mo_address mo) < int (mo_size mo) then Some (Some (Some (mo, p)))
                      else search_one sv address example a)
                 | None \<Rightarrow> search_one sv address example a)))"

section \<open>Iterating over the map\<close>

lemma push_left_spine:
  "valid_path t (n # st) \<Longrightarrow> before n st = [] \<Longrightarrow> push_left n st = push_left t []"
proof (induction st arbitrary: n)
  case Nil
  then show ?case
    by simp
next
  case (Cons m st)
  then have "n = left m" "before m st = []" "m \<noteq> Terminator" "valid_path t (m # st)"
    by (auto split: if_splits)
  moreover have "push_left m st = push_left (left m) (m # st)"
    using \<open>m \<noteq> Terminator\<close> by (cases m) simp_all
  ultimately show ?case
    using Cons.IH [of m] by simp
qed

lemma at_begin:
  assumes "valid_it oi" "it_root oi = t" "distinct (inorder t)"
  shows "it_stack oi = it_stack (it_begin t) \<longleftrightarrow> elements_before t (it_stack oi) = []"
proof
  assume eq: "it_stack oi = it_stack (it_begin t)"
  have "elements_before t (it_stack (it_begin t)) @ inorder t = inorder t"
    using elements_split [of t "it_stack (it_begin t)"] begin_ok [of t] assms(3) by (simp add: valid_it_def it_begin_def)
  with eq show "elements_before t (it_stack oi) = []"
    by simp
next
  assume none: "elements_before t (it_stack oi) = []"
  show "it_stack oi = it_stack (it_begin t)"
  proof (cases "it_stack oi")
    case Nil
    with none have "t = Terminator"
      by (cases t) (simp_all add: elements_before_def)
    with Nil show ?thesis
      by (simp add: it_begin_def)
  next
    case (Cons n st)
    with none have e: "before n st = []" "left n = Terminator"
      by (auto simp: elements_before_def) (metis append_is_Nil_conv inorder.simps(2) list.discI node.exhaust)
    have p: "valid_path t (n # st)"
      using assms(1,2) Cons by (simp add: valid_it_def)
    then have "push_left n st = n # st"
      using e(2) by (cases n) simp_all
    with push_left_spine [OF p e(1)] Cons show ?thesis
      by (simp add: it_begin_def)
  qed
qed

text \<open>The searches over the entries in order.\<close>

primrec back_list ::
  "timing_solver \<Rightarrow> expr \<Rightarrow> nat \<Rightarrow> (memobj \<Rightarrow> bool) \<Rightarrow> entry list \<Rightarrow> entry list \<Rightarrow> entry list \<times> bool option" where
  "back_list sv p m late [] rl = (rl, None)"
| "back_list sv p m late (e # es) rl =
     (if late (fst e) then (rl, Some True)
      else case look_at sv p m e rl of
          (rl', Some r) \<Rightarrow> (rl', Some r)
        | (rl', None) \<Rightarrow>
            (case mustBeTrue sv (Uge_create False p (getBaseExpr (fst e))) of
               None \<Rightarrow> (rl', Some True)
             | Some geq \<Rightarrow> (if geq then (rl', None) else back_list sv p m late es rl')))"

primrec forward_list ::
  "timing_solver \<Rightarrow> expr \<Rightarrow> nat \<Rightarrow> (memobj \<Rightarrow> bool) \<Rightarrow> entry list \<Rightarrow> entry list \<Rightarrow> entry list \<times> bool option" where
  "forward_list sv p m late [] rl = (rl, None)"
| "forward_list sv p m late (e # es) rl =
     (if late (fst e) then (rl, Some True)
      else case mustBeTrue sv (Ult_create False p (getBaseExpr (fst e))) of
          None \<Rightarrow> (rl, Some True)
        | Some ult \<Rightarrow>
            (if ult then (rl, None)
             else case look_at sv p m e rl of
                (rl', Some r) \<Rightarrow> (rl', Some r)
              | (rl', None) \<Rightarrow> forward_list sv p m late es rl'))"

lemma search_back_list:
  assumes t: "distinct (inorder t)"
  shows "valid_it oi \<Longrightarrow> it_root oi = t \<Longrightarrow> elements_before t (it_stack oi) = rev es \<Longrightarrow>
    search_back sv p m late (it_begin t) oi rl = Some (back_list sv p m late es rl)"
proof (induction es arbitrary: oi rl)
  case Nil
  then show ?case
    using at_begin [OF Nil.prems(1,2) t] by (simp add: search_back.simps [where oi = oi])
next
  case (Cons e es)
  have "\<not> it_stack oi = it_stack (it_begin t)"
    using at_begin [OF Cons.prems(1,2) t] Cons.prems(3) by simp
  moreover have "it_root (decrement oi) = t" "valid_it (decrement oi)" "elements_before t (it_stack (decrement oi)) = rev es"
    "deref_it (decrement oi) = Some e"
    using decrement_ok [of oi "rev es" e] Cons.prems t by simp_all
  ultimately show ?case
    using Cons.IH [of "decrement oi"] by (simp add: search_back.simps [where oi = oi] split: option.split prod.split)
qed

lemma deref_from: "deref_it oi = (case elements_from (it_stack oi) of [] \<Rightarrow> None | e # _ \<Rightarrow> Some e)"
  by (simp add: deref_it_def elements_from_def split: list.split)

lemma search_forward_list:
  assumes t: "distinct (inorder t)"
  shows "valid_it oi \<Longrightarrow> it_root oi = t \<Longrightarrow> elements_from (it_stack oi) = es \<Longrightarrow>
    search_forward sv p m late oi rl = Some (forward_list sv p m late es rl)"
proof (induction es arbitrary: oi rl)
  case Nil
  then show ?case
    by (simp add: search_forward.simps [where oi = oi] deref_from)
next
  case (Cons e es)
  obtain oi' where "increment oi = Some oi'" "it_root oi' = t" "valid_it oi'" "elements_from (it_stack oi') = es" "deref_it oi = Some e"
    using increment_ok [of oi e es] Cons.prems t by auto
  then show ?case
    using Cons.IH [of oi'] by (simp add: search_forward.simps [where oi = oi] split: option.split prod.split)
qed

section \<open>What the search finds\<close>

text \<open>A solver that answers for the assignments \<open>S\<close>: what it says is true, and queries may fail.\<close>

definition answers :: "env set \<Rightarrow> timing_solver \<Rightarrow> bool" where
  "answers S sv \<longleftrightarrow>
     (\<forall>e c. wfe e \<longrightarrow> getValue sv e = Some c \<longrightarrow> ap_ok c \<and> bitWidth c = getWidth e \<and> (\<exists>env \<in> S. eval e env = apval c)) \<and>
     (\<forall>e b. wfe e \<longrightarrow> getWidth e = 1 \<longrightarrow> mayBeTrue sv e = Some b \<longrightarrow> b = (\<exists>env \<in> S. eval e env = 1)) \<and>
     (\<forall>e b. wfe e \<longrightarrow> getWidth e = 1 \<longrightarrow> mustBeTrue sv e = Some b \<longrightarrow> b = (\<forall>env \<in> S. eval e env = 1))"

lemma answersD:
  assumes "answers S sv" "wfe e"
  shows "getValue sv e = Some c \<Longrightarrow> ap_ok c \<and> bitWidth c = getWidth e \<and> (\<exists>env \<in> S. eval e env = apval c)"
    "getWidth e = 1 \<Longrightarrow> mayBeTrue sv e = Some b \<Longrightarrow> b = (\<exists>env \<in> S. eval e env = 1)"
    "getWidth e = 1 \<Longrightarrow> mustBeTrue sv e = Some b \<Longrightarrow> b = (\<forall>env \<in> S. eval e env = 1)"
  using assms unfolding answers_def by blast+

definition inside :: "int \<Rightarrow> memobj \<Rightarrow> bool" where
  "inside x mo \<longleftrightarrow> (if mo_size mo = 0 then x = mo_address mo else mo_address mo \<le> x \<and> x < mo_address mo + int (mo_size mo))"

lemma inside_apart: "before_obj a b \<Longrightarrow> mo_address b \<le> x \<Longrightarrow> \<not> inside x a" "before_obj a b \<Longrightarrow> x < mo_address a \<Longrightarrow> \<not> inside x b"
  "before_obj a b \<Longrightarrow> inside x a \<Longrightarrow> \<not> inside x b" "inside x mo \<Longrightarrow> mo_address mo \<le> x"
  by (auto simp: before_obj_def inside_def split: if_splits)

lemma offset_inside:
  assumes "mo_ok mo" "in_width 64 x"
  shows "(if mo_size mo = 0 then take_bit 64 (x - mo_address mo) = 0 else take_bit 64 (x - mo_address mo) < int (mo_size mo)) \<longleftrightarrow> inside x mo"
proof (cases "mo_address mo \<le> x")
  case True
  then have "take_bit 64 (x - mo_address mo) = x - mo_address mo"
    using assms by (simp add: take_bit_int_eq_self_iff mo_ok_def in_width_def)
  with True show ?thesis
    by (auto simp: inside_def)
next
  case False
  have "take_bit 64 (x - mo_address mo + 2 ^ 64) = x - mo_address mo + 2 ^ 64"
    using assms False by (simp add: take_bit_int_eq_self_iff mo_ok_def in_width_def)
  moreover have "take_bit 64 (x - mo_address mo + 2 ^ 64) = take_bit 64 (x - mo_address mo)"
    by (simp add: take_bit_eq_mod)
  ultimately have "take_bit 64 (x - mo_address mo) = x - mo_address mo + 2 ^ 64"
    by simp
  with False assms show ?thesis
    by (auto simp: inside_def mo_ok_def in_width_def)
qed

lemma base_size_ok [simp]: "wfe (getBaseExpr mo)" "getWidth (getBaseExpr mo) = 64" "wfe (getSizeExpr mo)" "getWidth (getSizeExpr mo) = 64"
  by (simp_all add: getBaseExpr_def getSizeExpr_def ap_ok_def ce_alloc_def)

lemma eval_base_size:
  assumes "mo_ok mo"
  shows "eval (getBaseExpr mo) env = mo_address mo" "mo_size mo < 2 ^ 64 \<Longrightarrow> eval (getSizeExpr mo) env = int (mo_size mo)"
  using assms by (simp_all add: getBaseExpr_def getSizeExpr_def ce_alloc_def mo_ok_def take_bit_int_eq_self)

lemma bounds_check:
  assumes p: "wfe p" "getWidth p = 64" and mo: "mo_ok mo" "mo_size mo < 2 ^ 32"
  shows "wfe (getBoundsCheckPointer mo p)" "getWidth (getBoundsCheckPointer mo p) = 1"
    "eval (getBoundsCheckPointer mo p) env = of_bool (inside (eval p env) mo)"
    "wfe (Uge_create False p (getBaseExpr mo))" "getWidth (Uge_create False p (getBaseExpr mo)) = 1"
    "eval (Uge_create False p (getBaseExpr mo)) env = of_bool (mo_address mo \<le> eval p env)"
    "wfe (Ult_create False p (getBaseExpr mo))" "getWidth (Ult_create False p (getBaseExpr mo)) = 1"
    "eval (Ult_create False p (getBaseExpr mo)) env = of_bool (eval p env < mo_address mo)"
proof -
  have x: "in_width 64 (eval p env)"
    using eval_in_width(1) [OF p(1)] p(2) by metis
  have size: "eval (getSizeExpr mo) env = int (mo_size mo)"
    using eval_base_size [OF mo(1)] mo(2) by simp
  have "wfe (BinaryExpr Sub p (getBaseExpr mo))"
    using p by simp
  note off = eqvD [OF Sub_create_ok this]
  have off': "wfe (getOffsetExpr mo p)" "getWidth (getOffsetExpr mo p) = 64"
    "eval (getOffsetExpr mo p) env = take_bit 64 (eval p env - mo_address mo)"
    using off p(2) eval_base_size [OF mo(1)] by (simp_all add: getOffsetExpr_def)
  have c0: "wfe (ConstantExpr (ce_alloc 0 64))" "getWidth (ConstantExpr (ce_alloc 0 64)) = 64" "eval (ConstantExpr (ce_alloc 0 64)) env = 0"
    by (simp_all add: ap_ok_def ce_alloc_def)
  show "wfe (getBoundsCheckPointer mo p)" "getWidth (getBoundsCheckPointer mo p) = 1"
    "eval (getBoundsCheckPointer mo p) env = of_bool (inside (eval p env) mo)"
    using eqvD [OF Eq_create_ok, of "getOffsetExpr mo p" "ConstantExpr (ce_alloc 0 64)"]
      eqvD [OF cmp_create_ok(1), of "getOffsetExpr mo p" "getSizeExpr mo"] off' c0 size offset_inside [OF mo(1) x]
    by (auto simp: getBoundsCheckPointer_def getBoundsCheckOffset_def)
  show "wfe (Uge_create False p (getBaseExpr mo))" "getWidth (Uge_create False p (getBaseExpr mo)) = 1"
    "eval (Uge_create False p (getBaseExpr mo)) env = of_bool (mo_address mo \<le> eval p env)"
    using eqvD [OF cmp_swapped_create_ok(2), of p "getBaseExpr mo"] p eval_base_size [OF mo(1)] by simp_all
  show "wfe (Ult_create False p (getBaseExpr mo))" "getWidth (Ult_create False p (getBaseExpr mo)) = 1"
    "eval (Ult_create False p (getBaseExpr mo)) env = of_bool (eval p env < mo_address mo)"
    using eqvD [OF cmp_create_ok(1), of p "getBaseExpr mo"] p eval_base_size [OF mo(1)] by simp_all
qed

text \<open>The check for several bytes: all of them are inside of the object.\<close>

lemma bounds_check_bytes:
  assumes off: "wfe off" "getWidth off = 64" and mo: "mo_size mo < 2 ^ 32"
  shows "eval (getBoundsCheckOffset_bytes mo off n) env = of_bool (eval off env + int n \<le> int (mo_size mo))"
proof (cases "n \<le> mo_size mo")
  case True
  let ?c = "ConstantExpr (ce_alloc (int (mo_size mo - n) + 1) 64)"
  have "wfe ?c" "getWidth ?c = 64" "eval ?c env = int (mo_size mo - n) + 1"
    using mo by (simp_all add: ap_ok_def in_width_def ce_alloc_def take_bit_int_eq_self)
  with True eqvD [OF cmp_create_ok(1), of off ?c] off show ?thesis
    by (auto simp: getBoundsCheckOffset_bytes_def)
next
  case False
  have "0 \<le> eval off env"
    using eval_in_width(1) [OF off(1), of env] by (simp add: in_width_def)
  with False show ?thesis
    by (simp add: getBoundsCheckOffset_bytes_def ce_alloc_def)
qed

text \<open>What \<open>mo_size\<close> may be, as an \<open>unsigned\<close>; and what it means that a pointer may point into an object.\<close>

definition sizes_ok :: "aspace \<Rightarrow> bool" where
  "sizes_ok a \<longleftrightarrow> (\<forall>e \<in> set (entries a). mo_size (fst e) < 2 ^ 32)"

definition may_point :: "env set \<Rightarrow> expr \<Rightarrow> entry \<Rightarrow> bool" where
  "may_point S p e \<longleftrightarrow> (\<exists>env \<in> S. inside (eval p env) (fst e))"

definition entry_ok :: "entry \<Rightarrow> bool" where
  "entry_ok e \<longleftrightarrow> mo_ok (fst e) \<and> mo_size (fst e) < 2 ^ 32"

lemma look_at_ok:
  assumes sv: "answers S sv" and p: "wfe p" "getWidth p = 64" and e: "entry_ok e" and l: "look_at sv p m e rl = (rl', r)"
  shows "r = None \<Longrightarrow> rl' = rl @ filter (may_point S p) [e]"
    "r = Some False \<Longrightarrow> rl = [] \<and> rl' = [e] \<and> may_point S p e \<and> (\<forall>env \<in> S. inside (eval p env) (fst e))"
    "r = Some True \<Longrightarrow> \<exists>n. rl' = rl @ take n (filter (may_point S p) [e])"
proof -
  note b = bounds_check [OF p, of "fst e"]
  have e': "mo_ok (fst e)" "mo_size (fst e) < 2 ^ 32"
    using e by (simp_all add: entry_ok_def)
  have may: "c = may_point S p e" if "mayBeTrue sv (getBoundsCheckPointer (fst e) p) = Some c" for c
    using answersD(2) [OF sv b(1) [OF e'] b(2) [OF e'] that] b(3) [OF e'] by (simp add: may_point_def)
  have must: "c = (\<forall>env \<in> S. inside (eval p env) (fst e))" if "mustBeTrue sv (getBoundsCheckPointer (fst e) p) = Some c" for c
    using answersD(3) [OF sv b(1) [OF e'] b(2) [OF e'] that] b(3) [OF e'] by simp
  have all: "(r = None \<longrightarrow> rl' = rl @ filter (may_point S p) [e]) \<and>
      (r = Some False \<longrightarrow> rl = [] \<and> rl' = [e] \<and> may_point S p e \<and> (\<forall>env \<in> S. inside (eval p env) (fst e))) \<and>
      (r = Some True \<longrightarrow> (\<exists>n. rl' = rl @ take n (filter (may_point S p) [e])))"
  proof (cases "mayBeTrue sv (getBoundsCheckPointer (fst e) p)")
    case None
    then show ?thesis
      using l by (auto simp: look_at_def Let_def intro: exI [of _ 0])
  next
    case (Some c)
    show ?thesis
    proof (cases c)
      case False
      with may [OF Some] Some l show ?thesis
        by (auto simp: look_at_def)
    next
      case True
      with may [OF Some] Some l must show ?thesis
        by (auto simp: look_at_def Let_def split: if_splits option.splits bool.splits intro: exI [of _ 1])
    qed
  qed
  then show "r = None \<Longrightarrow> rl' = rl @ filter (may_point S p) [e]"
    "r = Some False \<Longrightarrow> rl = [] \<and> rl' = [e] \<and> may_point S p e \<and> (\<forall>env \<in> S. inside (eval p env) (fst e))"
    "r = Some True \<Longrightarrow> \<exists>n. rl' = rl @ take n (filter (may_point S p) [e])"
    by blast+
qed

text \<open>What a search over the entries \<open>es\<close> may end with.\<close>

definition found :: "env set \<Rightarrow> expr \<Rightarrow> entry list \<Rightarrow> entry list \<Rightarrow> entry list \<times> bool option \<Rightarrow> bool" where
  "found S p es rl res \<longleftrightarrow> (case res of
       (rl', None) \<Rightarrow> rl' = rl @ filter (may_point S p) es
     | (rl', Some False) \<Rightarrow> rl = [] \<and> (\<exists>e \<in> set es. rl' = [e] \<and> may_point S p e \<and> (\<forall>env \<in> S. inside (eval p env) (fst e)))
     | (rl', Some True) \<Rightarrow> \<exists>n. rl' = rl @ take n (filter (may_point S p) es))"

lemma found_Cons:
  assumes "look_at sv p m e rl = (rl', None)" "answers S sv" "wfe p" "getWidth p = 64" "entry_ok e" "found S p es rl' res"
  shows "found S p (e # es) rl res"
proof -
  have rl': "rl' = rl @ filter (may_point S p) [e]"
    using look_at_ok(1) [OF assms(2-5,1)] by simp
  obtain rl2 r where res: "res = (rl2, r)"
    by fastforce
  consider "r = None" | "r = Some False" | (early) "r = Some True"
    by (cases r) auto
  then show ?thesis
  proof cases
    case early
    then obtain n where "rl2 = rl' @ take n (filter (may_point S p) es)"
      using assms(6) by (auto simp: found_def res)
    then have "rl2 = rl @ take (length (filter (may_point S p) [e]) + n) (filter (may_point S p) (e # es))"
      by (simp add: rl')
    with early show ?thesis
      by (auto simp: found_def res simp del: filter.simps)
  qed (use assms(6) rl' in \<open>auto simp: found_def res split: if_splits\<close>)
qed

lemma found_now:
  assumes "look_at sv p m e rl = (rl', Some r)" "answers S sv" "wfe p" "getWidth p = 64" "entry_ok e"
  shows "found S p (e # es) rl (rl', Some r)"
proof (cases r)
  case False
  with look_at_ok(2) [OF assms(2-5,1)] show ?thesis
    by (simp add: found_def)
next
  case True
  then obtain n where "rl' = rl @ take n (filter (may_point S p) [e])"
    using look_at_ok(3) [OF assms(2-5,1)] by auto
  then have "rl' = rl @ take (min n (length (filter (may_point S p) [e]))) (filter (may_point S p) (e # es))"
    by (cases n) auto
  with True show ?thesis
    unfolding found_def by auto
qed

lemma found_stop: "found S p es rl (rl, Some True)"
  by (auto simp: found_def intro: exI [of _ 0])

lemma found_rest:
  assumes "found S p (e # []) rl (rl', None)" "\<And>e'. e' \<in> set es \<Longrightarrow> \<not> may_point S p e'"
  shows "found S p (e # es) rl (rl', None)"
  using assms by (auto simp: found_def filter_empty_conv)

lemma back_list_ok:
  assumes sv: "answers S sv" and p: "wfe p" "getWidth p = 64"
  shows "list_all entry_ok es \<Longrightarrow> sorted_wrt (\<lambda>x y. before_obj (fst y) (fst x)) es \<Longrightarrow>
    found S p es rl (back_list sv p m late es rl)"
proof (induction es arbitrary: rl)
  case Nil
  then show ?case
    by (simp add: found_def)
next
  case (Cons e es)
  have e: "entry_ok e" "mo_ok (fst e)" "mo_size (fst e) < 2 ^ 32"
    using Cons.prems(1) by (simp_all add: entry_ok_def)
  note b = bounds_check [OF p e(2,3)]
  obtain rl' r where l: "look_at sv p m e rl = (rl', r)"
    by fastforce
  show ?case
  proof (cases "late (fst e) \<or> r \<noteq> None")
    case True
    then show ?thesis
      using l found_now [OF _ sv p e(1)] found_stop by (auto simp: not_None_eq)
  next
    case False
    then have l: "look_at sv p m e rl = (rl', None)" "\<not> late (fst e)"
      using l by simp_all
    have one: "found S p [e] rl (rl', None)"
      using look_at_ok(1) [OF sv p e(1) l(1)] by (simp add: found_def)
    have stopped: "found S p (e # es) rl (rl', Some True)"
      using found_Cons [OF l(1) sv p e(1) found_stop] .
    show ?thesis
    proof (cases "mustBeTrue sv (Uge_create False p (getBaseExpr (fst e)))")
      case None
      with l stopped show ?thesis
        by simp
    next
      case (Some geq)
      show ?thesis
      proof (cases geq)
        case False
        with Some l found_Cons [OF l(1) sv p e(1) Cons.IH] Cons.prems show ?thesis
          by simp
      next
        case True
        then have "mo_address (fst e) \<le> eval p env" if "env \<in> S" for env
          using answersD(3) [OF sv b(4,5) Some] that b(6) by simp
        then have "\<not> may_point S p e'" if "e' \<in> set es" for e'
          using Cons.prems(2) that inside_apart(1) by (auto simp: may_point_def)
        with found_rest [OF one] Some True l show ?thesis
          by simp
      qed
    qed
  qed
qed

lemma forward_list_ok:
  assumes sv: "answers S sv" and p: "wfe p" "getWidth p = 64"
  shows "list_all entry_ok es \<Longrightarrow> sorted_wrt (\<lambda>x y. before_obj (fst x) (fst y)) es \<Longrightarrow>
    found S p es rl (forward_list sv p m late es rl)"
proof (induction es arbitrary: rl)
  case Nil
  then show ?case
    by (simp add: found_def)
next
  case (Cons e es)
  have e: "entry_ok e" "mo_ok (fst e)" "mo_size (fst e) < 2 ^ 32"
    using Cons.prems(1) by (simp_all add: entry_ok_def)
  note b = bounds_check [OF p e(2,3)]
  show ?case
  proof (cases "late (fst e) \<or> mustBeTrue sv (Ult_create False p (getBaseExpr (fst e))) = None")
    case True
    then show ?thesis
      using found_stop by auto
  next
    case False
    then obtain ult where u: "\<not> late (fst e)" "mustBeTrue sv (Ult_create False p (getBaseExpr (fst e))) = Some ult"
      by auto
    show ?thesis
    proof (cases ult)
      case True
      then have "eval p env < mo_address (fst e)" if "env \<in> S" for env
        using answersD(3) [OF sv b(7,8) u(2)] that b(9) by simp
      then have "\<not> may_point S p e'" if "e' \<in> set (e # es)" for e'
        using Cons.prems(2) that inside_apart(2,4) by (fastforce simp: may_point_def)
      with u True show ?thesis
        by (simp add: found_def filter_empty_conv)
    next
      case False
      obtain rl' r where l: "look_at sv p m e rl = (rl', r)"
        by fastforce
      show ?thesis
      proof (cases r)
        case None
        with l u False found_Cons [OF _ sv p e(1) Cons.IH] Cons.prems show ?thesis
          by simp
      next
        case (Some r')
        with l u False found_now [OF _ sv p e(1)] show ?thesis
          by simp
      qed
    qed
  qed
qed

text \<open>The position where the searches start.\<close>

lemma search_start:
  assumes "layout_ok a"
  obtains start es fs where "upper_bound MemoryObjectLT fst k (objects a) = Some start" "entries a = rev es @ fs"
    "\<And>sv p m late rl. search_back sv p m late (it_begin (objects a)) start rl = Some (back_list sv p m late es rl)"
    "\<And>sv p m late rl. search_forward sv p m late start rl = Some (forward_list sv p m late fs rl)"
    "valid_it start" "it_root start = objects a" "elements_before (objects a) (it_stack start) = rev es" "elements_from (it_stack start) = fs"
proof -
  let ?t = "objects a"
  have o: "ordered MemoryObjectLT fst (inorder ?t)"
    using assms by (simp add: layout_ok_def space_ok_def entries_def)
  note d = by_address.ordered_distinct [OF o]
  obtain start where start: "upper_bound MemoryObjectLT fst k ?t = Some start" "it_root start = ?t" "valid_it start"
    "elements_from (it_stack start) = larger MemoryObjectLT fst k (inorder ?t)"
    using by_address.upper_bound_ok [OF o] by blast
  define es where "es = rev (elements_before ?t (it_stack start))"
  have "rev es @ elements_from (it_stack start) = inorder ?t"
    using elements_split [OF _ d, of "it_stack start"] start(2,3) by (simp add: es_def valid_it_def)
  moreover have eb: "elements_before ?t (it_stack start) = rev es"
    by (simp add: es_def)
  ultimately show ?thesis
    by (intro that [OF start(1) _ search_back_list [OF d start(3,2) eb] search_forward_list [OF d start(3,2) refl] start(3,2) eb refl])
      (simp add: entries_def)
qed

lemma layout_parts:
  assumes "layout_ok a" "sizes_ok a" "entries a = rev es @ fs"
  shows "list_all entry_ok es" "list_all entry_ok fs" "sorted_wrt (\<lambda>x y. before_obj (fst y) (fst x)) es"
    "sorted_wrt (\<lambda>x y. before_obj (fst x) (fst y)) fs" "distinct (entries a)"
proof -
  have s: "sorted_wrt (\<lambda>x y. before_obj (fst x) (fst y)) (rev es @ fs)" "\<forall>e \<in> set (rev es @ fs). entry_ok e"
    using assms by (auto simp: layout_ok_def sizes_ok_def entry_ok_def)
  then show "list_all entry_ok es" "list_all entry_ok fs" "sorted_wrt (\<lambda>x y. before_obj (fst y) (fst x)) es"
    "sorted_wrt (\<lambda>x y. before_obj (fst x) (fst y)) fs"
    by (auto simp: list_all_iff sorted_wrt_append sorted_wrt_rev)
  show "distinct (entries a)"
    using assms(1) by_address.ordered_distinct by (auto simp: layout_ok_def space_ok_def)
qed

text \<open>Objects do not overlap, so a pointer points into at most one.\<close>

lemma inside_unique:
  assumes "layout_ok a" "e \<in> set (entries a)" "e' \<in> set (entries a)" "inside x (fst e)" "inside x (fst e')"
  shows "e = e'"
proof -
  obtain i j where ij: "i < length (entries a)" "j < length (entries a)" "e = entries a ! i" "e' = entries a ! j"
    using assms(2,3) by (auto simp: in_set_conv_nth)
  have "i < j \<Longrightarrow> before_obj (fst e) (fst e')" "j < i \<Longrightarrow> before_obj (fst e') (fst e)"
    using assms(1) ij by (auto simp: layout_ok_def sorted_wrt_iff_nth_less)
  then show ?thesis
    using ij inside_apart(3) assms(4,5) by (metis linorder_less_linear)
qed

text \<open>A constant address.\<close>

lemma resolve_const:
  assumes a: "layout_ok a" "sizes_ok a" and c: "ap_ok c" "bitWidth c = 64"
  shows "\<exists>res. resolveOne_const c a = Some res \<and>
    (case res of Some e \<Rightarrow> e \<in> set (entries a) \<and> inside (apval c) (fst e) | None \<Rightarrow> \<forall>e \<in> set (entries a). \<not> inside (apval c) (fst e))"
proof -
  let ?k = "hack (apval c)"
  have o: "ordered MemoryObjectLT fst (inorder (objects a))"
    using a(1) by (simp add: layout_ok_def space_ok_def entries_def)
  have x: "ce_getZExtValue 64 c = Some (apval c)" "in_width 64 (apval c)"
    using c ap_ok_range [of c] by (auto simp: ce_getZExtValue_def ap_ok_def)
  define vs where "vs = smaller MemoryObjectLT fst ?k (inorder (objects a)) @ same_key MemoryObjectLT fst ?k (inorder (objects a))"
  have vs: "lookup_previous MemoryObjectLT fst ?k (objects a) = (if vs = [] then None else Some (last vs))"
    using by_address.lookup_previous_from_ok [OF o, of ?k None] unfolding lookup_previous_def vs_def Let_def .
  have "entries a = vs @ larger MemoryObjectLT fst ?k (entries a)"
    using by_address.ordered_parts(1) [OF o, of ?k] by (simp add: vs_def entries_def)
  moreover have "\<not> inside (apval c) (fst e)" if "e \<in> set (larger MemoryObjectLT fst ?k (entries a))" for e
    using that inside_apart(4) by (fastforce simp: larger_def MemoryObjectLT_def hack_def)
  ultimately obtain L where split: "entries a = vs @ L" and above: "\<And>e. e \<in> set L \<Longrightarrow> \<not> inside (apval c) (fst e)"
    by blast
  show ?thesis
  proof (cases "vs = []")
    case True
    with vs x above split show ?thesis
      by (auto simp: resolveOne_const_def)
  next
    case False
    then obtain us mo q where l: "vs = us @ [(mo, q)]"
      by (metis append_butlast_last_id prod.collapse)
    have "(mo, q) \<in> set vs"
      by (simp add: l)
    then have e: "(mo, q) \<in> set (entries a)" "mo_address mo \<le> apval c"
      by (auto simp: vs_def entries_def part_defs MemoryObjectLT_def hack_def)
    have mo: "mo_ok mo"
      using a(1) e(1) by (auto simp: layout_ok_def)
    have res: "resolveOne_const c a = Some (if inside (apval c) mo then Some (mo, q) else None)"
      using offset_inside [OF mo x(2)] x(1) by (simp add: resolveOne_const_def vs l) (auto simp: inside_def)
    have "\<not> inside (apval c) (fst e')" if "e' \<in> set us" for e'
    proof -
      have "before_obj (fst e') mo"
        using a(1) that split l by (auto simp: layout_ok_def sorted_wrt_append)
      then show ?thesis
        using inside_apart(1) e(2) by blast
    qed
    with res e(1) above split l show ?thesis
      by (auto split: if_splits)
  qed
qed

section \<open>Properties\<close>

text \<open>
  C30: A complete resolution finds exactly the objects that a pointer may point into. For objects that
  do not overlap and a solver whose answers are right, \<open>resolve\<close> returns, and what it returns are
  objects that the pointer points into under some assignment, each once; unless it says that the
  search was cut short, these are all such objects.
\<close>

theorem resolve_finds_all:
  assumes a: "layout_ok a" "sizes_ok a" and sv: "answers S sv" "S \<noteq> {}" and p: "wfe p" "getWidth p = 64"
  shows "\<exists>rl incomplete. resolve sv p m late a = Some (rl, incomplete) \<and> distinct rl \<and>
    set rl \<subseteq> {e \<in> set (entries a). may_point S p e} \<and> (\<not> incomplete \<longrightarrow> set rl = {e \<in> set (entries a). may_point S p e})"
proof (cases "as_const p")
  case (Some c)
  then have c: "p = ConstantExpr c" "ap_ok c" "bitWidth c = 64"
    using p by auto
  obtain res where res: "resolveOne_const c a = Some res"
    "case res of Some e \<Rightarrow> e \<in> set (entries a) \<and> inside (apval c) (fst e) | None \<Rightarrow> \<forall>e \<in> set (entries a). \<not> inside (apval c) (fst e)"
    using resolve_const [OF a c(2,3)] by blast
  have may: "may_point S p e \<longleftrightarrow> inside (apval c) (fst e)" for e
    using sv(2) by (auto simp: may_point_def c(1))
  show ?thesis
  proof (cases res)
    case None
    with res Some may show ?thesis
      by (auto simp: resolve_def)
  next
    case found: (Some e)
    then have "e \<in> set (entries a)" "inside (apval c) (fst e)"
      using res(2) by simp_all
    then have "{e' \<in> set (entries a). may_point S p e'} = {e}"
      using may inside_unique [OF a(1) _ \<open>e \<in> _\<close> _ \<open>inside _ _\<close>] by blast
    with found res(1) Some show ?thesis
      by (auto simp: resolve_def)
  qed
next
  case None
  show ?thesis
  proof (cases "getValue sv p")
    case None': None
    with None have "resolve sv p m late a = Some ([], True)"
      by (simp add: resolve_def)
    then show ?thesis
      by (intro exI [of _ "[]"] exI [of _ True]) simp
  next
    case (Some cex)
    then have x: "ce_getZExtValue 64 cex = Some (apval cex)"
      using answersD(1) [OF sv(1) p(1) Some] p(2) ap_ok_range [of cex] by (auto simp: ce_getZExtValue_def)
    obtain start es fs where s: "upper_bound MemoryObjectLT fst (hack (apval cex)) (objects a) = Some start" "entries a = rev es @ fs"
      "\<And>rl. search_back sv p m late (it_begin (objects a)) start rl = Some (back_list sv p m late es rl)"
      "\<And>rl. search_forward sv p m late start rl = Some (forward_list sv p m late fs rl)"
      by (rule search_start [OF a(1), of "hack (apval cex)"]) (rule that)
    note parts = layout_parts [OF a s(2)]
    obtain rl r where b: "back_list sv p m late es [] = (rl, r)"
      by fastforce
    have bk: "found S p es [] (rl, r)"
      using back_list_ok [OF sv(1) p parts(1,3), of "[]" m late] b by simp
    obtain rl' r' where f: "forward_list sv p m late fs rl = (rl', r')"
      by fastforce
    have forward: "found S p fs rl (rl', r')"
      using forward_list_ok [OF sv(1) p parts(2,4), of rl m late] f by simp
    have eq: "resolve sv p m late a = Some (case r of Some inc \<Rightarrow> (rl, inc) | None \<Rightarrow> (rl', case r' of Some inc \<Rightarrow> inc | None \<Rightarrow> False))"
      by (cases r) (simp_all add: resolve_def None Some x s(1,3,4) b f)
    have only: "{e' \<in> set (entries a). may_point S p e'} = {e}"
      if "e \<in> set (entries a)" "may_point S p e" "\<forall>env \<in> S. inside (eval p env) (fst e)" for e
      using that inside_unique [OF a(1) _ that(1)] unfolding may_point_def by blast
    have d: "distinct (filter (may_point S p) es @ filter (may_point S p) fs)"
      using parts(5) unfolding s(2) by auto
    consider "r = None" "r' = None" | "r = None" "r' = Some False" | "r = None" "r' = Some True" | "r = Some False" | "r = Some True"
      by (cases r; cases r') auto
    then show ?thesis
    proof cases
      case 1
      with bk forward have "rl' = filter (may_point S p) es @ filter (may_point S p) fs"
        by (simp add: found_def)
      with eq 1 d show ?thesis
        by (auto simp: s(2))
    next
      case 2
      with forward obtain e where "e \<in> set fs" "rl' = [e]" "may_point S p e" "\<forall>env \<in> S. inside (eval p env) (fst e)"
        by (auto simp: found_def)
      moreover have "set rl' = {e' \<in> set (entries a). may_point S p e'}"
        using calculation only [of e] by (simp add: s(2))
      ultimately show ?thesis
        using eq 2 by auto
    next
      case 3
      with bk forward obtain n where rl': "rl' = filter (may_point S p) es @ take n (filter (may_point S p) fs)"
        by (auto simp: found_def)
      note sub = set_take_subset [of n "filter (may_point S p) fs"]
      have "distinct rl'"
        unfolding rl' distinct_append using d sub by (simp add: distinct_append) blast
      moreover have "set rl' \<subseteq> {e \<in> set (entries a). may_point S p e}"
        unfolding rl' set_append s(2) using sub by fastforce
      ultimately show ?thesis
        using eq 3 by auto
    next
      case 4
      with bk obtain e where "e \<in> set es" "rl = [e]" "may_point S p e" "\<forall>env \<in> S. inside (eval p env) (fst e)"
        by (auto simp: found_def)
      moreover have "set rl = {e' \<in> set (entries a). may_point S p e'}"
        using calculation only [of e] by (simp add: s(2))
      ultimately show ?thesis
        using eq 4 by auto
    next
      case 5
      with bk obtain n where rl: "rl = take n (filter (may_point S p) es)"
        by (auto simp: found_def)
      have "distinct rl"
        unfolding rl using d by simp
      moreover have "set rl \<subseteq> {e \<in> set (entries a). may_point S p e}"
        unfolding rl s(2) using set_take_subset [of n "filter (may_point S p) es"] by fastforce
      ultimately show ?thesis
        using eq 5 by auto
    qed
  qed
qed

text \<open>
  C31: A limit of one object is no limit: \<open>resolve\<close> compares the number of objects found with the limit
  only from the second object on, so a limit of 1 gives what no limit gives, while the header promises
  that no more objects than the limit are returned.
\<close>

theorem limit_of_one_ignored:
  assumes "layout_ok a"
  shows "resolve sv p 1 late a = resolve sv p 0 late a"
proof -
  have look: "look_at sv p (Suc 0) = look_at sv p 0"
    by (auto simp: look_at_def fun_eq_iff Let_def split: option.split bool.split)
  have lists: "back_list sv p (Suc 0) late es rl = back_list sv p 0 late es rl"
    "forward_list sv p (Suc 0) late es rl = forward_list sv p 0 late es rl" for es rl
    by (induction es arbitrary: rl) (auto simp: look split: option.split prod.split)
  show ?thesis
  proof (cases "Option.bind (getValue sv p) (ce_getZExtValue 64)")
    case None
    then show ?thesis
      by (auto simp: resolve_def Option.bind_eq_None_conv split: option.split)
  next
    case (Some x)
    obtain start es fs where "upper_bound MemoryObjectLT fst (hack x) (objects a) = Some start"
      "\<And>sv p m late rl. search_back sv p m late (it_begin (objects a)) start rl = Some (back_list sv p m late es rl)"
      "\<And>sv p m late rl. search_forward sv p m late start rl = Some (forward_list sv p m late fs rl)"
      by (rule search_start [OF assms, of "hack x"]) (rule that)
    with Some show ?thesis
      by (auto simp: resolve_def lists Option.bind_eq_Some_conv split: option.split)
  qed
qed

section \<open>Resolving to one object\<close>

primrec one_back_list :: "timing_solver \<Rightarrow> expr \<Rightarrow> entry list \<Rightarrow> entry option option" where
  "one_back_list sv p [] = Some None"
| "one_back_list sv p (e # es) =
     (case mayBeTrue sv (getBoundsCheckPointer (fst e) p) of
        None \<Rightarrow> None
      | Some inb \<Rightarrow>
          (if inb then Some (Some e)
           else case mustBeTrue sv (Uge_create False p (getBaseExpr (fst e))) of
             None \<Rightarrow> None
           | Some geq \<Rightarrow> (if geq then Some None else one_back_list sv p es)))"

primrec one_forward_list :: "timing_solver \<Rightarrow> expr \<Rightarrow> entry list \<Rightarrow> entry option option" where
  "one_forward_list sv p [] = Some None"
| "one_forward_list sv p (e # es) =
     (case mustBeTrue sv (Ult_create False p (getBaseExpr (fst e))) of
        None \<Rightarrow> None
      | Some ult \<Rightarrow>
          (if ult then Some None
           else case mayBeTrue sv (getBoundsCheckPointer (fst e) p) of
             None \<Rightarrow> None
           | Some inb \<Rightarrow> (if inb then Some (Some e) else one_forward_list sv p es)))"

lemma one_back_eq:
  assumes t: "distinct (inorder t)"
  shows "valid_it oi \<Longrightarrow> it_root oi = t \<Longrightarrow> elements_before t (it_stack oi) = rev es \<Longrightarrow>
    one_back sv p (it_begin t) oi = Some (one_back_list sv p es)"
proof (induction es arbitrary: oi)
  case Nil
  then show ?case
    using at_begin [OF Nil.prems(1,2) t] by (simp add: one_back.simps [where oi = oi])
next
  case (Cons e es)
  have "\<not> it_stack oi = it_stack (it_begin t)"
    using at_begin [OF Cons.prems(1,2) t] Cons.prems(3) by simp
  moreover have "it_root (decrement oi) = t" "valid_it (decrement oi)" "elements_before t (it_stack (decrement oi)) = rev es"
    "deref_it (decrement oi) = Some e"
    using decrement_ok [of oi "rev es" e] Cons.prems t by simp_all
  ultimately show ?case
    using Cons.IH [of "decrement oi"] by (simp add: one_back.simps [where oi = oi] split: option.split)
qed

lemma one_forward_eq:
  assumes t: "distinct (inorder t)"
  shows "valid_it oi \<Longrightarrow> it_root oi = t \<Longrightarrow> elements_from (it_stack oi) = es \<Longrightarrow>
    one_forward sv p oi = Some (one_forward_list sv p es)"
proof (induction es arbitrary: oi)
  case Nil
  then show ?case
    by (simp add: one_forward.simps [where oi = oi] deref_from)
next
  case (Cons e es)
  obtain oi' where "increment oi = Some oi'" "it_root oi' = t" "valid_it oi'" "elements_from (it_stack oi') = es" "deref_it oi = Some e"
    using increment_ok [of oi e es] Cons.prems t by auto
  then show ?case
    using Cons.IH [of oi'] by (simp add: one_forward.simps [where oi = oi] split: option.split)
qed

text \<open>The result is right: an object that the pointer may point into, or none if there is none.\<close>

definition one_ok :: "env set \<Rightarrow> expr \<Rightarrow> entry list \<Rightarrow> entry option option \<Rightarrow> bool" where
  "one_ok S p es res \<longleftrightarrow> (case res of
       None \<Rightarrow> True
     | Some (Some e) \<Rightarrow> e \<in> set es \<and> may_point S p e
     | Some None \<Rightarrow> \<forall>e \<in> set es. \<not> may_point S p e)"

lemma may_check:
  assumes "answers S sv" "wfe p" "getWidth p = 64" "entry_ok e" "mayBeTrue sv (getBoundsCheckPointer (fst e) p) = Some c"
  shows "c = may_point S p e"
proof -
  have e: "mo_ok (fst e)" "mo_size (fst e) < 2 ^ 32"
    using assms(4) by (simp_all add: entry_ok_def)
  note b = bounds_check [OF assms(2,3) e]
  show ?thesis
    using answersD(2) [OF assms(1) b(1,2) assms(5)] b(3) by (simp add: may_point_def)
qed

lemma one_back_list_ok:
  assumes sv: "answers S sv" and p: "wfe p" "getWidth p = 64"
  shows "list_all entry_ok es \<Longrightarrow> sorted_wrt (\<lambda>x y. before_obj (fst y) (fst x)) es \<Longrightarrow> one_ok S p es (one_back_list sv p es)"
proof (induction es)
  case Nil
  then show ?case
    by (simp add: one_ok_def)
next
  case (Cons e es)
  have e: "entry_ok e" "mo_ok (fst e)" "mo_size (fst e) < 2 ^ 32"
    using Cons.prems(1) by (simp_all add: entry_ok_def)
  note b = bounds_check [OF p e(2,3)]
  have above: "\<not> may_point S p e'"
    if "mustBeTrue sv (Uge_create False p (getBaseExpr (fst e))) = Some True" "e' \<in> set es" for e'
    using answersD(3) [OF sv b(4,5) that(1)] b(6) Cons.prems(2) that(2) inside_apart(1) by (auto simp: may_point_def)
  have "one_ok S p es (one_back_list sv p es)"
    using Cons by simp
  then show ?case
    using may_check [OF sv p e(1)] above
    by (auto simp: one_ok_def split: option.split option.splits if_splits)
qed

lemma one_forward_list_ok:
  assumes sv: "answers S sv" and p: "wfe p" "getWidth p = 64"
  shows "list_all entry_ok es \<Longrightarrow> sorted_wrt (\<lambda>x y. before_obj (fst x) (fst y)) es \<Longrightarrow> one_ok S p es (one_forward_list sv p es)"
proof (induction es)
  case Nil
  then show ?case
    by (simp add: one_ok_def)
next
  case (Cons e es)
  have e: "entry_ok e" "mo_ok (fst e)" "mo_size (fst e) < 2 ^ 32"
    using Cons.prems(1) by (simp_all add: entry_ok_def)
  note b = bounds_check [OF p e(2,3)]
  have below: "\<not> may_point S p e'"
    if "mustBeTrue sv (Ult_create False p (getBaseExpr (fst e))) = Some True" "e' \<in> set (e # es)" for e'
    using answersD(3) [OF sv b(7,8) that(1)] b(9) Cons.prems(2) that(2) inside_apart(2,4) by (fastforce simp: may_point_def)
  have "one_ok S p es (one_forward_list sv p es)"
    using Cons by simp
  then show ?case
    using may_check [OF sv p e(1)] below
    by (auto simp: one_ok_def split: option.split option.splits if_splits)
qed

text \<open>
  C32: \<open>resolveOne\<close> finds an object if there is one. For objects that do not overlap and a solver whose
  answers are right it returns; if no query fails, the object it finds is one that the pointer points
  into under some assignment, and if it finds none there is none.
\<close>

theorem resolveOne_right:
  assumes a: "layout_ok a" "sizes_ok a" and sv: "answers S sv" "S \<noteq> {}" and p: "wfe p" "getWidth p = 64"
  shows "\<exists>res. resolveOne sv p a = Some res \<and> one_ok S p (entries a) res"
proof (cases "as_const p")
  case (Some c)
  then have c: "p = ConstantExpr c" "ap_ok c" "bitWidth c = 64"
    using p by auto
  have may: "may_point S p e \<longleftrightarrow> inside (apval c) (fst e)" for e
    using sv(2) by (auto simp: may_point_def c(1))
  obtain res where "resolveOne_const c a = Some res"
    "case res of Some e \<Rightarrow> e \<in> set (entries a) \<and> inside (apval c) (fst e) | None \<Rightarrow> \<forall>e \<in> set (entries a). \<not> inside (apval c) (fst e)"
    using resolve_const [OF a c(2,3)] by blast
  then have "resolveOne sv p a = Some (Some res)" "one_ok S p (entries a) (Some res)"
    using Some may by (auto simp: resolveOne_def one_ok_def split: option.splits)
  then show ?thesis
    by blast
next
  case symbolic: None
  show ?thesis
  proof (cases "getValue sv p")
    case None
    with symbolic show ?thesis
      by (simp add: resolveOne_def one_ok_def)
  next
    case (Some cex)
    then obtain env where env: "ap_ok cex" "bitWidth cex = 64" "env \<in> S" "eval p env = apval cex"
      using answersD(1) [OF sv(1) p(1) Some] p(2) by auto
    have x: "ce_getZExtValue 64 cex = Some (apval cex)"
      using env(1,2) ap_ok_range [of cex] by (auto simp: ce_getZExtValue_def)
    obtain start es fs where s: "upper_bound MemoryObjectLT fst (hack (apval cex)) (objects a) = Some start" "entries a = rev es @ fs"
      "valid_it start" "it_root start = objects a" "elements_before (objects a) (it_stack start) = rev es" "elements_from (it_stack start) = fs"
      by (rule search_start [OF a(1), of "hack (apval cex)"])
    note parts = layout_parts [OF a s(2)]
    have d: "distinct (inorder (objects a))"
      using parts(5) by (simp add: entries_def)
    have ok: "one_ok S p es (one_back_list sv p es)" "one_ok S p fs (one_forward_list sv p fs)"
      using one_back_list_ok [OF sv(1) p parts(1,3)] one_forward_list_ok [OF sv(1) p parts(2,4)] by blast+
    have "search_one sv p (apval cex) a = Some (case one_back_list sv p es of Some None \<Rightarrow> one_forward_list sv p fs | res \<Rightarrow> res)"
      using one_back_eq [OF d s(3,4,5)] one_forward_eq [OF d s(3,4,6)]
      by (auto simp: search_one_def s(1) split: option.split)
    moreover have "one_ok S p (entries a) (case one_back_list sv p es of Some None \<Rightarrow> one_forward_list sv p fs | res \<Rightarrow> res)"
      using ok by (auto simp: one_ok_def s(2) split: option.splits)
    moreover have "one_ok S p (entries a) (Some (Some (mo, q)))"
      if "lookup_previous MemoryObjectLT fst (hack (apval cex)) (objects a) = Some (mo, q)"
        "take_bit 64 (apval cex - mo_address mo) < int (mo_size mo)" for mo q
    proof -
      have "resolveOne_const cex a = Some (Some (mo, q))"
        using that x by (simp add: resolveOne_const_def)
      then have "(mo, q) \<in> set (entries a)" "inside (apval cex) mo"
        using resolve_const [OF a env(1,2)] by auto
      then show ?thesis
        using env(3,4) by (auto simp: one_ok_def may_point_def intro!: bexI [of _ env])
    qed
    ultimately show ?thesis
      by (cases "lookup_previous MemoryObjectLT fst (hack (apval cex)) (objects a)") (auto simp: resolveOne_def symbolic Some x)
  qed
qed

section \<open>Examples\<close>

text \<open>A pointer that is a symbolic byte.\<close>

definition example_array :: array where
  "example_array = \<lparr>arr_ptr = 1, arr_name = ''k'', arr_size = 1, arr_domain = 32, arr_range = 8, constantValues = []\<rparr>"

definition example_pointer :: expr where
  "example_pointer = ZExtExpr (ReadExpr example_array UNil (const32 0)) 64"

text \<open>A solver that tries the two assignments in which the byte is 12 and 20.\<close>

definition example_envs :: "env list" where
  "example_envs = [\<lambda>a i. 12, \<lambda>a i. 20]"

definition example_solver :: timing_solver where
  "example_solver =
     \<lparr>getValue = (\<lambda>e. Some (ce_alloc (eval e (\<lambda>a i. 12)) (getWidth e))),
      mayBeTrue = (\<lambda>e. Some (list_ex (\<lambda>env. eval e env = 1) example_envs)),
      mustBeTrue = (\<lambda>e. Some (list_all (\<lambda>env. eval e env = 1) example_envs))\<rparr>"

lemma example_solver_answers: "answers (set example_envs) example_solver"
  using eval_in_width(1) getWidth_pos
  by (auto simp: answers_def example_solver_def example_envs_def ap_ok_def ce_alloc_def in_width_def take_bit_int_eq_self)

lemma example_space_ok: "layout_ok example_space" "sizes_ok example_space"
  by (simp_all add: layout_ok_def sizes_ok_def space_ok_def entries_def example_space_def example_mo_def ordered_def MemoryObjectLT_def
      mo_ok_def before_obj_def)

lemma example_pointer_ok: "wfe example_pointer" "getWidth example_pointer = 64"
  "eval example_pointer (\<lambda>a i. 12) = 12" "eval example_pointer (\<lambda>a i. 20) = 20"
  by (simp_all add: example_pointer_def example_array_def array_ok_def initial_def isConstantArray_def isSymbolicArray_def)

lemma example_may_point:
  "may_point (set example_envs) example_pointer e \<longleftrightarrow> inside 12 (fst e) \<or> inside 20 (fst e)"
  by (simp add: may_point_def example_envs_def example_pointer_ok)

theorem resolve_finds_all_witness:
  "\<exists>rl incomplete. resolve example_solver example_pointer 0 (\<lambda>mo. False) example_space = Some (rl, incomplete) \<and>
    set rl \<subseteq> {(example_mo 10 4, 0), (example_mo 20 0, 1)}"
  using resolve_finds_all [OF example_space_ok example_solver_answers _ example_pointer_ok(1,2), of 0 "\<lambda>mo. False"]
  by (fastforce simp: example_envs_def entries_def example_space_def)

theorem limit_of_one_ignored_witness:
  "resolve example_solver example_pointer 1 (\<lambda>mo. False) example_space = resolve example_solver example_pointer 0 (\<lambda>mo. False) example_space"
  by (rule limit_of_one_ignored [OF example_space_ok(1)])

theorem resolveOne_right_witness:
  "\<exists>res. resolveOne example_solver example_pointer example_space = Some res \<and> res \<noteq> Some None"
proof -
  have "may_point (set example_envs) example_pointer (example_mo 10 4, 0)"
    by (simp add: example_may_point inside_def example_mo_def)
  then show ?thesis
    using resolveOne_right [OF example_space_ok example_solver_answers _ example_pointer_ok(1,2)]
    by (fastforce simp: one_ok_def example_envs_def entries_def example_space_def)
qed

end
