(* ===== verification/ExprArrays.thy ===== *)
theory ExprArrays
  imports ExprOrder Constraints
begin

text \<open>
  Which symbolic arrays an expression reads: no smart constructor of \<open>lib/Expr/Expr.cpp\<close> and no
  simplification of \<open>lib/Expr/Constraints.cpp\<close> brings in a new one. The caches of the solvers rely on
  it, since they compare the expressions of different queries.
\<close>

section \<open>Expressions over given arrays\<close>

definition within :: "array set \<Rightarrow> expr \<Rightarrow> bool" where
  "within U e \<longleftrightarrow> expr_arrays e \<subseteq> U"

definition within_upd :: "array set \<Rightarrow> updates \<Rightarrow> bool" where
  "within_upd U u \<longleftrightarrow> node_arrays u \<subseteq> U"

lemma within_simps [simp]:
  "within U (ConstantExpr k0)"
  "within U (NotOptimizedExpr e) = within U e"
  "within U (ReadExpr a u i) = (a \<in> U \<and> within_upd U u \<and> within U i)"
  "within U (SelectExpr c t f) = (within U c \<and> within U t \<and> within U f)"
  "within U (ConcatExpr l r) = (within U l \<and> within U r)"
  "within U (ExtractExpr e off w) = within U e"
  "within U (ZExtExpr e w) = within U e"
  "within U (SExtExpr e w) = within U e"
  "within U (NotExpr e) = within U e"
  "within U (BinaryExpr k l r) = (within U l \<and> within U r)"
  "within_upd U UNil"
  "within_upd U (UpdateNode i v n) = (within U i \<and> within U v \<and> within_upd U n)"
  by (auto simp: within_def within_upd_def)

section \<open>Constructors\<close>

named_theorems within_create

lemma BCREATE_R_within:
  assumes "within U l" "within U r" "\<And>cr. within U (partialL l cr)" "\<And>cl. within U (partialR cl r)" "within U (gen l r)"
  shows "within U (BCREATE_R op partialL partialR gen l r)"
  using assms by (auto simp: BCREATE_R_def split: option.split)

lemma BCREATE_within: "within U (gen l r) \<Longrightarrow> within U (BCREATE op gen l r)"
  by (auto simp: BCREATE_def split: option.split)

lemma And_create_within [within_create]: "within U l \<Longrightarrow> within U r \<Longrightarrow> within U (And_create l r)"
  unfolding And_create_def
  by (rule BCREATE_R_within) (auto simp: AndExpr_createPartial_def AndExpr_createPartialR_def AndExpr_create_def)

lemma Or_create_within [within_create]: "within U l \<Longrightarrow> within U r \<Longrightarrow> within U (Or_create l r)"
  unfolding Or_create_def
  by (rule BCREATE_R_within) (auto simp: OrExpr_createPartial_def OrExpr_createPartialR_def OrExpr_create_def)

lemma EqExpr_create_within: "within U l \<Longrightarrow> within U r \<Longrightarrow> within U (EqExpr_create l r)"
  by (auto simp: EqExpr_create_def)

lemma EqExpr_createPartialR_within: "within U r \<Longrightarrow> within U (EqExpr_createPartialR False cl r)"
proof (induction r arbitrary: cl rule: expr.induct [where ?P2.0 = "\<lambda>_. True"])
  case (BinaryExpr rk a b)
  have zero: "within U (case as_const x of Some v \<Rightarrow> ConstantExpr (ce_Eq v c) | None \<Rightarrow> EqExpr_createPartialR False c x)"
    if "x = a \<or> x = b" for x c
    using that BinaryExpr by (auto split: option.split)
  show ?case
    using BinaryExpr zero EqExpr_create_within [of U "ConstantExpr cl" "BinaryExpr rk a b"]
    by (subst EqExpr_createPartialR.simps) (auto split: option.split intro!: And_create_within)
qed (simp_all, (subst EqExpr_createPartialR.simps; auto simp: Let_def EqExpr_create_within split: option.split)+)

lemma Eq_create_within [within_create]: "within U l \<Longrightarrow> within U r \<Longrightarrow> within U (Eq_create False l r)"
  unfolding Eq_create_def
  by (rule BCREATE_R_within) (auto simp: EqExpr_createPartial_def EqExpr_createPartialR_within EqExpr_create_within)

lemma createIsZero_within [within_create]: "within U e \<Longrightarrow> within U (createIsZero False e)"
  by (simp add: createIsZero_def Eq_create_within)

lemma Ne_create_within [within_create]: "within U l \<Longrightarrow> within U r \<Longrightarrow> within U (Ne_create False l r)"
  by (simp add: Ne_create_def Eq_create_within)

lemma XorExpr_createPartialR_within: "within U r \<Longrightarrow> within U (XorExpr_createPartialR False cl r)"
  by (auto simp: XorExpr_createPartialR_def EqExpr_createPartial_def EqExpr_createPartialR_within)

lemma Xor_create_within [within_create]: "within U l \<Longrightarrow> within U r \<Longrightarrow> within U (Xor_create False l r)"
  unfolding Xor_create_def
  by (rule BCREATE_R_within) (auto simp: XorExpr_createPartial_def XorExpr_createPartialR_within XorExpr_create_def)

lemma AddExpr_createPartialR_within:
  "within U r \<Longrightarrow> within U (AddExpr_createPartialR False cl r)"
  "within U r \<Longrightarrow> within U (SubExpr_createPartialR False cl r)"
proof (induction "False" cl r and "False" cl r rule: AddExpr_createPartialR_SubExpr_createPartialR.induct)
  case (1 cl r)
  then show ?case
    by (subst AddExpr_createPartialR.simps)
      (auto simp: XorExpr_createPartialR_within split: option.split dest!: constLeft_SomeD)
next
  case (2 cl r)
  then show ?case
    by (subst SubExpr_createPartialR.simps)
      (auto simp: XorExpr_createPartialR_within split: option.split dest!: constLeft_SomeD)
qed

lemma Add_createL_within: "within U r \<Longrightarrow> within U (Add_createL False c r)"
  and Sub_createL_within: "within U r \<Longrightarrow> within U (Sub_createL False c r)"
  and Sub_createR_within: "within U r \<Longrightarrow> within U (Sub_createR False r c)"
  by (auto simp: Add_createL_def Sub_createL_def Sub_createR_def SubExpr_createPartial_def
      AddExpr_createPartial_def AddExpr_createPartialR_within split: option.split)

lemma Add_Sub_create_within:
  assumes "within U l" "within U r"
  shows "(as_const l = None \<longrightarrow> as_const r = None \<longrightarrow> within U (AddExpr_create False l r) \<and> within U (SubExpr_create False l r)) \<and>
    within U (Add_create False l r) \<and> within U (Sub_create False l r)"
  using assms
proof (induction "size l + size r" arbitrary: l r rule: less_induct)
  case less
  then have add: "within U (Add_create False l' r')" and sub: "within U (Sub_create False l' r')"
    if "size l' + size r' < size l + size r" "within U l'" "within U r'" for l' r'
    using that by blast+
  note IH = Add_createL_within [OF add] Add_createL_within [OF sub] Sub_createL_within [OF add]
    Sub_createR_within [OF add] Sub_createR_within [OF sub]
  have 1: "within U (AddExpr_create False l r)" if "as_const l = None" "as_const r = None"
    using less.prems that
    by (subst AddExpr_create.simps) (auto simp: XorExpr_create_def intro!: IH split: option.split dest!: constLeft_SomeD)
  have 2: "within U (SubExpr_create False l r)" if "as_const l = None" "as_const r = None"
    using less.prems that
    by (subst SubExpr_create.simps) (auto simp: XorExpr_create_def intro!: IH split: option.split dest!: constLeft_SomeD)
  show ?case
    using 1 2 less.prems
    by (auto simp: Add_create.simps [of _ l r] Sub_create.simps [of _ l r] AddExpr_createPartial_def
        SubExpr_createPartial_def AddExpr_createPartialR_within Add_createL_within Sub_createL_within split: option.split)
qed

lemma Add_create_within [within_create]: "within U l \<Longrightarrow> within U r \<Longrightarrow> within U (Add_create False l r)"
  and Sub_create_within [within_create]: "within U l \<Longrightarrow> within U r \<Longrightarrow> within U (Sub_create False l r)"
  using Add_Sub_create_within by blast+

lemma Mul_create_within [within_create]: "within U l \<Longrightarrow> within U r \<Longrightarrow> within U (Mul_create l r)"
  unfolding Mul_create_def
  by (rule BCREATE_R_within)
    (auto simp: MulExpr_createPartial_def MulExpr_createPartialR_def MulExpr_create_def
      AndExpr_createPartialR_def AndExpr_createPartial_def)

lemma div_create_within [within_create]:
  assumes "within U l" "within U r"
  shows "within U (UDiv_create l r)" "within U (SDiv_create l r)" "within U (URem_create l r)" "within U (SRem_create l r)"
  unfolding UDiv_create_def SDiv_create_def URem_create_def SRem_create_def using assms
  by (auto simp: UDivExpr_create_def SDivExpr_create_def URemExpr_create_def SRemExpr_create_def intro!: BCREATE_within)

lemma shift_create_within [within_create]:
  assumes "within U l" "within U r"
  shows "within U (Shl_create False l r)" "within U (LShr_create False l r)" "within U (AShr_create l r)"
  unfolding Shl_create_def LShr_create_def AShr_create_def using assms
  by (auto simp: ShlExpr_create_def LShrExpr_create_def AShrExpr_create_def within_create intro!: BCREATE_within)

lemma cmp_create_within [within_create]:
  assumes "within U l" "within U r"
  shows "within U (Ult_create False l r)" "within U (Ule_create False l r)" "within U (Slt_create False l r)" "within U (Sle_create False l r)"
  unfolding Ult_create_def Ule_create_def Slt_create_def Sle_create_def using assms
  by (auto simp: UltExpr_create_def UleExpr_create_def SltExpr_create_def SleExpr_create_def within_create intro!: BCREATE_within)

lemma cmp_swapped_create_within [within_create]:
  assumes "within U l" "within U r"
  shows "within U (Ugt_create False l r)" "within U (Uge_create False l r)" "within U (Sgt_create False l r)" "within U (Sge_create False l r)"
  using assms by (simp_all add: Ugt_create_def Uge_create_def Sgt_create_def Sge_create_def within_create)

lemma Binary_create_within: "within U l \<Longrightarrow> within U r \<Longrightarrow> within U (Binary_create False k l r)"
  by (cases k) (simp_all add: within_create)

lemma Not_create_within: "within U e \<Longrightarrow> within U (Not_create e)"
  by (auto simp: Not_create_def split: option.split)

lemma Select_create_within: "within U c \<Longrightarrow> within U t \<Longrightarrow> within U f \<Longrightarrow> within U (Select_create False c t f)"
  by (auto simp: Select_create_def within_create split: option.split)

lemma Extract_Concat_create_within:
  "within U e \<Longrightarrow> within U (Extract_create e off w)"
  "within U l \<Longrightarrow> within U r \<Longrightarrow> within U (Concat_create l r)"
proof (induction e off w and l r rule: Extract_create_Concat_create.induct)
  case (1 e off w)
  show ?case
    by (subst Extract_create.simps) (use 1 in \<open>auto split: option.split expr.split\<close>)
next
  case (2 l r)
  show ?case
    by (subst Concat_create.simps) (use 2 in \<open>auto split: option.split\<close>)
qed

lemma cast_create_within: "within U e \<Longrightarrow> within U (ZExt_create e w)" "within U e \<Longrightarrow> within U (SExt_create e w)"
  by (auto simp: ZExt_create_def SExt_create_def Let_def Extract_Concat_create_within split: option.split)

lemma Read_scan_within: "within_upd U u \<Longrightarrow> Read_scan False ix u = Found v \<Longrightarrow> within U v"
  by (induction u rule: updates.induct [where ?P1.0 = "\<lambda>_. True"]) (auto split: option.splits if_splits)

lemma Read_create_within: "a \<in> U \<Longrightarrow> within_upd U u \<Longrightarrow> within U ix \<Longrightarrow> within U (Read_create False a u ix)"
  by (auto simp: Read_create_def split: scan.split option.split intro: Read_scan_within)

lemma rebuild_within:
  assumes "within U e" "list_all (within U) ks" "length ks = length (kids e)" "rebuild False e ks = Some e'"
  shows "within U e'"
  using assms
  by (cases e)
    (auto simp: length_Suc_conv Binary_create_within Not_create_within Select_create_within Extract_Concat_create_within
      cast_create_within Read_create_within NotOptimized_create_def)

lemma within_kids: "within U e \<Longrightarrow> k \<in> set (kids e) \<Longrightarrow> within U k"
  by (cases e) auto

section \<open>Simplification\<close>

lemma visit_within:
  assumes v: "\<And>e x. vPost v e = ChangeTo x \<Longrightarrow> within U x" "vExpr v = (\<lambda>_. DoChildren)" "vKind v = (\<lambda>_ _. Some DoChildren)"
  shows "within U e \<Longrightarrow> visit False v n e = Some e' \<Longrightarrow> within U e'"
proof (induction n arbitrary: e e')
  case (Suc n)
  have ks: "list_all (within U) ks" "length ks = length (kids e)" if "opt_list (map (visit False v n) (kids e)) = Some ks" for ks
    using that Suc.IH within_kids [OF Suc.prems(1)]
    by (auto simp: opt_list_map_Some list_all2_conv_all_nth list_all_length) (metis nth_mem)
  have "within U e1" if "opt_list (map (visit False v n) (kids e)) = Some ks" "rebuild False e ks = Some e1" for ks e1
    using rebuild_within [OF Suc.prems(1) ks [OF that(1)] that(2)] .
  with Suc show ?case
    by (auto simp: v split: if_splits action.splits option.splits dest: v(1))
qed simp

lemma equality_within: "within U c \<Longrightarrow> within U (snd (equality c))"
  by (cases c rule: equality.cases) auto

lemma simplifyExpr_within:
  assumes "list_all (within U) cs" "within U e" "simplifyExpr False n cs e = Some e'"
  shows "within U e'"
proof (cases "as_const e")
  case None
  have "within U x" if "vPost (ExprReplaceVisitor2 (map equality cs)) d = ChangeTo x" for d x
    using that assms(1) equality_within
    by (auto simp: ExprReplaceVisitor2_def list_all_iff dest!: map_of_SomeD split: option.splits) (metis snd_conv)
  then show ?thesis
    by (rule visit_within) (use None assms in \<open>auto simp: simplifyExpr_def ExprReplaceVisitor2_def default_visitor_def\<close>)
qed (use assms in \<open>auto simp: simplifyExpr_def\<close>)

end
