(* ===== verification/Solver.thy ===== *)
theory Solver
  imports ExprArrays ExprEval
begin

text \<open>
  Solvers (\<open>include/klee/Solver.h\<close>, \<open>include/klee/SolverImpl.h\<close>, \<open>lib/Solver/Solver.cpp\<close>,
  \<open>lib/Solver/SolverImpl.cpp\<close>, \<open>lib/Solver/IncompleteSolver.cpp\<close>, \<open>lib/Solver/DummySolver.cpp\<close>,
  \<open>lib/Core/TimingSolver.cpp\<close>). A solver implementation is a record of its virtual methods, which may
  change a state, such as a cache. What every implementation promises is the locale \<open>right_solver\<close>;
  the front end, the staged solver and the timing solver are proved right over every right solver.
\<close>

section \<open>Queries\<close>

record query =
  constraints :: "expr list"
  q_expr :: expr

definition withExpr :: "query \<Rightarrow> expr \<Rightarrow> query" where
  "withExpr q e = \<lparr>constraints = constraints q, q_expr = e\<rparr>"

definition withFalse :: "query \<Rightarrow> query" where
  "withFalse q = withExpr q (ConstantExpr (ce_alloc 0 1))"

definition negateExpr :: "query \<Rightarrow> query" where
  "negateExpr q = withExpr q (createIsZero False (q_expr q))"

section \<open>Answers\<close>

text \<open>A method returns \<open>true\<close> with its results, returns \<open>false\<close>, or fails an assertion; it may change the state of the solver.\<close>

datatype 'a outcome = Answered 'a | Failed | Aborted

type_synonym ('s, 'a) call = "'s \<Rightarrow> 'a outcome \<times> 's"

definition answer :: "'a \<Rightarrow> ('s, 'a) call" where
  "answer x s = (Answered x, s)"

definition fail :: "('s, 'a) call" where
  "fail s = (Failed, s)"

definition abort :: "('s, 'a) call" where
  "abort s = (Aborted, s)"

definition ask :: "('s, 'a) call \<Rightarrow> ('a \<Rightarrow> ('s, 'b) call) \<Rightarrow> ('s, 'b) call" where
  "ask f g s = (case f s of (Answered x, s') \<Rightarrow> g x s' | (Failed, s') \<Rightarrow> (Failed, s') | (Aborted, s') \<Rightarrow> (Aborted, s'))"

text \<open>
  Whatever \<open>f\<close> answers satisfies \<open>P\<close>, and the state keeps its invariant; if \<open>tot\<close> holds, \<open>f\<close> always answers.
\<close>

definition gives :: "bool \<Rightarrow> ('s \<Rightarrow> bool) \<Rightarrow> ('s, 'a) call \<Rightarrow> ('a \<Rightarrow> bool) \<Rightarrow> bool" where
  "gives tot ok f P \<longleftrightarrow>
     (\<forall>s. ok s \<longrightarrow> ok (snd (f s)) \<and> (\<forall>x. fst (f s) = Answered x \<longrightarrow> P x) \<and> (tot \<longrightarrow> (\<exists>x. fst (f s) = Answered x)))"

lemma gives_answer [simp]: "P x \<Longrightarrow> gives tot ok (answer x) P"
  by (simp add: gives_def answer_def)

lemma gives_fail [simp]: "gives tot ok fail P \<longleftrightarrow> (tot \<longrightarrow> (\<forall>s. \<not> ok s))" "gives tot ok abort P \<longleftrightarrow> (tot \<longrightarrow> (\<forall>s. \<not> ok s))"
  by (auto simp: gives_def fail_def abort_def)

lemma gives_partly: "gives True ok f P \<Longrightarrow> gives tot ok f P"
  by (simp add: gives_def)

lemma gives_ask:
  assumes "gives tot ok f P" "\<And>x. P x \<Longrightarrow> gives tot ok (g x) Q"
  shows "gives tot ok (ask f g) Q"
  unfolding gives_def
proof (intro allI impI)
  fix s
  assume s: "ok s"
  obtain r s' where f: "f s = (r, s')"
    by fastforce
  with assms(1) s have "ok s'" "\<And>x. r = Answered x \<Longrightarrow> P x" "tot \<Longrightarrow> \<exists>x. r = Answered x"
    by (auto simp: gives_def dest: spec [of _ s])
  with assms(2) f show "ok (snd (ask f g s)) \<and> (\<forall>x. fst (ask f g s) = Answered x \<longrightarrow> Q x) \<and> (tot \<longrightarrow> (\<exists>x. fst (ask f g s) = Answered x))"
    by (cases r) (auto simp: ask_def gives_def)
qed

lemma gives_yields: "gives True ok f P \<Longrightarrow> ok s \<Longrightarrow> \<exists>x s'. f s = (Answered x, s') \<and> ok s' \<and> P x"
  by (cases "f s") (fastforce simp: gives_def)

lemma gives_weaken: "gives tot ok f P \<Longrightarrow> (\<And>x. P x \<Longrightarrow> Q x) \<Longrightarrow> gives tot ok f Q"
  by (simp add: gives_def)

lemma gives_if: "(b \<Longrightarrow> gives tot ok f P) \<Longrightarrow> (\<not> b \<Longrightarrow> gives tot ok g P) \<Longrightarrow> gives tot ok (if b then f else g) P"
  by simp

section \<open>Implementations\<close>

datatype validity = VTrue | VFalse | VUnknown

text \<open>The values of \<open>computeInitialValues\<close> are the bytes of the arrays, with whether there is a solution.\<close>

record 's impl =
  computeTruth :: "query \<Rightarrow> ('s, bool) call"
  computeValidity :: "query \<Rightarrow> ('s, validity) call"
  computeValue :: "query \<Rightarrow> ('s, expr) call"
  computeInitialValues :: "query \<Rightarrow> array list \<Rightarrow> ('s, int list list \<times> bool) call"

text \<open>\<open>SolverImpl::computeValidity\<close>, which implementations may override.\<close>

definition default_validity :: "(query \<Rightarrow> ('s, bool) call) \<Rightarrow> query \<Rightarrow> ('s, validity) call" where
  "default_validity truth q =
     ask (truth q) (\<lambda>isTrue.
       if isTrue then answer VTrue
       else ask (truth (negateExpr q)) (\<lambda>isFalse. answer (if isFalse then VFalse else VUnknown)))"

definition dummy_solver :: "'s impl" where
  "dummy_solver = \<lparr>computeTruth = \<lambda>q. fail, computeValidity = \<lambda>q. fail, computeValue = \<lambda>q. fail, computeInitialValues = \<lambda>q objs. fail\<rparr>"

section \<open>The front end\<close>

definition solver_evaluate :: "'s impl \<Rightarrow> query \<Rightarrow> ('s, validity) call" where
  "solver_evaluate I q =
     (if getWidth (q_expr q) \<noteq> 1 then abort
      else case as_const (q_expr q) of
          Some c \<Rightarrow> answer (if ce_isTrue c then VTrue else VFalse)
        | None \<Rightarrow> computeValidity I q)"

definition solver_mustBeTrue :: "'s impl \<Rightarrow> query \<Rightarrow> ('s, bool) call" where
  "solver_mustBeTrue I q =
     (if getWidth (q_expr q) \<noteq> 1 then abort
      else case as_const (q_expr q) of Some c \<Rightarrow> answer (ce_isTrue c) | None \<Rightarrow> computeTruth I q)"

definition solver_mustBeFalse :: "'s impl \<Rightarrow> query \<Rightarrow> ('s, bool) call" where
  "solver_mustBeFalse I q = solver_mustBeTrue I (negateExpr q)"

definition solver_mayBeTrue :: "'s impl \<Rightarrow> query \<Rightarrow> ('s, bool) call" where
  "solver_mayBeTrue I q = ask (solver_mustBeFalse I q) (\<lambda>res. answer (\<not> res))"

definition solver_mayBeFalse :: "'s impl \<Rightarrow> query \<Rightarrow> ('s, bool) call" where
  "solver_mayBeFalse I q = ask (solver_mustBeTrue I q) (\<lambda>res. answer (\<not> res))"

definition solver_getValue :: "'s impl \<Rightarrow> query \<Rightarrow> ('s, apint) call" where
  "solver_getValue I q =
     (case as_const (q_expr q) of
        Some c \<Rightarrow> answer c
      | None \<Rightarrow> ask (computeValue I q) (\<lambda>tmp. case as_const tmp of Some c \<Rightarrow> answer c | None \<Rightarrow> abort))"

text \<open>A failing implementation leaves \<open>hasSolution\<close> unset, and the code reads it; \<open>false\<close> is returned whatever it holds.\<close>

definition solver_getInitialValues :: "'s impl \<Rightarrow> query \<Rightarrow> array list \<Rightarrow> ('s, int list list) call" where
  "solver_getInitialValues I q objs = ask (computeInitialValues I q objs) (\<lambda>(values, hasSolution). if hasSolution then answer values else fail)"

text \<open>The binary searches of \<open>solver_getRange\<close>; a query that fails fails an assertion.\<close>

definition insist :: "('s, 'a) call \<Rightarrow> ('s, 'a) call" where
  "insist f s = (case f s of (Failed, s') \<Rightarrow> (Aborted, s') | res \<Rightarrow> res)"

function binary_search :: "(nat \<Rightarrow> ('s, bool) call) \<Rightarrow> nat \<Rightarrow> nat \<Rightarrow> ('s, nat) call" where
  "binary_search query lo hi =
     (if lo < hi then
        (let mid = lo + (hi - lo) div 2
         in ask (insist (query mid)) (\<lambda>res. if res then binary_search query lo mid else binary_search query (mid + 1) hi))
      else answer lo)"
  by auto

termination
  by (relation "measure (\<lambda>(query, lo, hi). hi - lo)") auto

declare binary_search.simps [simp del]

definition maxValueOfNBits :: "nat \<Rightarrow> nat" where
  "maxValueOfNBits n = 2 ^ n - 1"

definition const_of :: "nat \<Rightarrow> nat \<Rightarrow> expr" where
  "const_of v w = ConstantExpr (ce_alloc (int v) w)"

text \<open>The smallest number of bits that holds every value, then the smallest and the largest value.\<close>

definition range_search :: "'s impl \<Rightarrow> query \<Rightarrow> ('s, nat \<times> nat) call" where
  "range_search I q =
     (let e = q_expr q; w = getWidth e
      in ask (binary_search (\<lambda>mid. solver_mustBeTrue I (withExpr q (Eq_create False (LShr_create False e (const_of mid w)) (const_of 0 w)))) 0 w) (\<lambda>bits.
         if 64 < bits then abort
         else ask (insist (solver_mayBeTrue I (withExpr q (Eq_create False e (const_of 0 w))))) (\<lambda>zero.
         ask (if zero then answer 0
              else binary_search (\<lambda>mid. solver_mayBeTrue I (withExpr q (Ule_create False e (const_of mid w)))) 0 (maxValueOfNBits bits)) (\<lambda>min.
         ask (binary_search (\<lambda>mid. solver_mustBeTrue I (withExpr q (Ule_create False e (const_of mid w)))) min (maxValueOfNBits bits)) (\<lambda>max.
         answer (min, max))))))"

definition solver_getRange :: "'s impl \<Rightarrow> query \<Rightarrow> ('s, expr \<times> expr) call" where
  "solver_getRange I q =
     (let e = q_expr q; w = getWidth e
      in ask (if w = 1 then
                ask (insist (solver_evaluate I q)) (\<lambda>result.
                  answer (case result of VTrue \<Rightarrow> (1, 1) | VFalse \<Rightarrow> (0, 0) | VUnknown \<Rightarrow> (0, 1)))
              else case as_const e of
                  Some c \<Rightarrow> (case ce_getZExtValue 64 c of Some x \<Rightarrow> answer (nat x, nat x) | None \<Rightarrow> abort)
                | None \<Rightarrow> range_search I q)
           (\<lambda>(min, max). answer (const_of min w, const_of max w)))"

section \<open>Incomplete solvers\<close>

datatype partial_validity = MustBeTrue | MustBeFalse | MayBeTrue | MayBeFalse | TrueOrFalse | PNone

fun negatePartialValidity :: "partial_validity \<Rightarrow> partial_validity option" where
  "negatePartialValidity MustBeTrue = Some MustBeFalse"
| "negatePartialValidity MustBeFalse = Some MustBeTrue"
| "negatePartialValidity MayBeTrue = Some MayBeFalse"
| "negatePartialValidity MayBeFalse = Some MayBeTrue"
| "negatePartialValidity TrueOrFalse = Some TrueOrFalse"
| "negatePartialValidity PNone = None"

record 's incomplete =
  partialTruth :: "query \<Rightarrow> ('s, partial_validity) call"
  partialValidity :: "query \<Rightarrow> ('s, partial_validity) call"
  partialValue :: "query \<Rightarrow> ('s, expr) call"
  partialInitialValues :: "query \<Rightarrow> array list \<Rightarrow> ('s, int list list \<times> bool) call"

text \<open>\<open>IncompleteSolver::computeValidity\<close>.\<close>

definition default_partial_validity :: "(query \<Rightarrow> ('s, partial_validity) call) \<Rightarrow> query \<Rightarrow> ('s, partial_validity) call" where
  "default_partial_validity truth q =
     ask (truth q) (\<lambda>trueResult.
       if trueResult = MustBeTrue then answer MustBeTrue
       else ask (truth (negateExpr q)) (\<lambda>falseResult.
         if falseResult = MustBeTrue then answer MustBeFalse
         else if trueResult \<noteq> PNone \<and> falseResult \<noteq> PNone then answer TrueOrFalse
         else if trueResult \<noteq> PNone then answer MayBeFalse
         else if falseResult \<noteq> PNone then answer MayBeTrue
         else answer PNone))"

text \<open>\<open>StagedSolverImpl\<close>. The two solvers have states of their own.\<close>

definition on_first :: "('s, 'a) call \<Rightarrow> ('s \<times> 't, 'a) call" where
  "on_first f = (\<lambda>(s, t). case f s of (r, s') \<Rightarrow> (r, s', t))"

definition on_second :: "('t, 'a) call \<Rightarrow> ('s \<times> 't, 'a) call" where
  "on_second f = (\<lambda>(s, t). case f t of (r, t') \<Rightarrow> (r, s, t'))"

definition or_else :: "('s, 'a) call \<Rightarrow> ('s, 'a) call \<Rightarrow> ('s, 'a) call" where
  "or_else f g s = (case f s of (Failed, s') \<Rightarrow> g s' | res \<Rightarrow> res)"

definition staged_truth :: "'s incomplete \<Rightarrow> 't impl \<Rightarrow> query \<Rightarrow> ('s \<times> 't, bool) call" where
  "staged_truth P I q =
     ask (on_first (partialTruth P q)) (\<lambda>trueResult.
       if trueResult \<noteq> PNone then answer (trueResult = MustBeTrue) else on_second (computeTruth I q))"

definition staged_validity :: "'s incomplete \<Rightarrow> 't impl \<Rightarrow> query \<Rightarrow> ('s \<times> 't, validity) call" where
  "staged_validity P I q =
     ask (on_first (partialValidity P q)) (\<lambda>pv.
       case pv of
         MustBeTrue \<Rightarrow> answer VTrue
       | MustBeFalse \<Rightarrow> answer VFalse
       | TrueOrFalse \<Rightarrow> answer VUnknown
       | MayBeTrue \<Rightarrow> ask (on_second (computeTruth I q)) (\<lambda>tmp. answer (if tmp then VTrue else VUnknown))
       | MayBeFalse \<Rightarrow> ask (on_second (computeTruth I (negateExpr q))) (\<lambda>tmp. answer (if tmp then VFalse else VUnknown))
       | PNone \<Rightarrow> on_second (computeValidity I q))"

definition staged_solver :: "'s incomplete \<Rightarrow> 't impl \<Rightarrow> ('s \<times> 't) impl" where
  "staged_solver P I =
     \<lparr>computeTruth = staged_truth P I, computeValidity = staged_validity P I,
      computeValue = (\<lambda>q. or_else (on_first (partialValue P q)) (on_second (computeValue I q))),
      computeInitialValues = (\<lambda>q objs. or_else (on_first (partialInitialValues P q objs)) (on_second (computeInitialValues I q objs)))\<rparr>"

section \<open>The timing solver\<close>

text \<open>\<open>n\<close> is the fuel of \<open>simplifyExpr\<close>; \<open>simp\<close> is \<open>simplifyExprs\<close>. The costs of queries are left out.\<close>

definition simplified :: "bool \<Rightarrow> nat \<Rightarrow> expr list \<Rightarrow> expr \<Rightarrow> (expr \<Rightarrow> ('s, 'a) call) \<Rightarrow> ('s, 'a) call" where
  "simplified simp n cs e f = (if simp then case simplifyExpr False n cs e of None \<Rightarrow> abort | Some e' \<Rightarrow> f e' else f e)"

definition ts_evaluate :: "bool \<Rightarrow> nat \<Rightarrow> 's impl \<Rightarrow> expr list \<Rightarrow> expr \<Rightarrow> ('s, validity) call" where
  "ts_evaluate simp n I cs e =
     (case as_const e of
        Some c \<Rightarrow> answer (if ce_isTrue c then VTrue else VFalse)
      | None \<Rightarrow> simplified simp n cs e (\<lambda>e. solver_evaluate I \<lparr>constraints = cs, q_expr = e\<rparr>))"

definition ts_mustBeTrue :: "bool \<Rightarrow> nat \<Rightarrow> 's impl \<Rightarrow> expr list \<Rightarrow> expr \<Rightarrow> ('s, bool) call" where
  "ts_mustBeTrue simp n I cs e =
     (case as_const e of
        Some c \<Rightarrow> answer (ce_isTrue c)
      | None \<Rightarrow> simplified simp n cs e (\<lambda>e. solver_mustBeTrue I \<lparr>constraints = cs, q_expr = e\<rparr>))"

definition ts_mustBeFalse :: "bool \<Rightarrow> nat \<Rightarrow> 's impl \<Rightarrow> expr list \<Rightarrow> expr \<Rightarrow> ('s, bool) call" where
  "ts_mustBeFalse simp n I cs e = ts_mustBeTrue simp n I cs (createIsZero False e)"

definition ts_mayBeTrue :: "bool \<Rightarrow> nat \<Rightarrow> 's impl \<Rightarrow> expr list \<Rightarrow> expr \<Rightarrow> ('s, bool) call" where
  "ts_mayBeTrue simp n I cs e = ask (ts_mustBeFalse simp n I cs e) (\<lambda>res. answer (\<not> res))"

definition ts_mayBeFalse :: "bool \<Rightarrow> nat \<Rightarrow> 's impl \<Rightarrow> expr list \<Rightarrow> expr \<Rightarrow> ('s, bool) call" where
  "ts_mayBeFalse simp n I cs e = ask (ts_mustBeTrue simp n I cs e) (\<lambda>res. answer (\<not> res))"

definition ts_getValue :: "bool \<Rightarrow> nat \<Rightarrow> 's impl \<Rightarrow> expr list \<Rightarrow> expr \<Rightarrow> ('s, apint) call" where
  "ts_getValue simp n I cs e =
     (case as_const e of
        Some c \<Rightarrow> answer c
      | None \<Rightarrow> simplified simp n cs e (\<lambda>e. solver_getValue I \<lparr>constraints = cs, q_expr = e\<rparr>))"

definition ts_getInitialValues :: "'s impl \<Rightarrow> expr list \<Rightarrow> array list \<Rightarrow> ('s, int list list) call" where
  "ts_getInitialValues I cs objs =
     (if objs = [] then answer []
      else solver_getInitialValues I \<lparr>constraints = cs, q_expr = ConstantExpr (ce_alloc 0 1)\<rparr> objs)"

definition ts_getRange :: "'s impl \<Rightarrow> expr list \<Rightarrow> expr \<Rightarrow> ('s, expr \<times> expr) call" where
  "ts_getRange I cs e = solver_getRange I \<lparr>constraints = cs, q_expr = e\<rparr>"

section \<open>What an answer means\<close>

definition sols :: "query \<Rightarrow> env set" where
  "sols q = {env. holds (constraints q) env}"

definition typed_query :: "array set \<Rightarrow> query \<Rightarrow> bool" where
  "typed_query U q \<longleftrightarrow> list_all constraint_ok (constraints q) \<and> list_all (within U) (constraints q) \<and> wfe (q_expr q) \<and> within U (q_expr q)"

lemma within_created [simp]:
  "within U (const_of k w)" "within U e \<Longrightarrow> within U (createIsZero False e)"
  "within U e \<Longrightarrow> within U e' \<Longrightarrow> within U (Eq_create False e e')"
  "within U e \<Longrightarrow> within U e' \<Longrightarrow> within U (Ule_create False e e')"
  "within U e \<Longrightarrow> within U e' \<Longrightarrow> within U (LShr_create False e e')"
  by (simp_all add: const_of_def within_create)

text \<open>The constraints of a query have a solution; a query of the width 1 asks whether it always holds.\<close>

definition good_query :: "array set \<Rightarrow> query \<Rightarrow> bool" where
  "good_query U q \<longleftrightarrow> typed_query U q \<and> sols q \<noteq> {}"

definition bool_query :: "array set \<Rightarrow> query \<Rightarrow> bool" where
  "bool_query U q \<longleftrightarrow> good_query U q \<and> getWidth (q_expr q) = 1"

definition valid :: "query \<Rightarrow> bool" where
  "valid q \<longleftrightarrow> (\<forall>env \<in> sols q. eval (q_expr q) env = 1)"

definition validity_of :: "query \<Rightarrow> validity" where
  "validity_of q = (if valid q then VTrue else if \<forall>env \<in> sols q. eval (q_expr q) env = 0 then VFalse else VUnknown)"

definition value_of :: "query \<Rightarrow> apint \<Rightarrow> bool" where
  "value_of q c \<longleftrightarrow> ap_ok c \<and> bitWidth c = getWidth (q_expr q) \<and> (\<exists>env \<in> sols q. eval (q_expr q) env = apval c)"

text \<open>The smallest and the largest value.\<close>

definition range_of :: "query \<Rightarrow> apint \<Rightarrow> apint \<Rightarrow> bool" where
  "range_of q a b \<longleftrightarrow> value_of q a \<and> value_of q b \<and> (\<forall>env \<in> sols q. apval a \<le> eval (q_expr q) env \<and> eval (q_expr q) env \<le> apval b)"

text \<open>
  Initial values are the bytes, in some solution of the constraints and the negated expression, of the
  arrays asked for; there are some exactly if there is a solution.
\<close>

definition counterexamples :: "query \<Rightarrow> env set" where
  "counterexamples q = {env \<in> sols q. eval (q_expr q) env = 0}"

definition bytes_of :: "env \<Rightarrow> array \<Rightarrow> int list" where
  "bytes_of env a = map (\<lambda>i. take_bit (arr_range a) (env a i)) [0..<arr_size a]"

definition solves :: "query \<Rightarrow> array list \<Rightarrow> int list list \<times> bool \<Rightarrow> bool" where
  "solves q objs = (\<lambda>(values, hasSolution).
     hasSolution = (counterexamples q \<noteq> {}) \<and>
     (hasSolution \<longrightarrow> (\<exists>env \<in> counterexamples q. values = map (bytes_of env) objs)))"

text \<open>What every implementation promises. The code expects no constants in queries; here they are allowed.\<close>

locale right_solver =
  fixes tot :: bool and I :: "'s impl" and ok :: "'s \<Rightarrow> bool" and U :: "array set"
  assumes truth: "bool_query U q \<Longrightarrow> gives tot ok (computeTruth I q) (\<lambda>b. b = valid q)"
    and validity: "bool_query U q \<Longrightarrow> gives tot ok (computeValidity I q) (\<lambda>v. v = validity_of q)"
    and getting_value: "good_query U q \<Longrightarrow> gives tot ok (computeValue I q) (\<lambda>e. \<exists>c. e = ConstantExpr c \<and> value_of q c)"
    and initial_values: "typed_query U q \<Longrightarrow> getWidth (q_expr q) = 1 \<Longrightarrow> gives tot ok (computeInitialValues I q objs) (solves q objs)"

lemma query_simps [simp]:
  "constraints (withExpr q e) = constraints q" "q_expr (withExpr q e) = e" "sols (withExpr q e) = sols q"
  "constraints (negateExpr q) = constraints q" "q_expr (negateExpr q) = createIsZero False (q_expr q)" "sols (negateExpr q) = sols q"
  by (simp_all add: withExpr_def negateExpr_def sols_def)

lemma good_withExpr: "good_query U q \<Longrightarrow> wfe e \<Longrightarrow> within U e \<Longrightarrow> good_query U (withExpr q e)"
  by (simp add: good_query_def typed_query_def)

lemma bool_withExpr: "good_query U q \<Longrightarrow> wfe e \<Longrightarrow> within U e \<Longrightarrow> getWidth e = 1 \<Longrightarrow> bool_query U (withExpr q e)"
  by (simp add: bool_query_def good_withExpr)

lemma good_query_wfe: "good_query U q \<Longrightarrow> wfe (q_expr q)" "good_query U q \<Longrightarrow> within U (q_expr q)"
  by (simp_all add: good_query_def typed_query_def)

lemma isZero_value:
  assumes "wfe e"
  shows "wfe (createIsZero False e)" "getWidth (createIsZero False e) = 1" "eval (createIsZero False e) env = of_bool (eval e env = 0)"
proof -
  have "wfe (BinaryExpr Eq e (ConstantExpr (ce_alloc 0 (getWidth e))))"
    using assms by (simp add: ap_ok_def ce_alloc_def getWidth_pos)
  from eqvD [OF createIsZero_ok this] show "wfe (createIsZero False e)" "getWidth (createIsZero False e) = 1"
    "eval (createIsZero False e) env = of_bool (eval e env = 0)"
    by simp_all
qed

lemma negate_bool:
  assumes "bool_query U q"
  shows "bool_query U (negateExpr q)" "valid (negateExpr q) \<longleftrightarrow> (\<forall>env \<in> sols q. eval (q_expr q) env = 0)"
  using isZero_value [OF good_query_wfe(1), of U q] assms
  by (auto simp: bool_query_def good_query_def typed_query_def valid_def)

lemma validity_simps:
  assumes "bool_query U q"
  shows "valid q \<Longrightarrow> \<not> valid (negateExpr q)" "validity_of q = (if valid q then VTrue else if valid (negateExpr q) then VFalse else VUnknown)"
  using assms negate_bool(2) [OF assms] by (auto simp: validity_of_def valid_def bool_query_def good_query_def)

lemma bool_0_1: "bool_query U q \<Longrightarrow> eval (q_expr q) env = 0 \<or> eval (q_expr q) env = 1"
  using eval_Bool [of "q_expr q" env] by (auto simp: bool_query_def good_query_def typed_query_def)

lemma const_query:
  assumes "bool_query U q" "as_const (q_expr q) = Some c"
  shows "valid q = ce_isTrue c" "validity_of q = (if ce_isTrue c then VTrue else VFalse)"
proof -
  have "q_expr q = ConstantExpr c"
    using assms(2) by auto
  then show "valid q = ce_isTrue c" "validity_of q = (if ce_isTrue c then VTrue else VFalse)"
    using assms(1) bool_0_1 [OF assms(1), of undefined]
    by (auto simp: valid_def validity_of_def bool_query_def good_query_def ce_isTrue_def)
qed

lemma default_validity_right:
  assumes q: "bool_query U q" and t: "\<And>q'. bool_query U q' \<Longrightarrow> gives tot ok (truth q') (\<lambda>b. b = valid q')"
  shows "gives tot ok (default_validity truth q) (\<lambda>v. v = validity_of q)"
  unfolding default_validity_def validity_simps(2) [OF q]
  by (intro gives_ask [OF t [OF q]] gives_if gives_answer gives_ask [OF t [OF negate_bool(1) [OF q]]]) auto

lemma gives_insist: "gives tot ok f P \<Longrightarrow> gives tot ok (insist f) P"
  by (fastforce simp: gives_def insist_def split: prod.splits outcome.splits)

text \<open>A binary search finds the first number from which on the answer is yes.\<close>

lemma binary_search_right:
  assumes "\<And>m. m < hi \<Longrightarrow> gives tot ok (query m) (\<lambda>b. b = p m)" "\<And>m m'. p m \<Longrightarrow> m \<le> m' \<Longrightarrow> p m'" "p hi" "lo \<le> hi"
  shows "gives tot ok (binary_search query lo hi) (\<lambda>k. lo \<le> k \<and> k \<le> hi \<and> p k \<and> (\<forall>m. lo \<le> m \<and> m < k \<longrightarrow> \<not> p m))"
  using assms
proof (induction query lo hi rule: binary_search.induct)
  case (1 query lo hi)
  show ?case
  proof (cases "lo < hi")
    case True
    define mid where "mid = lo + (hi - lo) div 2"
    have mid: "lo \<le> mid" "mid < hi"
      using True by (auto simp: mid_def)
    let ?found = "\<lambda>lo hi k. lo \<le> k \<and> k \<le> hi \<and> p k \<and> (\<forall>m. lo \<le> m \<and> m < k \<longrightarrow> \<not> p m)"
    have low: "gives tot ok (binary_search query lo mid) (?found lo mid)" if "p mid"
      by (rule "1.IH"(1) [OF True mid_def TrueI]) (use mid that "1.prems"(1,2) in auto)
    have high: "gives tot ok (binary_search query (mid + 1) hi) (?found (mid + 1) hi)"
      by (rule "1.IH"(2) [OF True mid_def not_False_eq_True [THEN iffD2, OF TrueI]]) (use mid "1.prems" in auto)
    have "gives tot ok (binary_search query lo mid) (?found lo hi)" if "p mid"
      using mid by (intro gives_weaken [OF low [OF that]]) auto
    moreover have "\<not> p m" if "\<not> p mid" "m \<le> mid" for m
      using "1.prems"(2) [of m mid] that by auto
    then have "gives tot ok (binary_search query (mid + 1) hi) (?found lo hi)" if "\<not> p mid"
      using that mid by (intro gives_weaken [OF high]) (auto simp: not_le [symmetric], metis Suc_leI not_le)
    ultimately show ?thesis
      using True mid "1.prems"(1) [of mid]
      by (subst binary_search.simps) (auto simp: Let_def mid_def [symmetric] intro!: gives_ask [OF gives_insist])
  next
    case False
    with 1 show ?thesis
      by (subst binary_search.simps) simp
  qed
qed

lemma const_of_ok:
  assumes "int k < 2 ^ w"
  shows "0 < w \<Longrightarrow> wfe (const_of k w)" "getWidth (const_of k w) = w" "eval (const_of k w) env = int k"
  using assms by (simp_all add: const_of_def ce_alloc_def ap_ok_def take_bit_int_eq_self in_width_def)

lemma const_range:
  assumes "good_query U q" "\<exists>env \<in> sols q. eval (q_expr q) env = int k"
  shows "value_of q (ce_alloc (int k) (getWidth (q_expr q)))" "apval (ce_alloc (int k) (getWidth (q_expr q))) = int k"
proof -
  obtain env where env: "env \<in> sols q" "eval (q_expr q) env = int k"
    using assms(2) by blast
  have w: "wfe (q_expr q)"
    using assms(1) by (rule good_query_wfe(1))
  then have "in_width (getWidth (q_expr q)) (int k)"
    using eval_in_width(1) [OF w, of env] env(2) by simp
  with getWidth_pos [OF w] env show "value_of q (ce_alloc (int k) (getWidth (q_expr q)))" "apval (ce_alloc (int k) (getWidth (q_expr q))) = int k"
    by (auto simp: value_of_def ap_ok_def ce_alloc_def)
qed

context right_solver
begin

lemma mustBeTrue_right: "bool_query U q \<Longrightarrow> gives tot ok (solver_mustBeTrue I q) (\<lambda>b. b = valid q)"
  using truth [of q] const_query(1) [of U q] by (auto simp: solver_mustBeTrue_def bool_query_def split: option.split)

lemma solver_evaluate_right: "bool_query U q \<Longrightarrow> gives tot ok (solver_evaluate I q) (\<lambda>v. v = validity_of q)"
  using validity [of q] const_query(2) [of U q] by (auto simp: solver_evaluate_def bool_query_def split: option.split)

lemma mustBeFalse_right: "bool_query U q \<Longrightarrow> gives tot ok (solver_mustBeFalse I q) (\<lambda>b. b = (\<forall>env \<in> sols q. eval (q_expr q) env = 0))"
  using mustBeTrue_right [OF negate_bool(1)] negate_bool(2) by (simp add: solver_mustBeFalse_def)

lemma mayBeTrue_right: "bool_query U q \<Longrightarrow> gives tot ok (solver_mayBeTrue I q) (\<lambda>b. b = (\<exists>env \<in> sols q. eval (q_expr q) env = 1))"
  unfolding solver_mayBeTrue_def using bool_0_1 by (fastforce intro!: gives_ask [OF mustBeFalse_right] gives_answer)

lemma mayBeFalse_right: "bool_query U q \<Longrightarrow> gives tot ok (solver_mayBeFalse I q) (\<lambda>b. b = (\<exists>env \<in> sols q. eval (q_expr q) env = 0))"
  unfolding solver_mayBeFalse_def using bool_0_1 by (fastforce intro!: gives_ask [OF mustBeTrue_right] gives_answer simp: valid_def)

lemma getValue_right: "good_query U q \<Longrightarrow> gives tot ok (solver_getValue I q) (value_of q)"
proof (cases "as_const (q_expr q)")
  case (Some c)
  assume q: "good_query U q"
  then have "value_of q c"
    using Some by (auto simp: value_of_def good_query_def typed_query_def)
  then show ?thesis
    by (simp add: solver_getValue_def Some)
next
  case None
  assume q: "good_query U q"
  show ?thesis
    unfolding solver_getValue_def None by (simp, rule gives_ask [OF getting_value [OF q]]) auto
qed

lemma getInitialValues_right:
  assumes "typed_query U q" "getWidth (q_expr q) = 1" "tot \<Longrightarrow> counterexamples q \<noteq> {}"
  shows "gives tot ok (solver_getInitialValues I q objs) (\<lambda>values. solves q objs (values, True))"
  unfolding solver_getInitialValues_def
proof (rule gives_ask [OF initial_values [OF assms(1,2)]])
  fix r
  assume r: "solves q objs r"
  obtain bytes hasSolution where "r = (bytes, hasSolution)"
    by fastforce
  with r assms(3) show "gives tot ok (case r of (values, hasSolution) \<Rightarrow> if hasSolution then answer values else fail) (\<lambda>values. solves q objs (values, True))"
    by (cases hasSolution) (auto simp: solves_def)
qed

lemma compare_right:
  assumes q: "good_query U q" and e: "e = q_expr q" "w = getWidth e" and k: "int k < 2 ^ w"
  shows "gives tot ok (solver_mayBeTrue I (withExpr q (Eq_create False e (const_of k w)))) (\<lambda>b. b = (\<exists>env \<in> sols q. eval e env = int k))"
    "gives tot ok (solver_mayBeTrue I (withExpr q (Ule_create False e (const_of k w)))) (\<lambda>b. b = (\<exists>env \<in> sols q. eval e env \<le> int k))"
    "gives tot ok (solver_mustBeTrue I (withExpr q (Ule_create False e (const_of k w)))) (\<lambda>b. b = (\<forall>env \<in> sols q. eval e env \<le> int k))"
proof -
  have c: "wfe (const_of k w)" "getWidth (const_of k w) = w" "eval (const_of k w) env = int k" for env
    using const_of_ok [OF k] good_query_wfe(1) [OF q] getWidth_pos e by auto
  have r: "eqv (Eq_create False e (const_of k w)) (BinaryExpr Eq e (const_of k w))" "eqv (Ule_create False e (const_of k w)) (BinaryExpr Ule e (const_of k w))"
    by (simp_all add: create_ok)
  have wf: "wfe (BinaryExpr kd e (const_of k w))" for kd
    using good_query_wfe(1) [OF q] c e by simp
  note s1 = eqvD [OF r(1) wf] and s2 = eqvD [OF r(2) wf]
  have b: "bool_query U (withExpr q (Eq_create False e (const_of k w)))" "bool_query U (withExpr q (Ule_create False e (const_of k w)))"
    using s1 s2 e good_query_wfe(2) [OF q] by (auto intro!: bool_withExpr [OF q])
  show "gives tot ok (solver_mayBeTrue I (withExpr q (Eq_create False e (const_of k w)))) (\<lambda>b. b = (\<exists>env \<in> sols q. eval e env = int k))"
    by (rule gives_weaken [OF mayBeTrue_right [OF b(1)]]) (simp add: s1 c)
  show "gives tot ok (solver_mayBeTrue I (withExpr q (Ule_create False e (const_of k w)))) (\<lambda>b. b = (\<exists>env \<in> sols q. eval e env \<le> int k))"
    by (rule gives_weaken [OF mayBeTrue_right [OF b(2)]]) (simp add: s2 c)
  show "gives tot ok (solver_mustBeTrue I (withExpr q (Ule_create False e (const_of k w)))) (\<lambda>b. b = (\<forall>env \<in> sols q. eval e env \<le> int k))"
    by (rule gives_weaken [OF mustBeTrue_right [OF b(2)]]) (simp add: s2 c valid_def)
qed

lemma bits_right:
  assumes q: "good_query U q" and e: "e = q_expr q" "w = getWidth e" and k: "k < w"
  shows "gives tot ok (solver_mustBeTrue I (withExpr q (Eq_create False (LShr_create False e (const_of k w)) (const_of 0 w)))) (\<lambda>b. b = (\<forall>env \<in> sols q. eval e env < 2 ^ k))"
proof -
  have "k < 2 ^ w"
    using k less_exp [of w] by linarith
  then have "int k < 2 ^ w"
    using of_nat_less_iff [where 'a = int, of k "2 ^ w"] by simp
  then have c: "wfe (const_of k w)" "getWidth (const_of k w) = w" "eval (const_of k w) env = int k"
    "wfe (const_of 0 w)" "getWidth (const_of 0 w) = w" "eval (const_of 0 w) env = 0" for env
    using const_of_ok [of k w] const_of_ok [of 0 w] k by auto
  let ?s = "BinaryExpr LShr e (const_of k w)"
  have r: "eqv (Eq_create False (LShr_create False e (const_of k w)) (const_of 0 w)) (BinaryExpr Eq ?s (const_of 0 w))"
    by (rule eqv_trans [OF Eq_create_ok eqv_BinaryExpr]) (simp_all add: create_ok)
  have wf: "wfe (BinaryExpr Eq ?s (const_of 0 w))"
    using good_query_wfe(1) [OF q] c e by simp
  note s = eqvD [OF r wf]
  have b: "bool_query U (withExpr q (Eq_create False (LShr_create False e (const_of k w)) (const_of 0 w)))"
    using s e good_query_wfe(2) [OF q] by (auto intro!: bool_withExpr [OF q])
  have "(eval ?s env = 0) = (eval e env < 2 ^ k)" for env
    using eval_in_width(1) [of e env] good_query_wfe(1) [OF q] k c e
    by (auto simp: in_width_def drop_bit_eq_div zdiv_eq_0_iff)
  then show ?thesis
    by (intro gives_weaken [OF mustBeTrue_right [OF b]]) (simp add: valid_def s c)
qed

lemma n_bits_bound: "k \<le> maxValueOfNBits bits \<Longrightarrow> bits \<le> w \<Longrightarrow> int k < 2 ^ w"
proof -
  assume "k \<le> maxValueOfNBits bits" "bits \<le> w"
  then have "k < 2 ^ bits" "(2 :: nat) ^ bits \<le> 2 ^ w"
    using less_le_trans [of "2 ^ bits - 1" "2 ^ bits" "2 ^ bits :: nat"] by (auto simp: maxValueOfNBits_def intro: le_less_trans)
  then have "int k < int (2 ^ w)"
    by linarith
  then show ?thesis
    by simp
qed

lemma q_expr_range:
  assumes "good_query U q" "e = q_expr q" "w = getWidth e"
  shows "0 \<le> eval e env \<and> eval e env < 2 ^ w"
  using eval_in_width(1) [of e env] good_query_wfe(1) [OF assms(1)] assms by (auto simp: in_width_def)

lemma least_right:
  assumes q: "good_query U q" and e: "e = q_expr q" "w = getWidth e"
    and b: "bits \<le> w" "\<forall>env \<in> sols q. eval e env \<le> int (maxValueOfNBits bits)" and z: "zero = (\<exists>env \<in> sols q. eval e env = 0)"
  shows "gives tot ok (if zero then answer 0
     else binary_search (\<lambda>mid. solver_mayBeTrue I (withExpr q (Ule_create False e (const_of mid w)))) 0 (maxValueOfNBits bits))
   (\<lambda>lo. lo \<le> maxValueOfNBits bits \<and> (\<exists>env \<in> sols q. eval e env = int lo) \<and> (\<forall>env \<in> sols q. int lo \<le> eval e env))"
proof (rule gives_if)
  assume zero
  then show "gives tot ok (answer 0) (\<lambda>lo. lo \<le> maxValueOfNBits bits \<and> (\<exists>env \<in> sols q. eval e env = int lo) \<and> (\<forall>env \<in> sols q. int lo \<le> eval e env))"
    using z q_expr_range [OF q e] by simp
next
  have "gives tot ok (binary_search (\<lambda>mid. solver_mayBeTrue I (withExpr q (Ule_create False e (const_of mid w)))) 0 (maxValueOfNBits bits))
     (\<lambda>k. 0 \<le> k \<and> k \<le> maxValueOfNBits bits \<and> (\<exists>env \<in> sols q. eval e env \<le> int k) \<and> (\<forall>m. 0 \<le> m \<and> m < k \<longrightarrow> \<not> (\<exists>env \<in> sols q. eval e env \<le> int m)))"
  proof (rule binary_search_right)
    show "gives tot ok (solver_mayBeTrue I (withExpr q (Ule_create False e (const_of m w)))) (\<lambda>b. b = (\<exists>env \<in> sols q. eval e env \<le> int m))"
      if "m < maxValueOfNBits bits" for m
      by (rule compare_right(2) [OF q e n_bits_bound]) (use that b in auto)
    show "\<exists>env \<in> sols q. eval e env \<le> int (maxValueOfNBits bits)"
      using q b(2) by (auto simp: good_query_def)
    show "\<exists>env \<in> sols q. eval e env \<le> int m'" if "\<exists>env \<in> sols q. eval e env \<le> int m" "m \<le> m'" for m m' :: nat
      using that by (meson of_nat_le_iff order_trans)
  qed simp
  note search = gives_weaken [OF this]
  show "gives tot ok (binary_search (\<lambda>mid. solver_mayBeTrue I (withExpr q (Ule_create False e (const_of mid w)))) 0 (maxValueOfNBits bits))
     (\<lambda>lo. lo \<le> maxValueOfNBits bits \<and> (\<exists>env \<in> sols q. eval e env = int lo) \<and> (\<forall>env \<in> sols q. int lo \<le> eval e env))"
  proof (rule search)
    fix k
    assume k: "0 \<le> k \<and> k \<le> maxValueOfNBits bits \<and> (\<exists>env \<in> sols q. eval e env \<le> int k) \<and> (\<forall>m. 0 \<le> m \<and> m < k \<longrightarrow> \<not> (\<exists>env \<in> sols q. eval e env \<le> int m))"
    then have "int k \<le> eval e env" if "env \<in> sols q" for env
      using that q_expr_range [OF q e, of env] spec [of _ "nat (eval e env)"] by (metis int_nat_eq le_refl nat_less_iff not_le zero_le)
    with k show "k \<le> maxValueOfNBits bits \<and> (\<exists>env \<in> sols q. eval e env = int k) \<and> (\<forall>env \<in> sols q. int k \<le> eval e env)"
      by (auto intro: order.antisym)
  qed
qed

lemma greatest_right:
  assumes q: "good_query U q" and e: "e = q_expr q" "w = getWidth e"
    and b: "bits \<le> w" "\<forall>env \<in> sols q. eval e env \<le> int (maxValueOfNBits bits)"
    and lo: "lo \<le> maxValueOfNBits bits" "\<exists>env \<in> sols q. eval e env = int lo"
  shows "gives tot ok (binary_search (\<lambda>mid. solver_mustBeTrue I (withExpr q (Ule_create False e (const_of mid w)))) lo (maxValueOfNBits bits))
   (\<lambda>hi. hi \<le> maxValueOfNBits bits \<and> (\<exists>env \<in> sols q. eval e env = int hi) \<and> (\<forall>env \<in> sols q. eval e env \<le> int hi))"
proof -
  have "gives tot ok (binary_search (\<lambda>mid. solver_mustBeTrue I (withExpr q (Ule_create False e (const_of mid w)))) lo (maxValueOfNBits bits))
     (\<lambda>k. lo \<le> k \<and> k \<le> maxValueOfNBits bits \<and> (\<forall>env \<in> sols q. eval e env \<le> int k) \<and> (\<forall>m. lo \<le> m \<and> m < k \<longrightarrow> \<not> (\<forall>env \<in> sols q. eval e env \<le> int m)))"
  proof (rule binary_search_right)
    show "gives tot ok (solver_mustBeTrue I (withExpr q (Ule_create False e (const_of m w)))) (\<lambda>b. b = (\<forall>env \<in> sols q. eval e env \<le> int m))"
      if "m < maxValueOfNBits bits" for m
      by (rule compare_right(3) [OF q e n_bits_bound]) (use that b in auto)
    show "\<forall>env \<in> sols q. eval e env \<le> int m'" if "\<forall>env \<in> sols q. eval e env \<le> int m" "m \<le> m'" for m m' :: nat
      using that by (meson of_nat_le_iff order_trans)
  qed (use b lo in auto)
  note search = gives_weaken [OF this]
  show ?thesis
  proof (rule search)
    fix k
    assume k: "lo \<le> k \<and> k \<le> maxValueOfNBits bits \<and> (\<forall>env \<in> sols q. eval e env \<le> int k) \<and> (\<forall>m. lo \<le> m \<and> m < k \<longrightarrow> \<not> (\<forall>env \<in> sols q. eval e env \<le> int m))"
    have "\<exists>env \<in> sols q. eval e env = int k"
    proof (cases "lo = k")
      case False
      with k have "\<not> (\<forall>env \<in> sols q. eval e env \<le> int (k - 1))" "0 < k"
        by (auto dest!: spec [of _ "k - 1"])
      then obtain env where env: "env \<in> sols q" "int (k - 1) < eval e env"
        by (auto simp: not_le)
      with k have "eval e env \<le> int k"
        by blast
      with env \<open>0 < k\<close> show ?thesis
        by (intro bexI [of _ env]) auto
    qed (use lo in simp)
    with k show "k \<le> maxValueOfNBits bits \<and> (\<exists>env \<in> sols q. eval e env = int k) \<and> (\<forall>env \<in> sols q. eval e env \<le> int k)"
      by simp
  qed
qed

lemma range_search_right:
  assumes q: "good_query U q" and small: "tot \<Longrightarrow> getWidth (q_expr q) \<le> 64"
  shows "gives tot ok (range_search I q) (\<lambda>(lo, hi). int hi < 2 ^ getWidth (q_expr q) \<and> (\<exists>env \<in> sols q. eval (q_expr q) env = int lo) \<and>
    (\<exists>env \<in> sols q. eval (q_expr q) env = int hi) \<and> (\<forall>env \<in> sols q. int lo \<le> eval (q_expr q) env \<and> eval (q_expr q) env \<le> int hi))"
proof -
  define e w where e: "e = q_expr q" "w = getWidth e"
  note range = q_expr_range [OF q e]
  have bits: "gives tot ok (binary_search (\<lambda>mid. solver_mustBeTrue I (withExpr q (Eq_create False (LShr_create False e (const_of mid w)) (const_of 0 w)))) 0 w)
     (\<lambda>bits. bits \<le> w \<and> (\<forall>env \<in> sols q. eval e env < 2 ^ bits))"
  proof (rule gives_weaken [OF binary_search_right [OF bits_right [OF q e]]])
    show "\<forall>env \<in> sols q. eval e env < 2 ^ m'" if "\<forall>env \<in> sols q. eval e env < 2 ^ m" "m \<le> m'" for m m' :: nat
      using that power_increasing [of m m' "2 :: int"] by (auto intro: less_le_trans)
  qed (use range in auto)
  let ?range = "\<lambda>(lo, hi). int hi < 2 ^ w \<and> (\<exists>env \<in> sols q. eval e env = int lo) \<and>
    (\<exists>env \<in> sols q. eval e env = int hi) \<and> (\<forall>env \<in> sols q. int lo \<le> eval e env \<and> eval e env \<le> int hi)"
  show ?thesis
    unfolding range_search_def Let_def e [symmetric]
  proof (rule gives_ask [OF bits], rule gives_if)
    show "gives tot ok abort ?range" if "bits \<le> w \<and> (\<forall>env \<in> sols q. eval e env < 2 ^ bits)" "64 < bits" for bits
      using small that e by auto
  next
    fix bits
    assume bits: "bits \<le> w \<and> (\<forall>env \<in> sols q. eval e env < 2 ^ bits)"
    then have b: "bits \<le> w" "\<forall>env \<in> sols q. eval e env \<le> int (maxValueOfNBits bits)"
      by (auto simp: maxValueOfNBits_def of_nat_diff)
    have zero: "gives tot ok (solver_mayBeTrue I (withExpr q (Eq_create False e (const_of 0 w)))) (\<lambda>b. b = (\<exists>env \<in> sols q. eval e env = 0))"
      using compare_right(1) [OF q e, of 0] by simp
    show "gives tot ok (ask (insist (solver_mayBeTrue I (withExpr q (Eq_create False e (const_of 0 w))))) (\<lambda>zero.
         ask (if zero then answer 0
              else binary_search (\<lambda>mid. solver_mayBeTrue I (withExpr q (Ule_create False e (const_of mid w)))) 0 (maxValueOfNBits bits)) (\<lambda>min.
         ask (binary_search (\<lambda>mid. solver_mustBeTrue I (withExpr q (Ule_create False e (const_of mid w)))) min (maxValueOfNBits bits)) (\<lambda>max.
         answer (min, max))))) ?range"
    proof (rule gives_ask [OF gives_insist [OF zero]], rule gives_ask [OF least_right [OF q e b]], assumption)
      fix lo
      assume lo: "lo \<le> maxValueOfNBits bits \<and> (\<exists>env \<in> sols q. eval e env = int lo) \<and> (\<forall>env \<in> sols q. int lo \<le> eval e env)"
      show "gives tot ok (ask (binary_search (\<lambda>mid. solver_mustBeTrue I (withExpr q (Ule_create False e (const_of mid w)))) lo (maxValueOfNBits bits)) (\<lambda>max.
         answer (lo, max))) ?range"
        using lo n_bits_bound [OF _ b(1)] by (intro gives_ask [OF greatest_right [OF q e b]] gives_answer) simp_all
    qed
  qed
qed

lemma getRange_right:
  assumes q: "good_query U q" and small: "tot \<Longrightarrow> getWidth (q_expr q) \<le> 64"
  shows "gives tot ok (solver_getRange I q) (\<lambda>(lo, hi). \<exists>a b. lo = ConstantExpr a \<and> hi = ConstantExpr b \<and> range_of q a b)"
proof -
  let ?e = "q_expr q"
  let ?w = "getWidth ?e"
  let ?P = "\<lambda>(lo, hi). int hi < 2 ^ ?w \<and> (\<exists>env \<in> sols q. eval ?e env = int lo) \<and>
    (\<exists>env \<in> sols q. eval ?e env = int hi) \<and> (\<forall>env \<in> sols q. int lo \<le> eval ?e env \<and> eval ?e env \<le> int hi)"
  have one: "gives tot ok (insist (solver_evaluate I q)) (\<lambda>result. ?P (case result of VTrue \<Rightarrow> (1, 1) | VFalse \<Rightarrow> (0, 0) | VUnknown \<Rightarrow> (0, 1)))" if "?w = 1"
  proof -
    have b: "bool_query U q"
      using q that by (simp add: bool_query_def)
    have P: "?P (case validity_of q of VTrue \<Rightarrow> (1, 1) | VFalse \<Rightarrow> (0, 0) | VUnknown \<Rightarrow> (0, 1))"
      using q bool_0_1 [OF b] that by (auto simp: validity_of_def valid_def good_query_def; metis order.refl zero_le_one zero_neq_one)
    show ?thesis
      by (rule gives_weaken [OF gives_insist [OF solver_evaluate_right [OF b]]]) (use P in simp)
  qed
  have const: "?P (nat x, nat x)" if "as_const ?e = Some c" "ce_getZExtValue 64 c = Some x" for c x
  proof -
    have c: "?e = ConstantExpr c" "ap_ok c" "bitWidth c \<le> 64"
      using that good_query_wfe(1) [OF q] by (auto simp: ce_getZExtValue_def split: if_splits)
    then have "x = apval c" "0 \<le> apval c" "apval c < 2 ^ bitWidth c"
      using ce_getZExtValue_small [of c] that(2) ap_ok_range [of c] by (auto simp: in_width_def)
    then show ?thesis
      using c q by (auto simp: good_query_def)
  qed
  have const_total: "ce_getZExtValue 64 c \<noteq> None" if "as_const ?e = Some c" "tot" for c
    using small that good_query_wfe(1) [OF q] by (auto simp: ce_getZExtValue_def)
  have "gives tot ok (if ?w = 1 then
            ask (insist (solver_evaluate I q)) (\<lambda>result. answer (case result of VTrue \<Rightarrow> (1, 1) | VFalse \<Rightarrow> (0, 0) | VUnknown \<Rightarrow> (0, 1)))
          else case as_const ?e of
              Some c \<Rightarrow> (case ce_getZExtValue 64 c of Some x \<Rightarrow> answer (nat x, nat x) | None \<Rightarrow> abort)
            | None \<Rightarrow> range_search I q) ?P"
    by (rule gives_if, rule gives_ask [OF one], assumption, rule gives_answer, assumption)
      (use const range_search_right [OF q small] const_total in \<open>auto split: option.split\<close>)
  then show ?thesis
    unfolding solver_getRange_def Let_def
  proof (rule gives_ask)
    fix r
    assume "?P r"
    moreover obtain lo hi where r: "r = (lo, hi)"
      by fastforce
    ultimately have *: "int hi < 2 ^ ?w" "\<exists>env \<in> sols q. eval ?e env = int lo" "\<exists>env \<in> sols q. eval ?e env = int hi"
      "\<forall>env \<in> sols q. int lo \<le> eval ?e env \<and> eval ?e env \<le> int hi"
      by auto
    then have "range_of q (ce_alloc (int lo) ?w) (ce_alloc (int hi) ?w)"
      using const_range [OF q, of lo] const_range [OF q, of hi] by (fastforce simp: range_of_def)
    then show "gives tot ok (case r of (lo, hi) \<Rightarrow> answer (const_of lo ?w, const_of hi ?w))
       (\<lambda>(lo, hi). \<exists>a b. lo = ConstantExpr a \<and> hi = ConstantExpr b \<and> range_of q a b)"
      by (simp add: r const_of_def)
  qed
qed

end

section \<open>The timing solver is right\<close>

lemma simplified_query:
  assumes q: "good_query U \<lparr>constraints = cs, q_expr = e\<rparr>" and e': "eqv_on (holds cs) e' e" "within U e'"
  shows "good_query U \<lparr>constraints = cs, q_expr = e'\<rparr>" "getWidth e' = getWidth e"
    "valid \<lparr>constraints = cs, q_expr = e'\<rparr> = valid \<lparr>constraints = cs, q_expr = e\<rparr>"
    "validity_of \<lparr>constraints = cs, q_expr = e'\<rparr> = validity_of \<lparr>constraints = cs, q_expr = e\<rparr>"
    "value_of \<lparr>constraints = cs, q_expr = e'\<rparr> c = value_of \<lparr>constraints = cs, q_expr = e\<rparr> c"
  using assms by (auto simp: good_query_def typed_query_def sols_def eqv_on_def valid_def validity_of_def value_of_def)

definition enough_fuel :: "bool \<Rightarrow> nat \<Rightarrow> expr list \<Rightarrow> expr \<Rightarrow> bool" where
  "enough_fuel simp n cs e \<longleftrightarrow> simp \<longrightarrow> simplifyExpr False n cs e \<noteq> None"

lemma simplified_cases:
  assumes "good_query U \<lparr>constraints = cs, q_expr = e\<rparr>"
    and "\<And>e'. eqv_on (holds cs) e' e \<Longrightarrow> within U e' \<Longrightarrow> gives tot ok (f e') P"
    and "tot \<Longrightarrow> enough_fuel simp n cs e"
  shows "gives tot ok (simplified simp n cs e f) P"
proof (cases "simplifyExpr False n cs e")
  case (Some e')
  have "list_all constraint_ok cs" "list_all (within U) cs" "within U e"
    using assms(1) by (simp_all add: good_query_def typed_query_def)
  from assms(2) [OF simplifyExpr_ok [OF this(1) Some] simplifyExpr_within [OF this(2,3) Some]] show ?thesis
    using assms(2) [of e] \<open>within U e\<close> by (simp add: simplified_def Some)
qed (use assms in \<open>auto simp: simplified_def good_query_def typed_query_def enough_fuel_def\<close>)

context right_solver
begin

lemma ts_mustBeTrue_right:
  assumes q: "bool_query U \<lparr>constraints = cs, q_expr = e\<rparr>" and n: "tot \<Longrightarrow> enough_fuel simp n cs e"
  shows "gives tot ok (ts_mustBeTrue simp n I cs e) (\<lambda>b. b = valid \<lparr>constraints = cs, q_expr = e\<rparr>)"
proof (cases "as_const e")
  case None
  have g: "good_query U \<lparr>constraints = cs, q_expr = e\<rparr>"
    using q by (simp add: bool_query_def)
  show ?thesis
    unfolding ts_mustBeTrue_def None option.case
  proof (rule simplified_cases [OF g _ n])
    fix e'
    assume e': "eqv_on (holds cs) e' e" "within U e'"
    note s = simplified_query [OF g e']
    have "bool_query U \<lparr>constraints = cs, q_expr = e'\<rparr>"
      using q s(1,2) by (simp add: bool_query_def)
    from mustBeTrue_right [OF this] show "gives tot ok (solver_mustBeTrue I \<lparr>constraints = cs, q_expr = e'\<rparr>) (\<lambda>b. b = valid \<lparr>constraints = cs, q_expr = e\<rparr>)"
      by (simp only: s(3))
  qed
qed (use const_query(1) [OF q] in \<open>auto simp: ts_mustBeTrue_def\<close>)

lemma ts_evaluate_right:
  assumes q: "bool_query U \<lparr>constraints = cs, q_expr = e\<rparr>" and n: "tot \<Longrightarrow> enough_fuel simp n cs e"
  shows "gives tot ok (ts_evaluate simp n I cs e) (\<lambda>v. v = validity_of \<lparr>constraints = cs, q_expr = e\<rparr>)"
proof (cases "as_const e")
  case None
  have g: "good_query U \<lparr>constraints = cs, q_expr = e\<rparr>"
    using q by (simp add: bool_query_def)
  show ?thesis
    unfolding ts_evaluate_def None option.case
  proof (rule simplified_cases [OF g _ n])
    fix e'
    assume e': "eqv_on (holds cs) e' e" "within U e'"
    note s = simplified_query [OF g e']
    have "bool_query U \<lparr>constraints = cs, q_expr = e'\<rparr>"
      using q s(1,2) by (simp add: bool_query_def)
    from solver_evaluate_right [OF this] show "gives tot ok (solver_evaluate I \<lparr>constraints = cs, q_expr = e'\<rparr>) (\<lambda>v. v = validity_of \<lparr>constraints = cs, q_expr = e\<rparr>)"
      by (simp only: s(4))
  qed
qed (use const_query(2) [OF q] in \<open>auto simp: ts_evaluate_def\<close>)

lemma ts_getValue_right:
  assumes q: "good_query U \<lparr>constraints = cs, q_expr = e\<rparr>" and n: "tot \<Longrightarrow> enough_fuel simp n cs e"
  shows "gives tot ok (ts_getValue simp n I cs e) (value_of \<lparr>constraints = cs, q_expr = e\<rparr>)"
proof (cases "as_const e")
  case None
  show ?thesis
    unfolding ts_getValue_def None option.case
  proof (rule simplified_cases [OF q _ n])
    fix e'
    assume e': "eqv_on (holds cs) e' e" "within U e'"
    from getValue_right [OF simplified_query(1) [OF q e']]
    show "gives tot ok (solver_getValue I \<lparr>constraints = cs, q_expr = e'\<rparr>) (value_of \<lparr>constraints = cs, q_expr = e\<rparr>)"
      by (rule gives_weaken) (simp only: simplified_query(5) [OF q e'])
  qed
next
  case (Some c)
  then have "value_of \<lparr>constraints = cs, q_expr = e\<rparr> c"
    using q by (auto simp: value_of_def good_query_def typed_query_def)
  then show ?thesis
    by (simp add: ts_getValue_def Some)
qed

lemma ts_mayBeTrue_right:
  assumes q: "bool_query U \<lparr>constraints = cs, q_expr = e\<rparr>" and n: "tot \<Longrightarrow> enough_fuel simp n cs (createIsZero False e)"
  shows "gives tot ok (ts_mayBeTrue simp n I cs e) (\<lambda>b. b = (\<exists>env. holds cs env \<and> eval e env = 1))"
proof -
  have "bool_query U \<lparr>constraints = cs, q_expr = createIsZero False e\<rparr>"
    "valid \<lparr>constraints = cs, q_expr = createIsZero False e\<rparr> \<longleftrightarrow> (\<forall>env. holds cs env \<longrightarrow> eval e env = 0)"
    using negate_bool [OF q] by (auto simp: negateExpr_def withExpr_def sols_def)
  then show ?thesis
    unfolding ts_mayBeTrue_def ts_mustBeFalse_def using bool_0_1 [OF q] n
    by (intro gives_ask [OF ts_mustBeTrue_right] gives_answer) auto
qed

lemma ts_getRange_right:
  "good_query U \<lparr>constraints = cs, q_expr = e\<rparr> \<Longrightarrow> (tot \<Longrightarrow> getWidth e \<le> 64) \<Longrightarrow>
    gives tot ok (ts_getRange I cs e) (\<lambda>(lo, hi). \<exists>a b. lo = ConstantExpr a \<and> hi = ConstantExpr b \<and> range_of \<lparr>constraints = cs, q_expr = e\<rparr> a b)"
  unfolding ts_getRange_def by (rule getRange_right) simp_all

lemma ts_getInitialValues_right:
  assumes "list_all constraint_ok cs" "list_all (within U) cs" "objs \<noteq> []" "tot \<Longrightarrow> \<exists>env. holds cs env"
  shows "gives tot ok (ts_getInitialValues I cs objs) (\<lambda>values. \<exists>env. holds cs env \<and> values = map (bytes_of env) objs)"
proof -
  have "typed_query U \<lparr>constraints = cs, q_expr = ConstantExpr (ce_alloc 0 1)\<rparr>"
    using assms(1,2) by (simp add: typed_query_def ap_ok_def ce_alloc_def)
  from getInitialValues_right [OF this _ _, of objs] have "gives tot ok (ts_getInitialValues I cs objs) (\<lambda>values. solves \<lparr>constraints = cs, q_expr = ConstantExpr (ce_alloc 0 1)\<rparr> objs (values, True))"
    using assms(3,4) by (simp add: ts_getInitialValues_def counterexamples_def sols_def)
  then show ?thesis
    by (rule gives_weaken) (auto simp: solves_def counterexamples_def sols_def)
qed

end

section \<open>A solver that tries every assignment\<close>

text \<open>The reference of the other solvers: \<open>envs\<close> holds an assignment for each content of the arrays.\<close>

definition agree_on :: "array set \<Rightarrow> env \<Rightarrow> env \<Rightarrow> bool" where
  "agree_on U env env' \<longleftrightarrow> (\<forall>a \<in> U. \<forall>i < 2 ^ arr_domain a. take_bit (arr_range a) (env a i) = take_bit (arr_range a) (env' a i))"

definition covers :: "array set \<Rightarrow> env list \<Rightarrow> bool" where
  "covers U envs \<longleftrightarrow> (\<forall>env. \<exists>env' \<in> set envs. agree_on U env env')"

definition satisfying :: "env list \<Rightarrow> query \<Rightarrow> env list" where
  "satisfying envs q = filter (\<lambda>env. list_all (\<lambda>c. eval c env = 1) (constraints q)) envs"

definition exhaustive_solver :: "env list \<Rightarrow> unit impl" where
  "exhaustive_solver envs =
     \<lparr>computeTruth = (\<lambda>q. answer (list_all (\<lambda>env. eval (q_expr q) env = 1) (satisfying envs q))),
      computeValidity = default_validity (\<lambda>q. answer (list_all (\<lambda>env. eval (q_expr q) env = 1) (satisfying envs q))),
      computeValue = (\<lambda>q. case satisfying envs q of [] \<Rightarrow> fail | env # _ \<Rightarrow> answer (ConstantExpr (ce_alloc (eval (q_expr q) env) (getWidth (q_expr q))))),
      computeInitialValues = (\<lambda>q objs.
        case filter (\<lambda>env. eval (q_expr q) env = 0) (satisfying envs q) of
          [] \<Rightarrow> answer ([], False)
        | env # _ \<Rightarrow> answer (map (bytes_of env) objs, True))\<rparr>"

lemma eval_agree_on:
  "wfe e \<Longrightarrow> within U e \<Longrightarrow> agree_on U env env' \<Longrightarrow> eval e env = eval e env'"
  "wfu u a \<Longrightarrow> within_upd U u \<Longrightarrow> array_ok a \<Longrightarrow> a \<in> U \<Longrightarrow> agree_on U env env' \<Longrightarrow> in_width (arr_domain a) ix \<Longrightarrow> eval_upd u env a ix = eval_upd u env' a ix"
proof (induction e and u arbitrary: and a ix)
  case (ReadExpr a u i)
  then show ?case
    using eval_in_width(1) [of i env'] by simp
next
  case UNil
  then show ?case
    by (auto simp: initial_def agree_on_def in_width_def nat_less_iff)
qed auto

lemma satisfying_sols:
  assumes "covers U envs" "typed_query U q"
  shows "set (satisfying envs q) \<subseteq> sols q" "env \<in> sols q \<Longrightarrow> \<exists>env' \<in> set (satisfying envs q). eval (q_expr q) env' = eval (q_expr q) env"
proof -
  show "set (satisfying envs q) \<subseteq> sols q"
    by (auto simp: satisfying_def sols_def holds_def list_all_iff)
  assume env: "env \<in> sols q"
  obtain env' where env': "env' \<in> set envs" "agree_on U env env'"
    using assms(1) unfolding covers_def by blast
  have same: "eval e env' = eval e env" if "e \<in> insert (q_expr q) (set (constraints q))" for e
    using that eval_agree_on(1) [OF _ _ env'(2), of e] assms(2)
    by (auto simp: typed_query_def constraint_ok_def list_all_iff)
  then have "env' \<in> set (satisfying envs q)"
    using env env'(1) by (auto simp: satisfying_def sols_def holds_def list_all_iff)
  with same show "\<exists>env' \<in> set (satisfying envs q). eval (q_expr q) env' = eval (q_expr q) env"
    by blast
qed

lemma exhaustive_truth:
  assumes "covers U envs" "bool_query U q"
  shows "list_all (\<lambda>env. eval (q_expr q) env = 1) (satisfying envs q) = valid q"
  using satisfying_sols [OF assms(1), of q] assms(2)
  by (fastforce simp: list_all_iff valid_def bool_query_def good_query_def)

lemma exhaustive_solver_right:
  assumes c: "covers U envs"
  shows "right_solver True (exhaustive_solver envs) (\<lambda>_. True) U"
proof
  fix q :: query
  assume q: "bool_query U q"
  show "gives True (\<lambda>_. True) (computeTruth (exhaustive_solver envs) q) (\<lambda>b. b = valid q)"
    using exhaustive_truth [OF c q] by (simp add: exhaustive_solver_def)
  show "gives True (\<lambda>_. True) (computeValidity (exhaustive_solver envs) q) (\<lambda>v. v = validity_of q)"
    unfolding exhaustive_solver_def impl.simps
    by (rule default_validity_right [OF q]) (simp add: exhaustive_truth [OF c])
next
  fix q :: query
  assume q: "good_query U q"
  then have t: "typed_query U q" "sols q \<noteq> {}"
    by (simp_all add: good_query_def)
  then obtain env rest where s: "satisfying envs q = env # rest"
    using satisfying_sols(2) [OF c t(1)] by (cases "satisfying envs q") auto
  with satisfying_sols(1) [OF c t(1)] have "env \<in> sols q"
    by auto
  moreover have "in_width (getWidth (q_expr q)) (eval (q_expr q) env)" "0 < getWidth (q_expr q)"
    using eval_in_width(1) getWidth_pos good_query_wfe(1) [OF q] by blast+
  ultimately have "value_of q (ce_alloc (eval (q_expr q) env) (getWidth (q_expr q)))"
    by (auto simp: value_of_def ap_ok_def ce_alloc_def)
  then show "gives True (\<lambda>_. True) (computeValue (exhaustive_solver envs) q) (\<lambda>e. \<exists>c. e = ConstantExpr c \<and> value_of q c)"
    by (simp add: exhaustive_solver_def s)
next
  fix q :: query and objs
  assume q: "typed_query U q"
  note s = satisfying_sols [OF c q]
  show "gives True (\<lambda>_. True) (computeInitialValues (exhaustive_solver envs) q objs) (solves q objs)"
  proof (cases "filter (\<lambda>env. eval (q_expr q) env = 0) (satisfying envs q)")
    case Nil
    then have "counterexamples q = {}"
      using s(2) by (fastforce simp: counterexamples_def filter_empty_conv)
    then show ?thesis
      by (simp add: exhaustive_solver_def Nil solves_def)
  next
    case (Cons env rest)
    then have "env \<in> set (filter (\<lambda>env. eval (q_expr q) env = 0) (satisfying envs q))"
      by simp
    then have "env \<in> counterexamples q"
      using s(1) by (auto simp: counterexamples_def)
    then have "solves q objs (map (bytes_of env) objs, True)"
      by (auto simp: solves_def)
    then show ?thesis
      by (simp add: exhaustive_solver_def Cons)
  qed
qed

text \<open>Two bits, and their four contents.\<close>

definition bit_array :: array where
  "bit_array = \<lparr>arr_ptr = 7, arr_name = ''bits'', arr_size = 2, arr_domain = 1, arr_range = 1, constantValues = []\<rparr>"

definition bit_env :: "int \<Rightarrow> int \<Rightarrow> env" where
  "bit_env x y = (\<lambda>a i. if i = 0 then x else y)"

definition bit_envs :: "env list" where
  "bit_envs = [bit_env 0 0, bit_env 0 1, bit_env 1 0, bit_env 1 1]"

definition bit_read :: "int \<Rightarrow> expr" where
  "bit_read i = ReadExpr bit_array UNil (ConstantExpr (APInt 1 i))"

lemma bit_01: "take_bit 1 x = 0 \<or> take_bit 1 x = 1" for x :: int
  by (simp add: take_bit_eq_mod) presburger

lemma covers_bits: "covers {bit_array} bit_envs"
proof -
  have "\<exists>env' \<in> set bit_envs. agree_on {bit_array} env env'" for env
  proof -
    have "agree_on {bit_array} env (bit_env (take_bit 1 (env bit_array 0)) (take_bit 1 (env bit_array 1)))"
      by (auto simp: agree_on_def bit_env_def bit_array_def less_2_cases_iff)
    then show ?thesis
      using bit_01 [of "env bit_array 0"] bit_01 [of "env bit_array 1"] by (auto simp: bit_envs_def)
  qed
  then show ?thesis
    by (simp add: covers_def)
qed

lemma bit_read_value: "eval (bit_read 0) env = take_bit 1 (env bit_array 0)" "eval (bit_read 1) env = take_bit 1 (env bit_array 1)"
  by (simp_all add: bit_read_def initial_def bit_array_def isConstantArray_def isSymbolicArray_def)

lemma bit_read_ok: "stored_ok (bit_read 0)" "folded (bit_read 1)" "wfe (bit_read 0)" "wfe (bit_read 1)" "getWidth (bit_read i) = 1" "within {bit_array} (bit_read i)"
  by (simp_all add: bit_read_def stored_ok_def constraint_ok_def array_ok_def bit_array_def isSymbolicArray_def ap_ok_def)

lemma bit_sols:
  "bit_env 1 0 \<in> sols \<lparr>constraints = [bit_read 0], q_expr = bit_read 1\<rparr>" "bit_env 1 1 \<in> sols \<lparr>constraints = [bit_read 0], q_expr = bit_read 1\<rparr>"
  "bit_env 1 0 \<in> sols \<lparr>constraints = [bit_read 0], q_expr = ConcatExpr (bit_read 0) (bit_read 1)\<rparr>"
  "bit_env 1 1 \<in> sols \<lparr>constraints = [bit_read 0], q_expr = ConcatExpr (bit_read 0) (bit_read 1)\<rparr>"
  by (simp_all add: sols_def holds_def bit_read_value bit_env_def)

lemma bit_query:
  "bool_query {bit_array} \<lparr>constraints = [bit_read 0], q_expr = bit_read 1\<rparr>"
  "good_query {bit_array} \<lparr>constraints = [bit_read 0], q_expr = ConcatExpr (bit_read 0) (bit_read 1)\<rparr>"
  using bit_sols bit_read_ok stored_okD(1) [OF bit_read_ok(1)]
  by (auto simp: bool_query_def good_query_def typed_query_def)

interpretation dummy: right_solver False dummy_solver "\<lambda>_. True" U for U
  by unfold_locales (simp_all add: dummy_solver_def)

interpretation exhaustive: right_solver True "exhaustive_solver bit_envs" "\<lambda>_. True" "{bit_array}"
  by (rule exhaustive_solver_right [OF covers_bits])

section \<open>Properties\<close>



text \<open>
  C36: Ranges are exact. Over a solver that always answers and answers right, \<open>getRange\<close> of an expression
  of at most 64 bits returns the smallest and the largest value that the expression has under the
  assignments that satisfy the constraints.
\<close>

theorem range_exact:
  assumes I: "right_solver True I ok U" and q: "good_query U \<lparr>constraints = cs, q_expr = e\<rparr>" and w: "getWidth e \<le> 64" and s: "ok s"
  shows "\<exists>a b s'. ts_getRange I cs e s = (Answered (ConstantExpr a, ConstantExpr b), s') \<and> ok s' \<and>
    range_of \<lparr>constraints = cs, q_expr = e\<rparr> a b"
  using gives_yields [OF right_solver.ts_getRange_right [OF I q] s] w by (auto simp: split_beta)

theorem range_exact_witness:
  "\<exists>a b. fst (ts_getRange (exhaustive_solver bit_envs) [bit_read 0] (ConcatExpr (bit_read 0) (bit_read 1)) ()) = Answered (ConstantExpr a, ConstantExpr b) \<and>
     apval a = 2 \<and> apval b = 3"
proof -
  let ?q = "\<lparr>constraints = [bit_read 0], q_expr = ConcatExpr (bit_read 0) (bit_read 1)\<rparr>"
  have v: "eval (q_expr ?q) env = 2 + take_bit 1 (env bit_array 1)" if "env \<in> sols ?q" for env
  proof -
    show ?thesis
      using that bit_01 [of "env bit_array 1"]
      by (auto simp: sols_def holds_def bit_read_value bit_read_ok)
  qed
  obtain a b where r: "fst (ts_getRange (exhaustive_solver bit_envs) [bit_read 0] (ConcatExpr (bit_read 0) (bit_read 1)) ()) = Answered (ConstantExpr a, ConstantExpr b)"
    "range_of ?q a b"
    using range_exact [OF exhaustive_solver_right [OF covers_bits] bit_query(2), of "()"] by (fastforce simp: bit_read_ok)
  have "2 \<le> apval a" "apval b \<le> 3"
    using r(2) v bit_01 by (fastforce simp: range_of_def value_of_def)+
  moreover have "apval a \<le> 2" "3 \<le> apval b"
    using r(2) v [OF bit_sols(3)] v [OF bit_sols(4)] bit_sols(3,4) by (auto simp: range_of_def bit_env_def)
  ultimately show ?thesis
    using r(1) by (intro exI [of _ a] exI [of _ b]) simp
qed

end
