(* ===== verification/CachingSolver.thy ===== *)
theory CachingSolver
  imports Solver
begin

text \<open>
  The staged solver (\<open>lib/Solver/IncompleteSolver.cpp\<close>) and the cache of validity answers
  (\<open>lib/Solver/CachingSolver.cpp\<close>) are right over every right solver. The cache is an
  association list; expressions are the same entry when \<open>compare\<close> says so.
\<close>

section \<open>Partial answers\<close>

definition pv_ok :: "query \<Rightarrow> partial_validity \<Rightarrow> bool" where
  "pv_ok q pv = (case pv of
     MustBeTrue \<Rightarrow> valid q
   | MustBeFalse \<Rightarrow> valid (negateExpr q)
   | MayBeTrue \<Rightarrow> \<not> valid (negateExpr q)
   | MayBeFalse \<Rightarrow> \<not> valid q
   | TrueOrFalse \<Rightarrow> \<not> valid q \<and> \<not> valid (negateExpr q)
   | PNone \<Rightarrow> True)"

lemma pv_ok_simps [simp]:
  "pv_ok q MustBeTrue = valid q" "pv_ok q MustBeFalse = valid (negateExpr q)" "pv_ok q MayBeTrue = (\<not> valid (negateExpr q))"
  "pv_ok q MayBeFalse = (\<not> valid q)" "pv_ok q TrueOrFalse = (\<not> valid q \<and> \<not> valid (negateExpr q))" "pv_ok q PNone"
  by (simp_all add: pv_ok_def)

lemma valid_negate_twice: "bool_query U q \<Longrightarrow> valid (negateExpr (negateExpr q)) = valid q"
  using negate_bool [of U q] negate_bool [of U "negateExpr q"] isZero_value [OF good_query_wfe(1), of U q] bool_0_1 [of U q]
  by (auto simp: valid_def bool_query_def)

lemma negatePartialValidity_ok:
  "bool_query U q \<Longrightarrow> pv_ok q pv \<Longrightarrow> negatePartialValidity pv = Some pv' \<Longrightarrow> pv_ok (negateExpr q) pv'"
  by (cases pv) (auto simp: valid_negate_twice)

text \<open>What an incomplete solver promises: \<open>computeTruth\<close> never answers \<open>MayBeTrue\<close>.\<close>

definition no_abort :: "('s \<Rightarrow> bool) \<Rightarrow> ('s, 'a) call \<Rightarrow> bool" where
  "no_abort ok f \<longleftrightarrow> (\<forall>s. ok s \<longrightarrow> fst (f s) \<noteq> Aborted)"

lemma no_abort_fail [simp]: "no_abort ok fail"
  by (simp add: no_abort_def fail_def)

definition right_incomplete :: "'s incomplete \<Rightarrow> ('s \<Rightarrow> bool) \<Rightarrow> array set \<Rightarrow> bool" where
  "right_incomplete P ok U \<longleftrightarrow>
     (\<forall>q. bool_query U q \<longrightarrow> gives True ok (partialTruth P q) (\<lambda>pv. pv_ok q pv \<and> pv \<noteq> MayBeTrue)) \<and>
     (\<forall>q. bool_query U q \<longrightarrow> gives True ok (partialValidity P q) (pv_ok q)) \<and>
     (\<forall>q. good_query U q \<longrightarrow> no_abort ok (partialValue P q) \<and>
        gives False ok (partialValue P q) (\<lambda>e. \<exists>c. e = ConstantExpr c \<and> value_of q c)) \<and>
     (\<forall>q objs. typed_query U q \<longrightarrow> getWidth (q_expr q) = 1 \<longrightarrow> no_abort ok (partialInitialValues P q objs) \<and>
        gives False ok (partialInitialValues P q objs) (solves q objs))"

lemma default_partial_validity_right:
  assumes q: "bool_query U q" and t: "\<And>q'. bool_query U q' \<Longrightarrow> gives tot ok (truth q') (\<lambda>pv. pv_ok q' pv \<and> pv \<noteq> MayBeTrue)"
  shows "gives tot ok (default_partial_validity truth q) (pv_ok q)"
proof -
  have n: "bool_query U (negateExpr q)"
    by (rule negate_bool(1) [OF q])
  have v: "pv \<noteq> PNone \<Longrightarrow> pv \<noteq> MustBeTrue \<Longrightarrow> pv_ok q' pv \<Longrightarrow> pv \<noteq> MayBeTrue \<Longrightarrow> bool_query U q' \<Longrightarrow> \<not> valid q'" for pv q'
    using validity_simps(1) [of U q'] by (cases pv) auto
  show ?thesis
    unfolding default_partial_validity_def
    by (rule gives_ask [OF t [OF q]], rule gives_if, simp, rule gives_ask [OF t [OF n]])
      (use v [OF _ _ _ _ q] v [OF _ _ _ _ n] in \<open>auto intro!: gives_if\<close>)
qed

section \<open>Two solvers\<close>

definition both_ok :: "('s \<Rightarrow> bool) \<Rightarrow> ('t \<Rightarrow> bool) \<Rightarrow> 's \<times> 't \<Rightarrow> bool" where
  "both_ok ok ok' = (\<lambda>(s, t). ok s \<and> ok' t)"

lemma gives_first: "gives tot ok f P \<Longrightarrow> gives tot (both_ok ok ok') (on_first f) P"
  by (auto simp: gives_def on_first_def both_ok_def split: prod.split)

lemma gives_second: "gives tot ok' f P \<Longrightarrow> gives tot (both_ok ok ok') (on_second f) P"
  by (auto simp: gives_def on_second_def both_ok_def split: prod.split)

lemma gives_or_else: "no_abort ok f \<Longrightarrow> gives False ok f P \<Longrightarrow> gives tot ok g P \<Longrightarrow> gives tot ok (or_else f g) P"
  by (fastforce simp: no_abort_def gives_def or_else_def split: prod.splits outcome.splits)

lemma no_abort_first: "no_abort ok f \<Longrightarrow> no_abort (both_ok ok ok') (on_first f)"
  by (auto simp: no_abort_def on_first_def both_ok_def split: prod.split)

lemma staged_solver_right:
  assumes P: "right_incomplete P ok U" and I: "right_solver tot I ok' U"
  shows "right_solver tot (staged_solver P I) (both_ok ok ok') U"
proof
  fix q :: query
  assume q: "bool_query U q"
  note n = negate_bool(1) [OF q]
  have p: "gives tot ok (partialTruth P q) (\<lambda>pv. pv_ok q pv \<and> pv \<noteq> MayBeTrue)" "gives tot ok (partialValidity P q) (pv_ok q)"
    using P q by (simp_all add: right_incomplete_def gives_partly)
  note t = gives_second [OF right_solver.truth [OF I q]] gives_second [OF right_solver.truth [OF I n]] gives_second [OF right_solver.validity [OF I q]]
  show "gives tot (both_ok ok ok') (computeTruth (staged_solver P I) q) (\<lambda>b. b = valid q)"
    unfolding staged_solver_def impl.simps staged_truth_def
    by (rule gives_ask [OF gives_first [OF p(1)]], rule gives_if [OF gives_answer t(1)])
      (use validity_simps(1) [OF q] in \<open>auto simp: pv_ok_def split: partial_validity.splits\<close>)
  show "gives tot (both_ok ok ok') (computeValidity (staged_solver P I) q) (\<lambda>v. v = validity_of q)"
    unfolding staged_solver_def impl.simps staged_validity_def validity_simps(2) [OF q]
  proof (rule gives_ask [OF gives_first [OF p(2)]])
    fix pv
    assume "pv_ok q pv"
    then show "gives tot (both_ok ok ok') (case pv of
         MustBeTrue \<Rightarrow> answer VTrue
       | MustBeFalse \<Rightarrow> answer VFalse
       | MayBeTrue \<Rightarrow> ask (on_second (computeTruth I q)) (\<lambda>tmp. answer (if tmp then VTrue else VUnknown))
       | MayBeFalse \<Rightarrow> ask (on_second (computeTruth I (negateExpr q))) (\<lambda>tmp. answer (if tmp then VFalse else VUnknown))
       | TrueOrFalse \<Rightarrow> answer VUnknown
       | PNone \<Rightarrow> on_second (computeValidity I q))
      (\<lambda>v. v = (if valid q then VTrue else if valid (negateExpr q) then VFalse else VUnknown))"
      using validity_simps [OF q] t(3) by (cases pv) (auto intro!: gives_ask [OF t(1)] gives_ask [OF t(2)])
  qed
next
  fix q :: query
  assume "good_query U q"
  then show "gives tot (both_ok ok ok') (computeValue (staged_solver P I) q) (\<lambda>e. \<exists>c. e = ConstantExpr c \<and> value_of q c)"
    using P right_solver.getting_value [OF I] by (auto simp: staged_solver_def right_incomplete_def intro!: gives_or_else no_abort_first gives_first gives_second)
next
  fix q :: query and objs
  assume "typed_query U q" "getWidth (q_expr q) = 1"
  then show "gives tot (both_ok ok ok') (computeInitialValues (staged_solver P I) q objs) (solves q objs)"
    using P right_solver.initial_values [OF I] by (auto simp: staged_solver_def right_incomplete_def intro!: gives_or_else no_abort_first gives_first gives_second)
qed

section \<open>The cache\<close>

type_synonym cache = "((expr list \<times> expr) \<times> partial_validity) list"

text \<open>The canonical expression of a query, and whether it is the negated one.\<close>

definition canonicalizeQuery :: "(apint \<Rightarrow> 32 word) \<Rightarrow> expr \<Rightarrow> expr \<times> bool" where
  "canonicalizeQuery hv originalQuery =
     (let negatedQuery = createIsZero False originalQuery
      in if expr_compare hv originalQuery negatedQuery < 0 then (originalQuery, False) else (negatedQuery, True))"

definition same_entry :: "(apint \<Rightarrow> 32 word) \<Rightarrow> expr list \<times> expr \<Rightarrow> expr list \<times> expr \<Rightarrow> bool" where
  "same_entry hv k k' \<longleftrightarrow> list_all2 (\<lambda>a b. expr_compare hv a b = 0) (fst k) (fst k') \<and> expr_compare hv (snd k) (snd k') = 0"

definition cache_find :: "(apint \<Rightarrow> 32 word) \<Rightarrow> expr list \<times> expr \<Rightarrow> cache \<Rightarrow> partial_validity option" where
  "cache_find hv k cache = map_option snd (find (\<lambda>(k', pv). same_entry hv k k') cache)"

definition checked :: "'a option \<Rightarrow> ('s, 'a) call" where
  "checked x = (case x of Some y \<Rightarrow> answer y | None \<Rightarrow> abort)"

definition cacheLookup :: "(apint \<Rightarrow> 32 word) \<Rightarrow> query \<Rightarrow> (cache, partial_validity option) call" where
  "cacheLookup hv q cache =
     (let (canonicalQuery, negationUsed) = canonicalizeQuery hv (q_expr q)
      in case cache_find hv (constraints q, canonicalQuery) cache of
           None \<Rightarrow> answer None cache
         | Some pv \<Rightarrow> (if negationUsed then ask (checked (negatePartialValidity pv)) (\<lambda>pv. answer (Some pv)) cache
                      else answer (Some pv) cache))"

text \<open>\<open>insert\<close> leaves an entry that is there as it is.\<close>

definition cacheInsert :: "(apint \<Rightarrow> 32 word) \<Rightarrow> query \<Rightarrow> partial_validity \<Rightarrow> (cache, unit) call" where
  "cacheInsert hv q result =
     (let (canonicalQuery, negationUsed) = canonicalizeQuery hv (q_expr q); ce = (constraints q, canonicalQuery)
      in ask (checked (if negationUsed then negatePartialValidity result else Some result)) (\<lambda>cachedResult cache.
           (Answered (), if cache_find hv ce cache = None then (ce, cachedResult) # cache else cache)))"

definition store_answer :: "(apint \<Rightarrow> 32 word) \<Rightarrow> query \<Rightarrow> partial_validity \<Rightarrow> 'a \<Rightarrow> (cache \<times> 's, 'a) call" where
  "store_answer hv q pv x = ask (on_first (cacheInsert hv q pv)) (\<lambda>_. answer x)"

definition cached_validity :: "(apint \<Rightarrow> 32 word) \<Rightarrow> 's impl \<Rightarrow> query \<Rightarrow> (cache \<times> 's, validity) call" where
  "cached_validity hv I q =
     ask (on_first (cacheLookup hv q)) (\<lambda>hit. case hit of
         Some cachedResult \<Rightarrow>
           (case cachedResult of
              MustBeTrue \<Rightarrow> answer VTrue
            | MustBeFalse \<Rightarrow> answer VFalse
            | TrueOrFalse \<Rightarrow> answer VUnknown
            | MayBeTrue \<Rightarrow> ask (on_second (computeTruth I q)) (\<lambda>tmp.
                if tmp then store_answer hv q MustBeTrue VTrue else store_answer hv q TrueOrFalse VUnknown)
            | MayBeFalse \<Rightarrow> ask (on_second (computeTruth I (negateExpr q))) (\<lambda>tmp.
                if tmp then store_answer hv q MustBeFalse VFalse else store_answer hv q TrueOrFalse VUnknown)
            | PNone \<Rightarrow> abort)
       | None \<Rightarrow> ask (on_second (computeValidity I q)) (\<lambda>result.
           store_answer hv q (case result of VTrue \<Rightarrow> MustBeTrue | VFalse \<Rightarrow> MustBeFalse | VUnknown \<Rightarrow> TrueOrFalse) result))"

definition cached_truth :: "(apint \<Rightarrow> 32 word) \<Rightarrow> 's impl \<Rightarrow> query \<Rightarrow> (cache \<times> 's, bool) call" where
  "cached_truth hv I q =
     ask (on_first (cacheLookup hv q)) (\<lambda>hit.
       if hit \<noteq> None \<and> hit \<noteq> Some MayBeTrue then answer (hit = Some MustBeTrue)
       else ask (on_second (computeTruth I q)) (\<lambda>isValid.
         store_answer hv q (if isValid then MustBeTrue else if hit \<noteq> None then TrueOrFalse else MayBeFalse) isValid))"

definition caching_solver :: "(apint \<Rightarrow> 32 word) \<Rightarrow> 's impl \<Rightarrow> (cache \<times> 's) impl" where
  "caching_solver hv I =
     \<lparr>computeTruth = cached_truth hv I, computeValidity = cached_validity hv I,
      computeValue = (\<lambda>q. on_second (computeValue I q)),
      computeInitialValues = (\<lambda>q objs. on_second (computeInitialValues I q objs))\<rparr>"

section \<open>What is in the cache is true\<close>

definition entry_query :: "expr list \<times> expr \<Rightarrow> query" where
  "entry_query k = \<lparr>constraints = fst k, q_expr = snd k\<rparr>"

definition cache_ok :: "array set \<Rightarrow> cache \<Rightarrow> bool" where
  "cache_ok U cache \<longleftrightarrow> (\<forall>(k, pv) \<in> set cache. bool_query U (entry_query k) \<and> pv \<noteq> PNone \<and> pv_ok (entry_query k) pv)"

lemma compare_eq:
  assumes "one_object U U" "within U a" "within U b" "expr_compare hv a b = 0"
  shows "a = b"
proof -
  have "one_object (expr_arrays a) (expr_arrays b)"
    using assms(1-3) by (auto simp: one_object_def within_def)
  then show ?thesis
    using compare_0(1) [OF assms(4)] by blast
qed

lemma same_entry_eq:
  assumes U: "one_object U U" and k: "bool_query U (entry_query k)" "bool_query U (entry_query k')" and s: "same_entry hv k k'"
  shows "k = k'"
proof -
  have w: "list_all (within U) (fst k)" "list_all (within U) (fst k')" "within U (snd k)" "within U (snd k')"
    using k by (simp_all add: bool_query_def good_query_def typed_query_def entry_query_def)
  have "fst k = fst k'"
    using s w(1,2) compare_eq [OF U] by (auto simp: same_entry_def list_all2_conv_all_nth list_all_length intro!: nth_equalityI)
  moreover have "snd k = snd k'"
    using s compare_eq [OF U w(3,4)] by (auto simp: same_entry_def)
  ultimately show ?thesis
    by (rule prod_eqI)
qed

lemma cache_find_ok:
  assumes "one_object U U" "cache_ok U cache" "bool_query U (entry_query k)" "cache_find hv k cache = Some pv"
  shows "pv_ok (entry_query k) pv" "pv \<noteq> PNone"
proof -
  obtain k' where k': "(k', pv) \<in> set cache" "same_entry hv k k'"
    using assms(4) by (auto simp: cache_find_def find_Some_iff) (metis nth_mem)
  then have "bool_query U (entry_query k')" "pv \<noteq> PNone" "pv_ok (entry_query k') pv"
    using assms(2) by (auto simp: cache_ok_def)
  with same_entry_eq [OF assms(1,3) _ k'(2)] show "pv_ok (entry_query k) pv" "pv \<noteq> PNone"
    by auto
qed

lemma canonical_cases:
  assumes "bool_query U q" "canonicalizeQuery hv (q_expr q) = (c, n)"
  shows "entry_query (constraints q, c) = (if n then negateExpr q else q)" "bool_query U (entry_query (constraints q, c))"
proof -
  show eq: "entry_query (constraints q, c) = (if n then negateExpr q else q)"
    using assms(2) by (auto simp: canonicalizeQuery_def Let_def entry_query_def negateExpr_def withExpr_def split: if_splits)
  show "bool_query U (entry_query (constraints q, c))"
    unfolding eq using assms(1) negate_bool(1) by auto
qed

lemma negate_defined: "pv \<noteq> PNone \<Longrightarrow> \<exists>pv'. negatePartialValidity pv = Some pv' \<and> pv' \<noteq> PNone"
  by (cases pv) auto

lemma checked_Some [simp]: "checked (Some x) = answer x"
  by (simp add: checked_def)

lemma ask_answer [simp]: "ask (answer x) f = f x"
  by (simp add: ask_def answer_def fun_eq_iff)

lemma cacheLookup_ok:
  assumes "one_object U U" "bool_query U q"
  shows "gives tot (cache_ok U) (cacheLookup hv q) (\<lambda>hit. case hit of None \<Rightarrow> True | Some pv \<Rightarrow> pv_ok q pv \<and> pv \<noteq> PNone)"
  unfolding gives_def
proof (intro allI impI)
  fix cache
  assume ok: "cache_ok U cache"
  obtain c n where c: "canonicalizeQuery hv (q_expr q) = (c, n)"
    by fastforce
  note e = canonical_cases [OF assms(2) c]
  show "cache_ok U (snd (cacheLookup hv q cache)) \<and> (\<forall>x. fst (cacheLookup hv q cache) = Answered x \<longrightarrow>
    (case x of None \<Rightarrow> True | Some pv \<Rightarrow> pv_ok q pv \<and> pv \<noteq> PNone)) \<and> (tot \<longrightarrow> (\<exists>x. fst (cacheLookup hv q cache) = Answered x))"
  proof (cases "cache_find hv (constraints q, c) cache")
    case (Some pv)
    note pv = cache_find_ok [OF assms(1) ok e(2) Some]
    obtain pv' where pv': "negatePartialValidity pv = Some pv'" "pv' \<noteq> PNone"
      using negate_defined [OF pv(2)] by blast
    have "pv_ok q pv'" if n
      using negatePartialValidity_ok [OF e(2) pv(1) pv'(1)] that valid_negate_twice [OF assms(2)]
        valid_negate_twice [OF negate_bool(1) [OF assms(2)]]
      by (cases pv') (simp_all add: e(1))
    with pv pv' ok e(1) show ?thesis
      by (auto simp: cacheLookup_def c Some answer_def)
  qed (use ok in \<open>simp add: cacheLookup_def c answer_def\<close>)
qed

lemma cacheInsert_ok:
  assumes "bool_query U q" "pv_ok q pv" "pv \<noteq> PNone"
  shows "gives tot (cache_ok U) (cacheInsert hv q pv) (\<lambda>_. True)"
proof -
  obtain c n where c: "canonicalizeQuery hv (q_expr q) = (c, n)"
    by fastforce
  note e = canonical_cases [OF assms(1) c]
  obtain pv' where pv': "(if n then negatePartialValidity pv else Some pv) = Some pv'" "pv' \<noteq> PNone"
    using negate_defined [OF assms(3)] assms(3) by (cases n) auto
  then have "pv_ok (entry_query (constraints q, c)) pv'"
    using negatePartialValidity_ok [OF assms(1,2)] assms(2) by (auto simp: e(1) split: if_splits)
  with e(2) pv'(2) have "cache_ok U (((constraints q, c), pv') # cache)" if "cache_ok U cache" for cache
    using that by (simp add: cache_ok_def)
  then show ?thesis
    by (simp add: gives_def cacheInsert_def c pv'(1) Let_def)
qed

lemma store_answer_ok:
  assumes "bool_query U q" "pv_ok q pv" "pv \<noteq> PNone" "P x"
  shows "gives tot (both_ok (cache_ok U) ok) (store_answer hv q pv x) P"
  unfolding store_answer_def by (rule gives_ask [OF gives_first [OF cacheInsert_ok [OF assms(1-3)]]]) (simp add: assms(4))

lemma cached_truth_right:
  assumes U: "one_object U U" and I: "right_solver tot I ok U" and q: "bool_query U q"
  shows "gives tot (both_ok (cache_ok U) ok) (cached_truth hv I q) (\<lambda>b. b = valid q)"
  unfolding cached_truth_def
proof (rule gives_ask [OF gives_first [OF cacheLookup_ok [OF U q]]], rule gives_if)
  fix hit
  assume hit: "case hit of None \<Rightarrow> True | Some pv \<Rightarrow> pv_ok q pv \<and> pv \<noteq> PNone"
  show "gives tot (both_ok (cache_ok U) ok) (answer (hit = Some MustBeTrue)) (\<lambda>b. b = valid q)" if "hit \<noteq> None \<and> hit \<noteq> Some MayBeTrue"
    by (rule gives_answer) (use hit that validity_simps(1) [OF q] in \<open>auto simp: pv_ok_def split: partial_validity.splits\<close>)
  show "gives tot (both_ok (cache_ok U) ok) (ask (on_second (computeTruth I q)) (\<lambda>isValid.
      store_answer hv q (if isValid then MustBeTrue else if hit \<noteq> None then TrueOrFalse else MayBeFalse) isValid)) (\<lambda>b. b = valid q)"
    if "\<not> (hit \<noteq> None \<and> hit \<noteq> Some MayBeTrue)"
    by (rule gives_ask [OF gives_second [OF right_solver.truth [OF I q]]], rule store_answer_ok [OF q]) (use hit that in auto)
qed

lemma cached_validity_right:
  assumes U: "one_object U U" and I: "right_solver tot I ok U" and q: "bool_query U q"
  shows "gives tot (both_ok (cache_ok U) ok) (cached_validity hv I q) (\<lambda>v. v = validity_of q)"
  unfolding cached_validity_def
proof (rule gives_ask [OF gives_first [OF cacheLookup_ok [OF U q]]])
  fix hit
  assume hit: "case hit of None \<Rightarrow> True | Some pv \<Rightarrow> pv_ok q pv \<and> pv \<noteq> PNone"
  note t = gives_second [OF right_solver.truth [OF I q]] gives_second [OF right_solver.truth [OF I negate_bool(1) [OF q]]]
    gives_second [OF right_solver.validity [OF I q]]
  note v = validity_simps [OF q]
  show "gives tot (both_ok (cache_ok U) ok) (case hit of
         Some cachedResult \<Rightarrow>
           (case cachedResult of
              MustBeTrue \<Rightarrow> answer VTrue
            | MustBeFalse \<Rightarrow> answer VFalse
            | TrueOrFalse \<Rightarrow> answer VUnknown
            | MayBeTrue \<Rightarrow> ask (on_second (computeTruth I q)) (\<lambda>tmp.
                if tmp then store_answer hv q MustBeTrue VTrue else store_answer hv q TrueOrFalse VUnknown)
            | MayBeFalse \<Rightarrow> ask (on_second (computeTruth I (negateExpr q))) (\<lambda>tmp.
                if tmp then store_answer hv q MustBeFalse VFalse else store_answer hv q TrueOrFalse VUnknown)
            | PNone \<Rightarrow> abort)
       | None \<Rightarrow> ask (on_second (computeValidity I q)) (\<lambda>result.
           store_answer hv q (case result of VTrue \<Rightarrow> MustBeTrue | VFalse \<Rightarrow> MustBeFalse | VUnknown \<Rightarrow> TrueOrFalse) result))
    (\<lambda>v. v = validity_of q)"
  proof (cases hit)
    case None
    then show ?thesis
      by simp (rule gives_ask [OF t(3)], rule store_answer_ok [OF q], auto simp: v)
  next
    case (Some pv)
    with hit have pv: "pv_ok q pv" "pv \<noteq> PNone"
      by auto
    show ?thesis
      using pv v(1) unfolding Some v(2)
      by (cases pv) (auto intro!: gives_ask [OF t(1)] gives_ask [OF t(2)] store_answer_ok [OF q])
  qed
qed

lemma caching_solver_right:
  assumes U: "one_object U U" and I: "right_solver tot I ok U"
  shows "right_solver tot (caching_solver hv I) (both_ok (cache_ok U) ok) U"
  by unfold_locales
    (simp_all add: caching_solver_def cached_truth_right [OF U I] cached_validity_right [OF U I] gives_second
      right_solver.getting_value [OF I] right_solver.initial_values [OF I])

interpretation cached: right_solver True "caching_solver hv (exhaustive_solver bit_envs)" "both_ok (cache_ok {bit_array}) (\<lambda>_. True)" "{bit_array}" for hv
  by (rule caching_solver_right [OF _ exhaustive_solver_right [OF covers_bits]]) (simp add: one_object_def)

section \<open>Sequences of queries\<close>

datatype request = Truth query | Validity query

datatype reply = IsValid bool | Is validity

primrec request_query :: "request \<Rightarrow> query" where
  "request_query (Truth q) = q"
| "request_query (Validity q) = q"

primrec serve :: "'s impl \<Rightarrow> request \<Rightarrow> ('s, reply) call" where
  "serve I (Truth q) = ask (computeTruth I q) (\<lambda>b. answer (IsValid b))"
| "serve I (Validity q) = ask (computeValidity I q) (\<lambda>v. answer (Is v))"

primrec session :: "'s impl \<Rightarrow> request list \<Rightarrow> ('s, reply list) call" where
  "session I [] = answer []"
| "session I (r # rs) = ask (serve I r) (\<lambda>x. ask (session I rs) (\<lambda>xs. answer (x # xs)))"

primrec right_reply :: "request \<Rightarrow> reply" where
  "right_reply (Truth q) = IsValid (valid q)"
| "right_reply (Validity q) = Is (validity_of q)"

context right_solver
begin

lemma serve_right: "bool_query U (request_query r) \<Longrightarrow> gives tot ok (serve I r) (\<lambda>x. x = right_reply r)"
  by (cases r) (auto intro!: gives_ask [OF truth] gives_ask [OF validity])

lemma session_right: "list_all (\<lambda>r. bool_query U (request_query r)) rs \<Longrightarrow> gives tot ok (session I rs) (\<lambda>xs. xs = map right_reply rs)"
proof (induction rs)
  case (Cons r rs)
  then have "bool_query U (request_query r)" "gives tot ok (session I rs) (\<lambda>xs. xs = map right_reply rs)"
    by simp_all
  then show ?case
    unfolding session.simps by (intro gives_ask [OF serve_right] gives_ask [where f = "session I rs"] gives_answer) simp_all
qed simp

end

section \<open>What is not refined\<close>

lemma ask_cong_answer: "f s = (Answered x, s') \<Longrightarrow> ask f g s = g x s'"
  by (simp add: ask_def)

lemma cacheInsert_hit:
  assumes "cacheLookup hv q cache = (Answered (Some pv), cache)" "pv' \<noteq> PNone"
  shows "cacheInsert hv q pv' cache = (Answered (), cache)"
proof -
  obtain c n where c: "canonicalizeQuery hv (q_expr q) = (c, n)"
    by fastforce
  obtain pv'' where "(if n then negatePartialValidity pv' else Some pv') = Some pv''"
    using negate_defined [OF assms(2)] by (cases n) auto
  moreover have "cache_find hv (constraints q, c) cache \<noteq> None"
    using assms(1) by (auto simp: cacheLookup_def c answer_def split: option.splits)
  ultimately show ?thesis
    by (simp add: cacheInsert_def c Let_def)
qed

lemma negate_negate: "negatePartialValidity pv = Some pv' \<Longrightarrow> negatePartialValidity pv' = Some pv"
  by (cases pv) auto

lemma lookup_inserted:
  assumes "pv \<noteq> PNone"
  shows "cacheLookup hv q (snd (cacheInsert hv q pv [])) = (Answered (Some pv), snd (cacheInsert hv q pv []))"
proof -
  obtain c n where c: "canonicalizeQuery hv (q_expr q) = (c, n)"
    by fastforce
  obtain pv' where pv': "(if n then negatePartialValidity pv else Some pv) = Some pv'"
    using negate_defined [OF assms] by (cases n) auto
  have "same_entry hv (constraints q, c) (constraints q, c)"
    by (simp add: same_entry_def list_all2_same compare_refl)
  with pv' negate_negate [of pv pv'] show ?thesis
    by (cases n) (simp_all add: cacheInsert_def cacheLookup_def cache_find_def c Let_def answer_def)
qed

section \<open>Properties\<close>

text \<open>
  C33: The chain of the staged and the caching solver is transparent. However queries for truth and
  validity are interleaved, each gets the answer it should have, starting from an empty cache: whether
  its expression holds under all assignments that satisfy its constraints, under none or only under some.
\<close>

theorem solver_chain_transparent:
  assumes "one_object U U" and P: "right_incomplete P ok U" and I: "right_solver True I ok' U"
    and rs: "list_all (\<lambda>r. bool_query U (request_query r)) rs" and s: "ok s" "ok' s'"
  shows "\<exists>s''. session (caching_solver hv (staged_solver P I)) rs ([], s, s') = (Answered (map right_reply rs), s'')"
proof -
  have "both_ok (cache_ok U) (both_ok ok ok') ([], s, s')"
    using s by (simp add: both_ok_def cache_ok_def)
  from gives_yields [OF right_solver.session_right [OF caching_solver_right [OF assms(1) staged_solver_right [OF P I]] rs] this, of hv]
  show ?thesis
    by (elim exE conjE) (rule exI, simp)
qed

text \<open>An incomplete solver for the witness: what a constraint says is true.\<close>

definition member_solver :: "unit incomplete" where
  "member_solver =
     \<lparr>partialTruth = (\<lambda>q. answer (if q_expr q \<in> set (constraints q) then MustBeTrue else PNone)),
      partialValidity = default_partial_validity (\<lambda>q. answer (if q_expr q \<in> set (constraints q) then MustBeTrue else PNone)),
      partialValue = (\<lambda>q. fail), partialInitialValues = (\<lambda>q objs. fail)\<rparr>"

lemma member_solver_right: "right_incomplete member_solver (\<lambda>_. True) U"
proof -
  have "gives True (\<lambda>_. True) (answer (if q_expr q \<in> set (constraints q) then MustBeTrue else PNone)) (\<lambda>pv. pv_ok q pv \<and> pv \<noteq> MayBeTrue)" for q
    by (rule gives_answer) (simp add: valid_def sols_def holds_def)
  note t = this
  have v: "gives True (\<lambda>_. True) (default_partial_validity (\<lambda>q. answer (if q_expr q \<in> set (constraints q) then MustBeTrue else PNone)) q) (pv_ok q)"
    if "bool_query U q" for q
    by (rule default_partial_validity_right [OF that t])
  show ?thesis
    unfolding right_incomplete_def member_solver_def incomplete.simps
    by (intro conjI allI impI t v) simp_all
qed

theorem solver_chain_transparent_witness:
  "\<exists>s''. session (caching_solver (\<lambda>_. 0) (staged_solver member_solver (exhaustive_solver bit_envs)))
     (replicate 2 (Validity \<lparr>constraints = [bit_read 0], q_expr = bit_read 1\<rparr>)) ([], (), ()) =
     (Answered (replicate 2 (right_reply (Validity \<lparr>constraints = [bit_read 0], q_expr = bit_read 1\<rparr>))), s'')"
  using solver_chain_transparent [OF _ member_solver_right exhaustive_solver_right [OF covers_bits],
      where rs = "replicate 2 (Validity \<lparr>constraints = [bit_read 0], q_expr = bit_read 1\<rparr>)" and s = "()" and s' = "()" and hv = "\<lambda>_. 0"] bit_query(1)
  by (simp add: one_object_def numeral_2_eq_2)

text \<open>
  C34: What is learnt of a cached query is lost. When the cache says that a query may be true,
  \<open>computeTruth\<close> asks the solver below and stores the full answer with \<open>insert\<close>, which keeps the old entry: the
  cache does not change, and every further query is sent on again.
\<close>

theorem refined_answer_lost:
  assumes "cacheLookup hv q cache = (Answered (Some MayBeTrue), cache)"
  shows "cached_truth hv I q (cache, s) = (case computeTruth I q s of (r, s') \<Rightarrow> (r, (cache, s')))"
proof (cases "computeTruth I q s")
  case (Pair r s')
  have l: "on_first (cacheLookup hv q) (cache, s) = (Answered (Some MayBeTrue), (cache, s))"
    by (simp add: on_first_def assms)
  have "store_answer hv q pv x (cache, s') = (Answered x, (cache, s'))" if "pv \<noteq> PNone" for pv and x :: bool
    using cacheInsert_hit [OF assms that] by (simp add: store_answer_def ask_def on_first_def answer_def)
  then show ?thesis
    using Pair by (cases r) (auto simp: cached_truth_def ask_cong_answer [where f = "on_first (cacheLookup hv q)", OF l], auto simp: ask_def on_second_def)
qed

theorem refined_answer_lost_witness:
  "let q = \<lparr>constraints = [bit_read 0], q_expr = bit_read 1\<rparr>; cache = snd (cacheInsert (\<lambda>_. 0) q MayBeTrue [])
   in cached_truth (\<lambda>_. 0) (exhaustive_solver bit_envs) q (cache, ()) = (Answered False, (cache, ()))"
  using refined_answer_lost [OF lookup_inserted, where hv = "\<lambda>_. 0" and q = "\<lparr>constraints = [bit_read 0], q_expr = bit_read 1\<rparr>" and I = "exhaustive_solver bit_envs" and s = "()"]
  by (simp add: Let_def exhaustive_solver_def answer_def satisfying_def bit_envs_def bit_read_value bit_env_def)

end
