(* ===== verification/Spec2Isabelle.thy ===== *)
theory Spec2Isabelle
  imports Constraints ExprEval Regions Labels Projection ExprBuilder ExprOrder CodeCache ResourceTree Leakage TreeBuild
    TreeInvariant TreeConditions Analysis ObjectAccess ImmutableTree KTest AddressSpace Resolution Solver CachingSolver
begin

text \<open>
  A verification development for ENCIDER, a symbolic executor built on KLEE that looks for timing and
  cache side channels: places where the running time or the cache lines of a program depend on
  secrets. The repository holds the executor under \<open>src/klee\<close>. This file imports every theory and
  holds the overview.

  \<^bold>\<open>How the program works.\<close> The executor runs a program on symbolic inputs. Its values are
  expressions (\<open>lib/Expr\<close>), built by smart constructors that simplify as they build; the condition of
  a path is a \<open>ConstraintManager\<close>. Inputs are labelled secret or public by bit regions of symbolic
  arrays and memory objects (\<open>lib/Core/Executor.cpp\<close>, \<open>lib/Core/AnalyzeConstraint.cpp\<close>). At a branch
  whose condition depends on a secret the executor makes a node of the resource tree
  (\<open>lib/Core/ResourceUsage.cpp\<close>) and splits the condition into a secret and a public part. When the
  execution has ended, the costs of the paths are propagated up the tree, and at each node two paths
  are compared: different secrets, compatible public inputs and different costs, or different cache
  lines, are a side channel.

  \<^bold>\<open>Expressions.\<close>
  \<^item> \<^verbatim>\<open>Prelude\<close>: integers of a dynamic width, options, lists.
  \<^item> \<^verbatim>\<open>APInt\<close>: constants, \<open>ConstantExpr\<close> of \<open>include/klee/Expr.h\<close>.
  \<^item> \<^verbatim>\<open>Expr\<close>: the classes of expressions, arrays and update lists; typing \<open>wfe\<close>, which is what the
    assertions of the constructors ask for; the value \<open>eval\<close> of an expression under an assignment of
    bytes to the symbolic arrays, the reference for everything that rewrites expressions.
  \<^item> \<^verbatim>\<open>ExprCreate\<close>, \<^verbatim>\<open>ExprArith\<close>, \<^verbatim>\<open>ExprStruct\<close>: the methods \<open>create\<close> of \<open>lib/Expr/Expr.cpp\<close>, each
    proved to have the type and the value of its operation. Extracts of concatenations and
    concatenations of extracts call each other; the recursion is shown to end.
  \<^item> \<^verbatim>\<open>ExprFold\<close>: what the constructors do to the shape of an expression.
  \<^item> \<^verbatim>\<open>ExprOrder\<close>: the total order of expressions, which the maps of the program rely on, and hash
    values.
  \<^item> \<^verbatim>\<open>Visitor\<close>: the traversal of \<open>lib/Expr/ExprVisitor.cpp\<close>, with the virtual methods as a record. It
    has a fuel, as a visitor may visit what it has built; every client is shown to have enough.
  \<^item> \<^verbatim>\<open>ExprEval\<close>: the evaluator of \<open>lib/Expr/ExprEvaluator.cpp\<close> under an \<open>Assignment\<close>: it computes the
    value that \<open>eval\<close> specifies.
  \<^item> \<^verbatim>\<open>Constraints\<close>: \<open>lib/Expr/Constraints.cpp\<close>. Adding a constraint ends and keeps exactly the
    solutions.
  \<^item> \<^verbatim>\<open>ExprBuilder\<close>: the chained builders of \<open>lib/Expr/ExprBuilder.cpp\<close>. The class is a locale, each
    builder an interpretation over every builder below it. The reassociations of the folding builder
    end because the rank \<open>CF_rank\<close> of a call, which is also its fuel, falls.

  \<^bold>\<open>Secrets.\<close>
  \<^item> \<^verbatim>\<open>Regions\<close>: bit regions as sets of positions, with the conversions between \<open>int\<close> and \<open>unsigned\<close>.
  \<^item> \<^verbatim>\<open>Labels\<close>: the tables of secret and public regions, changing them and asking them.
  \<^item> \<^verbatim>\<open>Projection\<close>: which secret regions an expression reads, whether there are any, and the part of a
    condition that speaks of them. An expression without secrets has a value that does not depend on
    them; where this fails, the failure is a theorem.

  \<^bold>\<open>Side channels.\<close>
  \<^item> \<^verbatim>\<open>StdMap\<close>: \<open>std::map\<close> and \<open>std::set\<close> as ordered lists; \<open>insert\<close> keeps what is there.
  \<^item> \<^verbatim>\<open>CodeCache\<close>: basic blocks within a distance, their addresses, and the comparison of cache lines.
  \<^item> \<^verbatim>\<open>ResourceTree\<close>: the nodes and the propagation of costs. The loops over the tree are partial
    functions; they are shown to return on every tree whose levels grow downwards, with every leaf
    recorded at its H-ancestor.
  \<^item> \<^verbatim>\<open>Leakage\<close>: the comparison of paths; what is reported is exactly what leaks.

  \<^item> \<^verbatim>\<open>TreeBuild\<close>: the functions of the executor that make the tree: successors of a branch, costs, ends
    of paths and timing observation points, with the table from states to nodes. \<^verbatim>\<open>TreeInvariant\<close> and
    \<^verbatim>\<open>TreeConditions\<close> show that every sequence of these steps builds a tree whose nodes have the right
    ancestors and whose recorded conditions follow from the conditions of the branches.
  \<^item> \<^verbatim>\<open>Analysis\<close>: the whole analysis of a built tree: it returns and records every path below a secret
    dependent branch.

  \<^bold>\<open>Memory.\<close>
  \<^item> \<^verbatim>\<open>ObjectState\<close>, \<^verbatim>\<open>ObjectAccess\<close>: the contents of an object (\<open>lib/Core/Memory.cpp\<close>): a concrete store,
    known symbolic bytes and an update list with its cache of what has been flushed. Reads and writes
    at concrete and symbolic offsets refine an array of byte values.
  \<^item> \<^verbatim>\<open>ImmutableTree\<close>: the balanced trees behind \<open>ImmutableMap\<close> and their iterators
    (\<open>include/klee/Internal/ADT/ImmutableTree.h\<close>); they refine maps, and the iterators go through the
    entries in the order of the keys.
  \<^item> \<^verbatim>\<open>AddressSpace\<close>: address spaces on these trees (\<open>lib/Core/AddressSpace.cpp\<close>), with copy-on-write:
    any sequence of bindings, forks and writes gives each state the memory it would have with copies of
    its own. Bytes are exchanged with native memory around external calls.
  \<^item> \<^verbatim>\<open>Resolution\<close>: the resolution of a symbolic pointer to the objects it may point into, and the bounds
    checks of \<open>lib/Core/Memory.h\<close>. The searches are partial functions that follow the iterators.
  \<^item> \<^verbatim>\<open>KTest\<close>: the file format of test cases (\<open>lib/Basic/KTest.cpp\<close>).

  \<^bold>\<open>Solvers.\<close>
  \<^item> \<^verbatim>\<open>ExprArrays\<close>: no smart constructor brings in an array, so caches may compare expressions.
  \<^item> \<^verbatim>\<open>Solver\<close>: the interface \<open>SolverImpl\<close> as a record of methods that change a state, what every
    implementation promises as the locale \<open>right_solver\<close>, the front end \<open>lib/Solver/Solver.cpp\<close> with its
    binary searches, and \<open>lib/Core/TimingSolver.cpp\<close>. A method answers, fails or runs into an assertion;
    one set of rules (\<open>gives\<close>) shows that answers are right and, for solvers that always answer, that
    there is one. A solver that tries every assignment is the reference.
  \<^item> \<^verbatim>\<open>CachingSolver\<close>: the staged and the caching solver are right over every right solver.

  \<^bold>\<open>Parameters.\<close> The SMT solver, the LLVM module, the table from source lines to addresses and the hash
  function of LLVM are not under \<open>src\<close> or are outside the core; they are arguments of the definitions
  that use them, and what a theorem needs of them is one of its hypotheses.

  \<^bold>\<open>Not modelled.\<close> The interpreter loop and the intrinsics of the executor and its models of
  asynchronous drivers, which work on LLVM values; the memory manager; the translation to solvers,
  parsing and printing, statistics, file handling other than test cases, tools and the runtime of the
  program under test.
  The line \<open>if (rdi == rd) break\<close> of \<open>printLeakage\<close>, for a node that is its own H-ancestor, is left out,
  since no node is.
\<close>

end
